(* ===== verification/Prelude.thy ===== *)
theory Prelude
  imports Main "HOL-Library.Word"
begin

text \<open>
  Shared vocabulary of the development: the machine integers of the source as words, byte
  strings, big-endian encodings of words, and the generic list, option and map facts that
  the component theories use. The collection \<open>wire_simps\<close> gathers the rewrite rules that
  evaluate wire formats; \<open>keep_simps\<close> gathers the frame facts of state updates (what an
  operation leaves alone); \<open>calm_intros\<close> the rules for computations that do not panic.
\<close>

unbundle bit_operations_syntax

named_theorems wire_simps
named_theorems keep_simps
named_theorems calm_intros

section \<open>Machine integers and byte strings\<close>

type_synonym u8 = "8 word"
type_synonym u16 = "16 word"
type_synonym u32 = "32 word"
type_synonym u64 = "64 word"
type_synonym bytes = "u8 list"

text \<open>
  A byte string literal: the bytes of an ASCII string. Rust's \<open>String\<close> and \<open>&str\<close> are
  UTF-8 byte sequences, so they are \<open>bytes\<close> as well.
\<close>

definition ascii :: "string \<Rightarrow> bytes" where
  "ascii s = map of_char s"

text \<open>\<open>to_be_bytes\<close> of an integer of \<open>n\<close> bytes, and its inverse.\<close>

primrec to_be_bytes :: "nat \<Rightarrow> 'a::len word \<Rightarrow> bytes" where
  "to_be_bytes 0 w = []"
| "to_be_bytes (Suc n) w = ucast (drop_bit (8 * n) w) # to_be_bytes n w"

definition from_be_bytes :: "bytes \<Rightarrow> 'a::len word" where
  "from_be_bytes bs = foldl (\<lambda>acc b. push_bit 8 acc OR ucast b) 0 bs"

text \<open>Decimal rendering of an unsigned integer (\<open>to_string\<close>), as bytes.\<close>

fun decimal :: "nat \<Rightarrow> bytes" where
  "decimal n = (if n < 10 then [48 + of_nat n] else decimal (n div 10) @ [48 + of_nat (n mod 10)])"

text \<open>Lower-case hexadecimal rendering (\<open>{:x}\<close>), and the two-digit form (\<open>{:02x}\<close>) of a byte.\<close>

definition hex_digit :: "nat \<Rightarrow> u8" where
  "hex_digit d = (if d < 10 then 48 + of_nat d else 87 + of_nat d)"

fun hex :: "nat \<Rightarrow> bytes" where
  "hex n = (if n < 16 then [hex_digit n] else hex (n div 16) @ [hex_digit (n mod 16)])"

definition hex02 :: "u8 \<Rightarrow> bytes" where
  "hex02 b = [hex_digit (unat b div 16), hex_digit (unat b mod 16)]"

declare decimal.simps [simp del] hex.simps [simp del]

section \<open>Big-endian round trips\<close>

lemma from_be_bytes_Nil [simp]: "from_be_bytes [] = 0"
  by (simp add: from_be_bytes_def)

lemma from_be_bytes_snoc:
  "from_be_bytes (bs @ [b]) = push_bit 8 (from_be_bytes bs) OR ucast b"
  by (simp add: from_be_bytes_def)

lemma length_to_be_bytes [simp]: "length (to_be_bytes n w) = n"
  by (induction n) simp_all

lemma nth_to_be_bytes: "i < n \<Longrightarrow> to_be_bytes n w ! i = ucast (drop_bit (8 * (n - Suc i)) w)"
  by (induction n arbitrary: i) (auto simp: nth_Cons split: nat.splits)

lemma bit_from_be_bytes:
  "bit (from_be_bytes bs :: 'a::len word) k \<longleftrightarrow>
     k < LENGTH('a) \<and> k div 8 < length bs \<and> bit (rev bs ! (k div 8)) (k mod 8)"
proof (induction bs arbitrary: k rule: rev_induct)
  case Nil
  then show ?case by simp
next
  case (snoc b bs)
  show ?case
  proof (cases "k < 8")
    case True
    then show ?thesis
      by (auto simp: from_be_bytes_snoc bit_simps)
  next
    case False
    then obtain j where k: "k = 8 + j" using le_Suc_ex by (metis not_less)
    have d: "(8 + j) div 8 = Suc (j div 8)" by simp
    show ?thesis
      using snoc.IH [of j] unfolding k d
      by (auto simp: from_be_bytes_snoc bit_simps dest: bit_imp_le_length)
  qed
qed

lemma from_to_be_bytes:
  "LENGTH('a) \<le> 8 * n \<Longrightarrow> from_be_bytes (to_be_bytes n w) = (w :: 'a::len word)"
  by (rule bit_word_eqI) (auto simp: bit_from_be_bytes rev_nth nth_to_be_bytes bit_simps)

lemma to_from_be_bytes:
  "8 * length bs \<le> LENGTH('a) \<Longrightarrow> to_be_bytes (length bs) (from_be_bytes bs :: 'a::len word) = bs"
proof (rule nth_equalityI)
  fix i
  assume len: "8 * length bs \<le> LENGTH('a)"
    and i: "i < length (to_be_bytes (length bs) (from_be_bytes bs :: 'a word))"
  show "to_be_bytes (length bs) (from_be_bytes bs :: 'a word) ! i = bs ! i"
    by (rule bit_word_eqI)
      (use len i in \<open>auto simp: bit_from_be_bytes rev_nth nth_to_be_bytes bit_simps\<close>)
qed simp

section \<open>Results and early return\<close>

text \<open>
  A Rust \<open>Result<A, E>\<close> is a value of \<open>'e + 'a\<close>, with \<open>Inl\<close> for \<open>Err\<close>. \<open>bindE\<close> is the \<open>?\<close>
  operator: it returns the error at once and otherwise goes on with the value.
\<close>

definition bindE :: "'e + 'a \<Rightarrow> ('a \<Rightarrow> 'e + 'b) \<Rightarrow> 'e + 'b" where
  "bindE r f = (case r of Inl e \<Rightarrow> Inl e | Inr x \<Rightarrow> f x)"

lemma bindE_simps [simp]: "bindE (Inl e) f = Inl e" "bindE (Inr x) f = f x"
  by (simp_all add: bindE_def)

lemma bindE_Inr_iff: "bindE r f = Inr y \<longleftrightarrow> (\<exists>x. r = Inr x \<and> f x = Inr y)"
  by (cases r) simp_all

lemma bindE_Inl_iff: "bindE r f = Inl e \<longleftrightarrow> r = Inl e \<or> (\<exists>x. r = Inr x \<and> f x = Inl e)"
  by (cases r) auto

text \<open>\<open>Option::ok_or\<close>.\<close>

definition ok_or :: "'e \<Rightarrow> 'a option \<Rightarrow> 'e + 'a" where
  "ok_or e x = (case x of None \<Rightarrow> Inl e | Some y \<Rightarrow> Inr y)"

lemma ok_or_simps [simp]: "ok_or e None = Inl e" "ok_or e (Some y) = Inr y"
  by (simp_all add: ok_or_def)

lemma ok_or_Inr_iff: "ok_or e x = Inr y \<longleftrightarrow> x = Some y"
  by (cases x) simp_all

lemma ok_or_Inl_iff: "ok_or e x = Inl e' \<longleftrightarrow> x = None \<and> e' = e"
  by (cases x) auto

lemma list_case_Inr_iff:
  "(case xs of [] \<Rightarrow> Inl e | x # ys \<Rightarrow> f x ys) = Inr z \<longleftrightarrow>
     (\<exists>x ys. xs = x # ys \<and> f x ys = Inr z)"
  by (cases xs) simp_all

lemma map_sum_Inr_iff: "map_sum f id r = Inr x \<longleftrightarrow> r = Inr x"
  by (cases r) simp_all

lemma if_Inl_Inr_iff: "(if b then Inl e else r) = Inr x \<longleftrightarrow> \<not> b \<and> r = Inr x"
  by simp

lemmas result_iffs = list_case_Inr_iff map_sum_Inr_iff if_Inl_Inr_iff bindE_Inr_iff bindE_Inl_iff ok_or_Inr_iff ok_or_Inl_iff

section \<open>Generic facts\<close>

lemma unat_u8_less [simp]: "unat (b :: u8) < 256"
  using unsigned_less [of b, where ?'a = nat] by simp

lemma unat_of_nat_u8 [simp]: "n < 256 \<Longrightarrow> unat (of_nat n :: u8) = n"
  by (simp add: unat_of_nat)

lemma unat_u8_eq_iff: "n < 256 \<Longrightarrow> unat (b :: u8) = n \<longleftrightarrow> b = of_nat n"
  using of_nat_unat [of b, where ?'a = "8 word"] by (auto simp: ucast_id)

lemma unat_u8_eq_numeral: "numeral k < (256 :: nat) \<Longrightarrow> unat (b :: u8) = numeral k \<longleftrightarrow> b = numeral k"
  by (simp add: unat_u8_eq_iff)

lemma unat_u8_eq_1: "unat (b :: u8) = Suc 0 \<longleftrightarrow> b = 1"
  by (simp add: unat_u8_eq_iff)

lemma unat_Suc_of_less: "(c :: 'a::len word) < d \<Longrightarrow> unat (c + 1) = Suc (unat c)"
proof -
  assume "c < d"
  then have "unat c < unat d" by (simp add: word_less_nat_alt)
  also have "unat d < 2 ^ LENGTH('a)" by simp
  finally have "Suc (unat c) < 2 ^ LENGTH('a)"
    using \<open>unat c < unat d\<close> \<open>unat d < 2 ^ LENGTH('a)\<close> by linarith
  then show ?thesis by (simp add: unat_word_ariths)
qed

lemma unat_pos_iff [simp]: "0 < unat w \<longleftrightarrow> w \<noteq> (0 :: 'a::len word)"
  by (auto simp: unat_eq_0 intro: gr0I)

lemma take_drop_append [simp]: "take n xs @ drop n xs @ ys = xs @ ys"
  by (simp flip: append_assoc)

lemma last_separator_split:
  "xs @ c # ys = xs' @ c # ys' \<Longrightarrow> c \<notin> set ys \<Longrightarrow> c \<notin> set ys' \<Longrightarrow> xs = xs' \<and> ys = ys'"
proof (induction xs arbitrary: xs')
  case Nil
  then show ?case by (cases xs') auto
next
  case (Cons x xs)
  then show ?case by (cases xs') auto
qed

lemma Some_eq_if_iff [simp]: "(if b then Some x else None) = Some y \<longleftrightarrow> b \<and> x = y"
  by auto

lemma map_of_filter_key:
  "map_of (filter (\<lambda>(k, v). k \<noteq> a) xs) = (map_of xs)(a := None)"
  by (induction xs) auto

lemma distinct_map_filter_fst: "distinct (map fst xs) \<Longrightarrow> distinct (map fst (filter P xs))"
  by (induction xs) auto

lemma length_map_filter: "length (List.map_filter f xs) = length xs \<longleftrightarrow> (\<forall>x\<in>set xs. f x \<noteq> None)"
proof (induction xs)
  case (Cons x xs)
  have "length (List.map_filter f xs) \<le> length xs" by (simp add: List.map_filter_def)
  with Cons show ?case by (auto split: option.splits)
qed simp

end
