(* ===== verification/Wire.thy ===== *)
theory Wire
  imports Prelude
begin

text \<open>
  The SOCKS5 wire protocol of \<open>src/lib.rs\<close>: reply codes and errors, address types and
  commands, socket addresses, the reply builder \<open>SocksReply\<close>, and the pure parsers
  \<open>take\<close>, \<open>take_addr\<close>, \<open>take_port\<close>, \<open>parse_greeting\<close>, \<open>parse_userpass\<close>, \<open>parse_request\<close>,
  \<open>parse_udp_header\<close> with the encoder \<open>encode_udp_header\<close>. An \<open>io::Error\<close> is its
  \<open>ErrorKind\<close>: the message is only logged.
\<close>

section \<open>Errors and codes\<close>

text \<open>
  The kinds of \<open>std::io::ErrorKind\<close> that the source names; \<open>Ek_other\<close> stands for every
  other kind.
\<close>

datatype error_kind =
    Ek_UnexpectedEof | Ek_ConnectionReset | Ek_ConnectionAborted | Ek_BrokenPipe
  | Ek_TimedOut | Ek_ConnectionRefused | Ek_NetworkUnreachable | Ek_NetworkDown
  | Ek_HostUnreachable | Ek_AddrNotAvailable | Ek_NotConnected | Ek_InvalidInput
  | Ek_InvalidData | Ek_PermissionDenied | Ek_AddrInUse | Ek_other nat

datatype response_code =
    Success | Failure | RuleFailure | NetworkUnreachable | HostUnreachable
  | ConnectionRefused | TtlExpired | CommandNotSupported | AddrTypeNotSupported

datatype merino_error = Io error_kind | Socks response_code

text \<open>The discriminants: \<open>status as u8\<close>.\<close>

fun code_byte :: "response_code \<Rightarrow> u8" where
  "code_byte Success = 0"
| "code_byte Failure = 1"
| "code_byte RuleFailure = 2"
| "code_byte NetworkUnreachable = 3"
| "code_byte HostUnreachable = 4"
| "code_byte ConnectionRefused = 5"
| "code_byte TtlExpired = 6"
| "code_byte CommandNotSupported = 7"
| "code_byte AddrTypeNotSupported = 8"

text \<open>\<open>impl From<MerinoError> for ResponseCode\<close>.\<close>

fun code_of_error :: "merino_error \<Rightarrow> response_code" where
  "code_of_error (Socks e) = e"
| "code_of_error (Io _) = Failure"

definition truncated :: merino_error where
  "truncated = Io Ek_UnexpectedEof"

text \<open>Classification of errors for the log and the statistics.\<close>

definition is_disconnect_kind :: "error_kind \<Rightarrow> bool" where
  "is_disconnect_kind k \<longleftrightarrow>
     k \<in> {Ek_UnexpectedEof, Ek_ConnectionReset, Ek_ConnectionAborted, Ek_BrokenPipe}"

fun is_client_disconnect :: "merino_error \<Rightarrow> bool" where
  "is_client_disconnect (Io k) = is_disconnect_kind k"
| "is_client_disconnect (Socks _) = False"

fun is_connection_failure :: "merino_error \<Rightarrow> bool" where
  "is_connection_failure (Io k) = (k = Ek_TimedOut)"
| "is_connection_failure (Socks c) =
     (c \<in> {NetworkUnreachable, HostUnreachable, ConnectionRefused, TtlExpired})"

definition connect_timeout_error :: merino_error where
  "connect_timeout_error = Socks TtlExpired"

definition dns_failure_error :: merino_error where
  "dns_failure_error = Socks HostUnreachable"

fun connect_error :: "error_kind \<Rightarrow> merino_error" where
  "connect_error Ek_ConnectionRefused = Socks ConnectionRefused"
| "connect_error Ek_NetworkUnreachable = Socks NetworkUnreachable"
| "connect_error Ek_NetworkDown = Socks NetworkUnreachable"
| "connect_error Ek_HostUnreachable = Socks HostUnreachable"
| "connect_error Ek_AddrNotAvailable = Socks HostUnreachable"
| "connect_error k = Io k"

section \<open>Protocol constants\<close>

definition SOCKS_VERSION :: u8 where "SOCKS_VERSION = 5"

definition RESERVED :: u8 where "RESERVED = 0"

datatype addr_type = V4 | DomainName | V6

fun addr_type_byte :: "addr_type \<Rightarrow> u8" where
  "addr_type_byte V4 = 1"
| "addr_type_byte DomainName = 3"
| "addr_type_byte V6 = 4"

definition addr_type_from :: "nat \<Rightarrow> addr_type option" where
  "addr_type_from n =
     (if n = 1 then Some V4 else if n = 3 then Some DomainName
      else if n = 4 then Some V6 else None)"

datatype sock_command = Connect | Bind | UdpAssosiate

fun sock_command_byte :: "sock_command \<Rightarrow> u8" where
  "sock_command_byte Connect = 1"
| "sock_command_byte Bind = 2"
| "sock_command_byte UdpAssosiate = 3"

definition sock_command_from :: "nat \<Rightarrow> sock_command option" where
  "sock_command_from n =
     (if n = 1 then Some Connect else if n = 2 then Some Bind
      else if n = 3 then Some UdpAssosiate else None)"

datatype auth_methods_enum = NoAuth | UserPass | NoMethods

fun auth_byte :: "auth_methods_enum \<Rightarrow> u8" where
  "auth_byte NoAuth = 0"
| "auth_byte UserPass = 2"
| "auth_byte NoMethods = 255"

section \<open>Addresses\<close>

text \<open>
  \<open>std::net\<close>: an \<open>Ipv4Addr\<close> is 4 octets, an \<open>Ipv6Addr\<close> 16 octets, kept as the big-endian
  word they spell, so that \<open>octets()\<close> is \<open>to_be_bytes\<close> and \<open>from(octets)\<close> is
  \<open>from_be_bytes\<close>.
\<close>

datatype ip_addr = IpV4 u32 | IpV6 "128 word"

datatype socket_addr =
    SocketAddrV4 u32 u16
  | SocketAddrV6 "128 word" u16 u32 u32  \<comment> \<open>ip, port, flowinfo, scope id\<close>

fun sock_ip :: "socket_addr \<Rightarrow> ip_addr" where
  "sock_ip (SocketAddrV4 ip _) = IpV4 ip"
| "sock_ip (SocketAddrV6 ip _ _ _) = IpV6 ip"

fun sock_port :: "socket_addr \<Rightarrow> u16" where
  "sock_port (SocketAddrV4 _ p) = p"
| "sock_port (SocketAddrV6 _ p _ _) = p"

text \<open>\<open>SocketAddr::new\<close>.\<close>

fun socket_addr_new :: "ip_addr \<Rightarrow> u16 \<Rightarrow> socket_addr" where
  "socket_addr_new (IpV4 ip) p = SocketAddrV4 ip p"
| "socket_addr_new (IpV6 ip) p = SocketAddrV6 ip p 0 0"

fun is_unspecified :: "ip_addr \<Rightarrow> bool" where
  "is_unspecified (IpV4 ip) = (ip = 0)"
| "is_unspecified (IpV6 ip) = (ip = 0)"

text \<open>The derived order of \<open>IpAddr\<close>: every IPv4 address before every IPv6 address.\<close>

instantiation ip_addr :: linorder
begin

fun less_eq_ip_addr :: "ip_addr \<Rightarrow> ip_addr \<Rightarrow> bool" where
  "less_eq_ip_addr (IpV4 a) (IpV4 b) = (a \<le> b)"
| "less_eq_ip_addr (IpV4 _) (IpV6 _) = True"
| "less_eq_ip_addr (IpV6 _) (IpV4 _) = False"
| "less_eq_ip_addr (IpV6 a) (IpV6 b) = (a \<le> b)"

definition less_ip_addr :: "ip_addr \<Rightarrow> ip_addr \<Rightarrow> bool" where
  "less_ip_addr a b \<longleftrightarrow> a \<le> b \<and> \<not> b \<le> a"

instance
proof
  fix x y z :: ip_addr
  show "(x < y) = (x \<le> y \<and> \<not> y \<le> x)" by (rule less_ip_addr_def)
  show "x \<le> x" by (cases x) simp_all
  show "x \<le> y \<Longrightarrow> y \<le> z \<Longrightarrow> x \<le> z" by (cases x; cases y; cases z) simp_all
  show "x \<le> y \<Longrightarrow> y \<le> x \<Longrightarrow> x = y" by (cases x; cases y) simp_all
  show "x \<le> y \<or> y \<le> x" by (cases x; cases y) auto
qed

end

text \<open>
  \<open>expected_ip\<close>: the concrete IP a request names, \<open>None\<close> for a domain, a short address or the
  unspecified address. Longer slices are cut to the first 4 or 16 bytes.
\<close>

definition expected_ip :: "addr_type \<Rightarrow> bytes \<Rightarrow> ip_addr option" where
  "expected_ip t addr =
     (let concrete = (\<lambda>ip. if is_unspecified ip then None else Some ip) in
      case t of
        V4 \<Rightarrow> if length addr < 4 then None else concrete (IpV4 (from_be_bytes (take 4 addr)))
      | V6 \<Rightarrow> if length addr < 16 then None else concrete (IpV6 (from_be_bytes (take 16 addr)))
      | DomainName \<Rightarrow> None)"

section \<open>Replies\<close>

record socks_reply =
  buf :: bytes

definition from_bound :: "response_code \<Rightarrow> socket_addr option \<Rightarrow> socks_reply" where
  "from_bound status bound =
     \<lparr>buf = [SOCKS_VERSION, code_byte status, RESERVED] @
        (case bound of
           Some (SocketAddrV4 ip p) \<Rightarrow>
             [addr_type_byte V4] @ to_be_bytes 4 ip @ to_be_bytes 2 p
         | Some (SocketAddrV6 ip p _ _) \<Rightarrow>
             [addr_type_byte V6] @ to_be_bytes 16 ip @ to_be_bytes 2 p
         | None \<Rightarrow> [addr_type_byte V4] @ [0, 0, 0, 0] @ [0, 0])\<rparr>"

definition reply_new :: "response_code \<Rightarrow> socks_reply" where
  "reply_new status = from_bound status None"

definition reply_with_addr :: "response_code \<Rightarrow> socket_addr \<Rightarrow> socks_reply" where
  "reply_with_addr status bound = from_bound status (Some bound)"

definition as_bytes :: "socks_reply \<Rightarrow> bytes" where
  "as_bytes r = buf r"

section \<open>Parsers\<close>

definition take_bytes :: "bytes \<Rightarrow> nat \<Rightarrow> merino_error + bytes \<times> bytes" where
  "take_bytes bs len =
     (if length bs < len then Inl truncated else Inr (take len bs, drop len bs))"

fun take_addr :: "bytes \<Rightarrow> addr_type \<Rightarrow> merino_error + bytes \<times> bytes" where
  "take_addr bs DomainName =
     (case bs of dlen # rest \<Rightarrow> take_bytes rest (unat dlen) | [] \<Rightarrow> Inl truncated)"
| "take_addr bs V4 = take_bytes bs 4"
| "take_addr bs V6 = take_bytes bs 16"

definition take_port :: "bytes \<Rightarrow> merino_error + u16 \<times> bytes" where
  "take_port bs =
     (case bs of
        hi # lo # rest \<Rightarrow> Inr (push_bit 8 (ucast hi) OR ucast lo, rest)
      | _ \<Rightarrow> Inl truncated)"

definition parse_greeting :: "bytes \<Rightarrow> merino_error + u8 \<times> u8 \<times> bytes \<times> nat" where
  "parse_greeting bs =
     (case bs of
        version # nmethods # rest \<Rightarrow>
          bindE (take_bytes rest (unat nmethods)) (\<lambda>(methods, _).
            Inr (version, nmethods, methods, 2 + length methods))
      | _ \<Rightarrow> Inl truncated)"

record user_pass_request =
  up_version :: u8
  up_username :: bytes
  up_password :: bytes

definition parse_userpass :: "bytes \<Rightarrow> merino_error + user_pass_request \<times> nat" where
  "parse_userpass bs =
     (case bs of
        version # ulen # rest \<Rightarrow>
          bindE (take_bytes rest (unat ulen)) (\<lambda>(username, rest1).
            case rest1 of
              plen # rest2 \<Rightarrow>
                bindE (take_bytes rest2 (unat plen)) (\<lambda>(password, rest3).
                  Inr (\<lparr>up_version = version, up_username = username, up_password = password\<rparr>,
                       length bs - length rest3))
            | [] \<Rightarrow> Inl truncated)
      | _ \<Rightarrow> Inl truncated)"

record socks_req =
  req_version :: u8
  req_command :: sock_command
  req_addr_type :: addr_type
  req_addr :: bytes
  req_port :: u16

definition parse_request :: "bytes \<Rightarrow> merino_error + socks_req \<times> nat" where
  "parse_request bs =
     (case bs of
        version # command # rsv # atyp # rest \<Rightarrow>
          bindE (ok_or (Socks CommandNotSupported) (sock_command_from (unat command))) (\<lambda>cmd.
          bindE (ok_or (Socks AddrTypeNotSupported) (addr_type_from (unat atyp))) (\<lambda>t.
          bindE (take_addr rest t) (\<lambda>(addr, rest1).
          bindE (take_port rest1) (\<lambda>(port, rest2).
            Inr (\<lparr>req_version = version, req_command = cmd, req_addr_type = t,
                  req_addr = addr, req_port = port\<rparr>, length bs - length rest2)))))
      | _ \<Rightarrow> Inl truncated)"

record udp_request =
  udp_frag :: u8
  udp_addr_type :: addr_type
  udp_addr :: bytes
  udp_port :: u16

definition parse_udp_header :: "bytes \<Rightarrow> merino_error + udp_request \<times> nat" where
  "parse_udp_header bs =
     (case bs of
        rsv # rsv2 # frag # atyp # rest \<Rightarrow>
          bindE (ok_or (Socks AddrTypeNotSupported) (addr_type_from (unat atyp))) (\<lambda>t.
          bindE (take_addr rest t) (\<lambda>(addr, rest1).
          bindE (take_port rest1) (\<lambda>(port, rest2).
            Inr (\<lparr>udp_frag = frag, udp_addr_type = t, udp_addr = addr, udp_port = port\<rparr>,
                 length bs - length rest2))))
      | _ \<Rightarrow> Inl truncated)"

fun encode_udp_header :: "socket_addr \<Rightarrow> bytes" where
  "encode_udp_header (SocketAddrV4 ip p) =
     [RESERVED, RESERVED, 0, addr_type_byte V4] @ to_be_bytes 4 ip @ to_be_bytes 2 p"
| "encode_udp_header (SocketAddrV6 ip p _ _) =
     [RESERVED, RESERVED, 0, addr_type_byte V6] @ to_be_bytes 16 ip @ to_be_bytes 2 p"

section \<open>The wire grammar\<close>

text \<open>
  What the parsers are meant to accept, written from RFC 1928 section 3 to 7 and RFC 1929 as
  encoders of well-formed messages: the reference definitions of the round trips below.
\<close>

fun wf_addr :: "addr_type \<Rightarrow> bytes \<Rightarrow> bool" where
  "wf_addr V4 a = (length a = 4)"
| "wf_addr V6 a = (length a = 16)"
| "wf_addr DomainName a = (length a < 256)"

fun addr_frame :: "addr_type \<Rightarrow> bytes \<Rightarrow> bytes" where
  "addr_frame DomainName a = of_nat (length a) # a"
| "addr_frame V4 a = a"
| "addr_frame V6 a = a"

definition greeting_frame :: "u8 \<Rightarrow> bytes \<Rightarrow> bytes" where
  "greeting_frame version methods = [version, of_nat (length methods)] @ methods"

definition userpass_frame :: "user_pass_request \<Rightarrow> bytes" where
  "userpass_frame u =
     [up_version u, of_nat (length (up_username u))] @ up_username u @
     [of_nat (length (up_password u))] @ up_password u"

definition wf_userpass :: "user_pass_request \<Rightarrow> bool" where
  "wf_userpass u \<longleftrightarrow> length (up_username u) < 256 \<and> length (up_password u) < 256"

definition request_frame :: "u8 \<Rightarrow> socks_req \<Rightarrow> bytes" where
  "request_frame rsv r =
     [req_version r, sock_command_byte (req_command r), rsv, addr_type_byte (req_addr_type r)] @
     addr_frame (req_addr_type r) (req_addr r) @ to_be_bytes 2 (req_port r)"

text \<open>
  A request that fits the layout: its address has the form of its type. The version octet is free
  here, as it is for \<open>parse_request\<close>; the requests of RFC 1928 section 4 carry version 5, which
  \<open>from_stream\<close> demands before it parses.
\<close>

definition wf_request :: "socks_req \<Rightarrow> bool" where
  "wf_request r \<longleftrightarrow> wf_addr (req_addr_type r) (req_addr r)"

definition rfc1928_request :: "socks_req \<Rightarrow> bool" where
  "rfc1928_request r \<longleftrightarrow> req_version r = 5 \<and> wf_request r"

definition udp_frame :: "u8 \<Rightarrow> u8 \<Rightarrow> udp_request \<Rightarrow> bytes" where
  "udp_frame rsv rsv2 u =
     [rsv, rsv2, udp_frag u, addr_type_byte (udp_addr_type u)] @
     addr_frame (udp_addr_type u) (udp_addr u) @ to_be_bytes 2 (udp_port u)"

text \<open>The address type and octets that denote a socket address on the wire.\<close>

fun sock_addr_type :: "socket_addr \<Rightarrow> addr_type" where
  "sock_addr_type (SocketAddrV4 _ _) = V4"
| "sock_addr_type (SocketAddrV6 _ _ _ _) = V6"

fun sock_octets :: "socket_addr \<Rightarrow> bytes" where
  "sock_octets (SocketAddrV4 ip _) = to_be_bytes 4 ip"
| "sock_octets (SocketAddrV6 ip _ _ _) = to_be_bytes 16 ip"

section \<open>Codes and bytes\<close>

lemma command_from_byte_iff:
  "sock_command_from (unat b) = Some c \<longleftrightarrow> b = sock_command_byte c"
  by (cases c) (auto simp: sock_command_from_def unat_u8_eq_1 unat_u8_eq_numeral split: if_splits)

lemma addr_type_from_byte_iff:
  "addr_type_from (unat b) = Some t \<longleftrightarrow> b = addr_type_byte t"
  by (cases t) (auto simp: addr_type_from_def unat_u8_eq_1 unat_u8_eq_numeral split: if_splits)

lemma to_be_bytes_2: "to_be_bytes 2 (w :: u16) = [ucast (drop_bit 8 w), ucast w]"
  by (simp add: numeral_2_eq_2)

lemma to_be_bytes_4:
  "to_be_bytes 4 (w :: u32) = [ucast (drop_bit 24 w), ucast (drop_bit 16 w), ucast (drop_bit 8 w), ucast w]"
proof -
  have "(4 :: nat) = Suc (Suc (Suc (Suc 0)))" by simp
  then show ?thesis by (simp only: to_be_bytes.simps) simp
qed

lemma port_word: "push_bit 8 (ucast hi) OR ucast lo = (from_be_bytes [hi, lo] :: u16)"
  by (simp add: from_be_bytes_def)

section \<open>The field parsers split off exactly their field\<close>

lemma take_bytes_Inr: "take_bytes bs n = Inr (a, r) \<longleftrightarrow> bs = a @ r \<and> length a = n"
  by (auto simp: take_bytes_def)

lemma take_bytes_Inl: "take_bytes bs n = Inl e \<longleftrightarrow> length bs < n \<and> e = truncated"
  by (auto simp: take_bytes_def)

lemma take_addr_Inr:
  "take_addr bs t = Inr (a, r) \<longleftrightarrow> wf_addr t a \<and> bs = addr_frame t a @ r"
proof (cases t)
  case DomainName
  have "dlen = of_nat (length a) \<and> length a < 256 \<longleftrightarrow> length a = unat dlen" for dlen :: u8
    by (metis unat_u8_eq_iff unat_u8_less)
  with DomainName show ?thesis
    by (auto simp: take_bytes_Inr split: list.splits)
qed (auto simp: take_bytes_Inr)

lemma take_addr_Inl: "take_addr bs t = Inl e \<Longrightarrow> e = truncated"
  by (cases t) (auto simp: take_bytes_Inl split: list.splits)

lemma take_port_Inr: "take_port bs = Inr (p, r) \<longleftrightarrow> bs = to_be_bytes 2 p @ r"
proof -
  have eq: "from_be_bytes [hi, lo] = p \<longleftrightarrow> hi = ucast (drop_bit 8 p) \<and> lo = ucast p"
    for hi lo :: u8
    using from_to_be_bytes [of 2 p] to_from_be_bytes [of "[hi, lo]", where ?'a = 16]
    by (auto simp: numeral_2_eq_2)
  show ?thesis
    by (auto simp: take_port_def port_word to_be_bytes_2 eq split: list.splits)
qed

lemma take_port_Inl: "take_port bs = Inl e \<longleftrightarrow> length bs < 2 \<and> e = truncated"
  by (auto simp: take_port_def split: list.splits)

lemma take_addr_frame [simp]: "wf_addr t a \<Longrightarrow> take_addr (addr_frame t a @ r) t = Inr (a, r)"
  by (simp add: take_addr_Inr)

lemma take_port_bytes [simp]: "take_port (to_be_bytes 2 p @ r) = Inr (p, r)"
  by (simp add: take_port_Inr)

lemma command_from_byte [simp]: "sock_command_from (unat (sock_command_byte c)) = Some c"
  by (simp add: command_from_byte_iff)

lemma addr_type_from_byte [simp]: "addr_type_from (unat (addr_type_byte t)) = Some t"
  by (simp add: addr_type_from_byte_iff)

lemmas field_iffs = take_bytes_Inr take_bytes_Inl take_addr_Inr take_port_Inr take_port_Inl
  command_from_byte_iff addr_type_from_byte_iff

section \<open>The message parsers accept exactly the grammar\<close>

lemma parse_greeting_iff:
  "parse_greeting bs = Inr (v, n, methods, consumed) \<longleftrightarrow>
     (\<exists>rest. bs = greeting_frame v methods @ rest) \<and> length methods < 256 \<and>
     n = of_nat (length methods) \<and> consumed = length (greeting_frame v methods)"
proof -
  have "n = of_nat (length methods) \<and> length methods < 256 \<longleftrightarrow> length methods = unat n"
    by (metis unat_u8_eq_iff unat_u8_less)
  then show ?thesis
    by (auto simp: parse_greeting_def greeting_frame_def result_iffs field_iffs split: list.splits)
qed

lemma parse_userpass_frame [simp]:
  "wf_userpass u \<Longrightarrow>
   parse_userpass (userpass_frame u @ rest) = Inr (u, length (userpass_frame u))"
  by (simp add: parse_userpass_def userpass_frame_def wf_userpass_def take_bytes_def)

lemma parse_userpass_iff:
  "parse_userpass bs = Inr (u, consumed) \<longleftrightarrow>
     (\<exists>rest. bs = userpass_frame u @ rest) \<and> wf_userpass u \<and>
     consumed = length (userpass_frame u)"
proof
  assume ok: "parse_userpass bs = Inr (u, consumed)"
  then obtain v ulen bs1 uname plen bs2 pw rest
    where "bs = v # ulen # bs1" "take_bytes bs1 (unat ulen) = Inr (uname, plen # bs2)"
      "take_bytes bs2 (unat plen) = Inr (pw, rest)"
      "u = \<lparr>up_version = v, up_username = uname, up_password = pw\<rparr>"
    by (auto simp: parse_userpass_def result_iffs)
  then have "bs = userpass_frame u @ rest" "wf_userpass u"
    by (auto simp: userpass_frame_def wf_userpass_def take_bytes_Inr of_nat_unat ucast_id)
  with ok show "(\<exists>rest. bs = userpass_frame u @ rest) \<and> wf_userpass u \<and>
      consumed = length (userpass_frame u)"
    by auto
qed auto

lemma parse_request_frame [simp]:
  "wf_request r \<Longrightarrow>
   parse_request (request_frame rsv r @ rest) = Inr (r, length (request_frame 0 r))"
  by (simp add: parse_request_def request_frame_def wf_request_def)

lemma parse_request_iff:
  "parse_request bs = Inr (r, consumed) \<longleftrightarrow>
     (\<exists>rsv rest. bs = request_frame rsv r @ rest) \<and> wf_request r \<and>
     consumed = length (request_frame 0 r)"
proof
  assume "parse_request bs = Inr (r, consumed)"
  then show "(\<exists>rsv rest. bs = request_frame rsv r @ rest) \<and> wf_request r \<and>
      consumed = length (request_frame 0 r)"
    by (auto simp: parse_request_def request_frame_def wf_request_def result_iffs field_iffs
        split: list.splits)
qed auto

lemma parse_udp_frame [simp]:
  "wf_addr (udp_addr_type u) (udp_addr u) \<Longrightarrow>
   parse_udp_header (udp_frame rsv rsv2 u @ rest) = Inr (u, length (udp_frame 0 0 u))"
  by (simp add: parse_udp_header_def udp_frame_def)

lemma parse_udp_header_iff:
  "parse_udp_header bs = Inr (u, consumed) \<longleftrightarrow>
     (\<exists>rsv rsv2 rest. bs = udp_frame rsv rsv2 u @ rest) \<and>
     wf_addr (udp_addr_type u) (udp_addr u) \<and> consumed = length (udp_frame 0 0 u)"
proof
  assume "parse_udp_header bs = Inr (u, consumed)"
  then show "(\<exists>rsv rsv2 rest. bs = udp_frame rsv rsv2 u @ rest) \<and>
      wf_addr (udp_addr_type u) (udp_addr u) \<and> consumed = length (udp_frame 0 0 u)"
    by (auto simp: parse_udp_header_def udp_frame_def result_iffs field_iffs split: list.splits)
qed auto

section \<open>Error outcomes of the request parser\<close>

text \<open>
  The reply code of a bad request depends on the first four bytes only: an unknown command
  wins over an unknown address type, and every other failure is a truncated frame.
\<close>

definition request_error :: "bytes \<Rightarrow> merino_error" where
  "request_error bs =
     (if length bs < 4 then truncated
      else if sock_command_from (unat (bs ! 1)) = None then Socks CommandNotSupported
      else if addr_type_from (unat (bs ! 3)) = None then Socks AddrTypeNotSupported
      else truncated)"

lemma parse_request_Inl: "parse_request bs = Inl e \<Longrightarrow> e = request_error bs"
  by (auto simp: parse_request_def request_error_def result_iffs take_port_Inl
      dest: take_addr_Inl split: list.splits)

section \<open>Encoders\<close>

lemma encode_udp_header_frame:
  "encode_udp_header a =
     udp_frame 0 0 \<lparr>udp_frag = 0, udp_addr_type = sock_addr_type a,
       udp_addr = sock_octets a, udp_port = sock_port a\<rparr>"
  by (cases a) (simp_all add: udp_frame_def RESERVED_def)

lemma wf_sock_octets [simp]: "wf_addr (sock_addr_type a) (sock_octets a)"
  by (cases a) simp_all

lemma reply_bytes:
  "as_bytes (reply_with_addr status a) =
     [5, code_byte status, 0, addr_type_byte (sock_addr_type a)] @
     addr_frame (sock_addr_type a) (sock_octets a) @ to_be_bytes 2 (sock_port a)"
  by (cases a)
    (simp_all add: as_bytes_def reply_with_addr_def from_bound_def SOCKS_VERSION_def RESERVED_def)

lemma reply_new_bytes [wire_simps]:
  "as_bytes (reply_new status) = [5, code_byte status, 0, 1, 0, 0, 0, 0, 0, 0]"
  by (simp add: as_bytes_def reply_new_def from_bound_def SOCKS_VERSION_def RESERVED_def)

lemma reply_new_unspecified: "reply_new status = reply_with_addr status (SocketAddrV4 0 0)"
  by (simp add: reply_new_def reply_with_addr_def from_bound_def numeral_eq_Suc)

section \<open>The contract of a frame parser\<close>

text \<open>
  What the stream readers and the UDP relay rely on: \<open>parse\<close> recognises the frames of a
  grammar at the front of a buffer and reports how many bytes they take. \<open>'c\<close> are the bytes
  of a frame that the parser ignores.
\<close>

locale frame_codec =
  fixes frame :: "'c \<Rightarrow> 'a \<Rightarrow> bytes"
    and parse :: "bytes \<Rightarrow> merino_error + 'a \<times> nat"
    and wf :: "'a \<Rightarrow> bool"
  assumes parse_frame: "wf x \<Longrightarrow> parse (frame c x @ rest) = Inr (x, length (frame c x))"
    and parse_complete: "parse bs = Inr (x, n) \<Longrightarrow> wf x \<and> (\<exists>c rest. bs = frame c x @ rest)"
begin

lemma consumed_frame:
  assumes "parse bs = Inr (x, n)"
  shows "\<exists>c. take n bs = frame c x \<and> n \<le> length bs"
proof -
  from parse_complete [OF assms] obtain c rest where bs: "bs = frame c x @ rest" and "wf x"
    by blast
  with parse_frame [of x c rest] assms have "n = length (frame c x)" by simp
  with bs have "take n bs = frame c x \<and> n \<le> length bs" by simp
  then show ?thesis ..
qed

lemma ignores_trailing:
  assumes "parse bs = Inr (x, n)"
  shows "parse (bs @ extra) = Inr (x, n)" "parse (take n bs) = Inr (x, n)"
proof -
  from parse_complete [OF assms] obtain c rest where bs: "bs = frame c x @ rest" and wf: "wf x"
    by blast
  with parse_frame [OF wf, of c] assms have n: "n = length (frame c x)" by simp
  show "parse (bs @ extra) = Inr (x, n)"
    using parse_frame [OF wf, of c "rest @ extra"] by (simp add: bs n)
  show "parse (take n bs) = Inr (x, n)"
    using parse_frame [OF wf, of c "[]"] by (simp add: bs n)
qed

lemma unambiguous:
  assumes "wf x" "wf y" "frame c x @ rest = frame c' y @ rest'"
  shows "x = y \<and> rest = rest'"
  using parse_frame [OF assms(1), of c rest] parse_frame [OF assms(2), of c' rest'] assms(3)
  by auto

end

interpretation greeting_codec: frame_codec
  "\<lambda>_ :: unit. \<lambda>(v, ms). greeting_frame v ms"
  "\<lambda>bs. map_sum id (\<lambda>(v, _, ms, n). ((v, ms), n)) (parse_greeting bs)"
  "\<lambda>(v, ms). length ms < 256"
proof unfold_locales
  fix x :: "u8 \<times> bytes" and rest :: bytes
  assume "case x of (v, ms) \<Rightarrow> length ms < 256"
  then have "parse_greeting (greeting_frame (fst x) (snd x) @ rest) =
      Inr (fst x, of_nat (length (snd x)), snd x, length (greeting_frame (fst x) (snd x)))"
    by (auto simp: parse_greeting_iff)
  then show "map_sum id (\<lambda>(v, _, ms, n). ((v, ms), n))
      (parse_greeting ((case x of (v, ms) \<Rightarrow> greeting_frame v ms) @ rest)) =
      Inr (x, length (case x of (v, ms) \<Rightarrow> greeting_frame v ms))"
    by (simp add: case_prod_beta)
next
  fix bs :: bytes and x :: "u8 \<times> bytes" and n :: nat
  assume "map_sum id (\<lambda>(v, _, ms, n). ((v, ms), n)) (parse_greeting bs) = Inr (x, n)"
  then obtain v k ms where "parse_greeting bs = Inr (v, k, ms, n)" "x = (v, ms)"
    by (cases "parse_greeting bs") auto
  then show "(case x of (v, ms) \<Rightarrow> length ms < 256) \<and>
      (\<exists>c rest. bs = (case x of (v, ms) \<Rightarrow> greeting_frame v ms) @ rest)"
    by (simp add: parse_greeting_iff)
qed

interpretation userpass_codec: frame_codec "\<lambda>_ :: unit. userpass_frame" parse_userpass wf_userpass
  by unfold_locales (auto simp: parse_userpass_iff)

lemma length_request_frame:
  "length (request_frame rsv r) = 6 + length (addr_frame (req_addr_type r) (req_addr r))"
  by (simp add: request_frame_def)

lemma length_udp_frame:
  "length (udp_frame rsv rsv2 u) = 6 + length (addr_frame (udp_addr_type u) (udp_addr u))"
  by (simp add: udp_frame_def)

interpretation request_codec: frame_codec request_frame parse_request wf_request
  by unfold_locales (auto simp: parse_request_iff length_request_frame)

interpretation udp_codec: frame_codec
  "\<lambda>(a, b). udp_frame a b" parse_udp_header "\<lambda>u. wf_addr (udp_addr_type u) (udp_addr u)"
  by unfold_locales (auto simp: parse_udp_header_iff length_udp_frame)

section \<open>Properties\<close>

text \<open>
  C21. The request parser accepts exactly the buffers that start with a frame of the layout of RFC 1928
  section 4 with a known command and address type, gives its fields back, and reports its length.
  Neither the reserved byte nor the version is looked at: the version is handed back, and the
  requests of the RFC are exactly the accepted ones with version 5 and a reserved byte of zero.
\<close>

theorem parse_request_grammar:
  "(parse_request bs = Inr (r, consumed) \<longleftrightarrow>
      (\<exists>rsv rest. bs = request_frame rsv r @ rest) \<and> wf_request r \<and> consumed = length (request_frame 0 r)) \<and>
   ((\<exists>rest. bs = request_frame 0 r @ rest) \<and> rfc1928_request r \<longleftrightarrow>
      (\<exists>n. parse_request bs = Inr (r, n)) \<and> req_version r = SOCKS_VERSION \<and> bs ! 2 = RESERVED)"
proof -
  have "bs ! 2 = rsv" if "bs = request_frame rsv r @ rest" for rsv rest
    using that by (simp add: request_frame_def numeral_2_eq_2)
  then show ?thesis
    by (auto simp: parse_request_iff rfc1928_request_def SOCKS_VERSION_def RESERVED_def)
qed

text \<open>
  C22. The greeting, the user/password message and the UDP header are likewise accepted exactly when
  a well-formed frame stands at the front of the buffer.
\<close>

theorem parse_frames_grammar:
  "(parse_greeting bs = Inr (v, n, methods, used) \<longleftrightarrow>
      (\<exists>rest. bs = greeting_frame v methods @ rest) \<and> length methods < 256 \<and>
      n = of_nat (length methods) \<and> used = length (greeting_frame v methods)) \<and>
   (parse_userpass bs = Inr (u, used) \<longleftrightarrow>
      (\<exists>rest. bs = userpass_frame u @ rest) \<and> wf_userpass u \<and> used = length (userpass_frame u)) \<and>
   (parse_udp_header bs = Inr (h, used) \<longleftrightarrow>
      (\<exists>rsv rsv2 rest. bs = udp_frame rsv rsv2 h @ rest) \<and>
      wf_addr (udp_addr_type h) (udp_addr h) \<and> used = length (udp_frame 0 0 h))"
  by (simp only: parse_greeting_iff parse_userpass_iff parse_udp_header_iff simp_thms)

text \<open>
  C23. A buffer is rejected exactly when it does not start with a frame of the request layout, and then
  with the code its first four bytes call for: an unknown command before an unknown address type, and
  end of input otherwise. The version octet plays no part: no request is rejected for its version.
\<close>

theorem parse_request_error:
  "parse_request bs = Inl e \<longleftrightarrow>
     e = request_error bs \<and> \<not> (\<exists>rsv r rest. wf_request r \<and> bs = request_frame rsv r @ rest)"
proof
  assume err: "parse_request bs = Inl e"
  then have "e = request_error bs" by (rule parse_request_Inl)
  moreover have "\<not> (\<exists>rsv r rest. wf_request r \<and> bs = request_frame rsv r @ rest)"
    using err by auto
  ultimately show "e = request_error bs \<and> \<not> (\<exists>rsv r rest. wf_request r \<and> bs = request_frame rsv r @ rest)" ..
next
  assume no: "e = request_error bs \<and> \<not> (\<exists>rsv r rest. wf_request r \<and> bs = request_frame rsv r @ rest)"
  show "parse_request bs = Inl e"
  proof (cases "parse_request bs")
    case (Inl e')
    with no parse_request_Inl [OF Inl] show ?thesis by simp
  next
    case (Inr rn)
    obtain r n where "rn = (r, n)" by (cases rn)
    with Inr no show ?thesis by (auto simp: parse_request_iff)
  qed
qed

text \<open>
  Parsing does not depend on how much of the following data has already arrived: a request that
  parses in a buffer parses the same in any extension of it and in the bytes it consumed alone.
\<close>

lemma parse_request_prefix:
  assumes "parse_request bs = Inr (r, n)"
  shows "n \<le> length bs \<and> parse_request (bs @ extra) = Inr (r, n) \<and> parse_request (take n bs) = Inr (r, n)"
  using request_codec.consumed_frame [OF assms] request_codec.ignores_trailing [OF assms] by simp

text \<open>
  A reply is laid out as RFC 1928 section 6 says: version, code, reserved, address type, then the
  bound address and port in network order, which the field parsers read back.
\<close>

lemma reply_layout:
  "\<exists>addr. as_bytes (reply_with_addr status a) =
     [5, code_byte status, 0, addr_type_byte (sock_addr_type a)] @ addr \<and>
     take_addr addr (sock_addr_type a) = Inr (sock_octets a, to_be_bytes 2 (sock_port a)) \<and>
     take_port (to_be_bytes 2 (sock_port a)) = Inr (sock_port a, []) \<and>
     as_bytes (reply_new status) = as_bytes (reply_with_addr status (SocketAddrV4 0 0))"
  using take_addr_frame [OF wf_sock_octets, of a "to_be_bytes 2 (sock_port a)"]
    take_port_bytes [of "sock_port a" "[]"]
  by (auto simp: reply_bytes reply_new_unspecified)

end
