(* ===== verification/Slots.thy ===== *)
theory Slots
  imports Prelude "HOL-Library.Multiset"
begin

text \<open>
  The contract of a counter of held slots, shared by the per-IP connection limiter and the
  statistics' table of active connections: acquiring hands out a slot (or refuses), dropping a
  slot gives it back. In Rust a slot is an owned value whose \<open>Drop\<close> runs exactly once, so a run
  releases only slots that are live; \<open>slots_reach\<close> is that discipline over any acquire and
  release operations, with the live slots as a multiset.
\<close>

inductive slots_reach ::
  "('s \<Rightarrow> 'r \<Rightarrow> bool) \<Rightarrow> ('r \<Rightarrow> 's \<Rightarrow> 'slot option \<times> 's) \<Rightarrow> ('slot \<Rightarrow> 's \<Rightarrow> 's) \<Rightarrow> 's \<Rightarrow> 's \<Rightarrow>
   'slot multiset \<Rightarrow> bool"
  for room acquire release s0 where
  start: "slots_reach room acquire release s0 s0 {#}"
| granted: "slots_reach room acquire release s0 s live \<Longrightarrow> room s r \<Longrightarrow>
    acquire r s = (Some slot, s') \<Longrightarrow> slots_reach room acquire release s0 s' (add_mset slot live)"
| refused: "slots_reach room acquire release s0 s live \<Longrightarrow>
    acquire r s = (None, s') \<Longrightarrow> slots_reach room acquire release s0 s' live"
| dropped: "slots_reach room acquire release s0 s (add_mset slot live) \<Longrightarrow>
    slots_reach room acquire release s0 (release slot s) live"

locale slot_counter =
  fixes room :: "'s \<Rightarrow> 'r \<Rightarrow> bool"
    and acquire :: "'r \<Rightarrow> 's \<Rightarrow> 'slot option \<times> 's"
    and release :: "'slot \<Rightarrow> 's \<Rightarrow> 's"
    and key :: "'slot \<Rightarrow> 'k"
    and held :: "'s \<Rightarrow> 'k \<Rightarrow> nat"
    and inv :: "'s \<Rightarrow> bool"
  assumes acquire_granted: "inv s \<Longrightarrow> room s r \<Longrightarrow> acquire r s = (Some slot, s') \<Longrightarrow>
      inv s' \<and> held s' = (held s)(key slot := Suc (held s (key slot)))"
    and acquire_refused: "inv s \<Longrightarrow> acquire r s = (None, s') \<Longrightarrow>
      inv s' \<and> held s' = held s"
    and release_held: "inv s \<Longrightarrow> 0 < held s (key slot) \<Longrightarrow>
      inv (release slot s) \<and>
      held (release slot s) = (held s)(key slot := held s (key slot) - 1)"
begin

text \<open>In every reachable state a key's count is the number of its live slots.\<close>

lemma reach_held:
  assumes "slots_reach room acquire release s0 s live" "inv s0" "held s0 = (\<lambda>_. 0)"
  shows "inv s \<and> held s = (\<lambda>k. size (filter_mset (\<lambda>slot. key slot = k) live))"
  using assms(1)
proof induction
  case start
  with assms show ?case by simp
next
  case (granted s live r slot s')
  with acquire_granted [of s r slot s'] show ?case by (auto simp: fun_eq_iff)
next
  case (refused s live r s')
  with acquire_refused [of s r s'] show ?case by simp
next
  case (dropped s slot live)
  with release_held [of s slot] show ?case by (auto simp: fun_eq_iff)
qed

lemma reach_balanced:
  assumes "slots_reach room acquire release s0 s {#}" "inv s0" "held s0 = (\<lambda>_. 0)"
  shows "held s = (\<lambda>_. 0)"
  using reach_held [OF assms] by simp

end

end
