(* ===== verification/Limiter.thy ===== *)
theory Limiter
  imports Wire Slots
begin

text \<open>
  The per-source connection cap of \<open>src/lib.rs\<close>: \<open>PerIpLimiter\<close>, its \<open>try_acquire\<close>, and \<open>IpSlot\<close>
  with its \<open>Drop\<close>. Counters are \<open>usize\<close>, modelled at 64 bits so that the unchecked
  \<open>*held -= 1\<close> wraps as it would in a release build. The mutex makes each operation atomic; a
  poisoned lock is recovered, so locking never fails.
\<close>

section \<open>Definitions\<close>

type_synonym usize = "64 word"

record per_ip_limiter =
  limit :: usize
  counts :: "ip_addr \<rightharpoonup> usize"

record ip_slot =
  slot_ip :: ip_addr

definition limiter_new :: "usize \<Rightarrow> per_ip_limiter" where
  "limiter_new lim = \<lparr>limit = max lim 1, counts = Map.empty\<rparr>"

text \<open>\<open>counts.entry(ip).or_insert(0)\<close> stores a zero for a new source even when it then refuses.\<close>

definition try_acquire :: "ip_addr \<Rightarrow> per_ip_limiter \<Rightarrow> ip_slot option \<times> per_ip_limiter" where
  "try_acquire ip l =
     (let held = (case counts l ip of Some c \<Rightarrow> c | None \<Rightarrow> 0);
          l' = l\<lparr>counts := (counts l)(ip \<mapsto> held)\<rparr>
      in if held \<ge> limit l then (None, l')
         else (Some \<lparr>slot_ip = ip\<rparr>, l'\<lparr>counts := (counts l')(ip \<mapsto> held + 1)\<rparr>))"

definition drop_slot :: "ip_slot \<Rightarrow> per_ip_limiter \<Rightarrow> per_ip_limiter" where
  "drop_slot slot l =
     (case counts l (slot_ip slot) of
        Some c \<Rightarrow>
          let held = c - 1 in
          if held = 0 then l\<lparr>counts := (counts l)(slot_ip slot := None)\<rparr>
          else l\<lparr>counts := (counts l)(slot_ip slot \<mapsto> held)\<rparr>
      | None \<Rightarrow> l)"

section \<open>Invariant\<close>

text \<open>The slots a source holds, and the shape of the table: no zero entry, none above the limit.\<close>

definition slots_held :: "per_ip_limiter \<Rightarrow> ip_addr \<Rightarrow> nat" where
  "slots_held l ip = (case counts l ip of Some c \<Rightarrow> unat c | None \<Rightarrow> 0)"

definition limiter_inv :: "per_ip_limiter \<Rightarrow> bool" where
  "limiter_inv l \<longleftrightarrow> 0 < limit l \<and> (\<forall>ip c. counts l ip = Some c \<longrightarrow> 0 < c \<and> c \<le> limit l)"

lemma limiter_new_inv [simp]: "limiter_inv (limiter_new lim)"
  by (auto simp: limiter_inv_def limiter_new_def word_gt_0 max_def)

lemma slots_held_new [simp]: "slots_held (limiter_new lim) = (\<lambda>_. 0)"
  by (simp add: fun_eq_iff slots_held_def limiter_new_def)

lemma slots_held_le_limit: "limiter_inv l \<Longrightarrow> slots_held l ip \<le> unat (limit l)"
  by (auto simp: limiter_inv_def slots_held_def word_le_nat_alt split: option.splits)

lemma slots_held_eq_0: "limiter_inv l \<Longrightarrow> slots_held l ip = 0 \<longleftrightarrow> counts l ip = None"
  by (auto simp: limiter_inv_def slots_held_def word_gt_0 unat_eq_0 split: option.splits)

section \<open>The limiter is a slot counter\<close>

lemma try_acquire_cases:
  assumes "limiter_inv l"
  shows "try_acquire ip l =
    (if slots_held l ip = unat (limit l) then (None, l)
     else (Some \<lparr>slot_ip = ip\<rparr>, l\<lparr>counts := (counts l)(ip \<mapsto> of_nat (Suc (slots_held l ip)))\<rparr>))"
proof (cases "counts l ip")
  case None
  with assms show ?thesis
    by (auto simp: try_acquire_def slots_held_def limiter_inv_def word_gt_0 unat_eq_0)
next
  case (Some c)
  then have "(counts l)(ip \<mapsto> c) = counts l" by (rule map_upd_triv)
  moreover from Some assms have "limit l \<le> c \<longleftrightarrow> unat c = unat (limit l)"
    by (force simp: limiter_inv_def word_le_nat_alt)
  ultimately show ?thesis
    using Some by (simp add: try_acquire_def slots_held_def Let_def add.commute)
qed

lemma try_acquire_granted:
  assumes inv: "limiter_inv l" and ok: "try_acquire ip l = (Some slot, l')"
  shows "slot = \<lparr>slot_ip = ip\<rparr> \<and> limiter_inv l' \<and> limit l' = limit l \<and>
    slots_held l' = (slots_held l)(ip := Suc (slots_held l ip)) \<and>
    slots_held l ip < unat (limit l)"
proof -
  from ok have slot: "slot = \<lparr>slot_ip = ip\<rparr>"
    and l': "l' = l\<lparr>counts := (counts l)(ip \<mapsto> of_nat (Suc (slots_held l ip)))\<rparr>"
    and ne: "slots_held l ip \<noteq> unat (limit l)"
    by (auto simp: try_acquire_cases [OF inv] split: if_splits)
  have less: "slots_held l ip < unat (limit l)"
    using slots_held_le_limit [OF inv, of ip] ne by simp
  then have un: "unat (of_nat (Suc (slots_held l ip)) :: usize) = Suc (slots_held l ip)"
    using unsigned_less [of "limit l", where ?'a = nat] by (simp add: unat_of_nat del: of_nat_Suc)
  have "limiter_inv l'"
    using inv less un
    by (auto simp: limiter_inv_def l' word_less_nat_alt word_le_nat_alt simp del: of_nat_Suc)
  moreover have "slots_held l' = (slots_held l)(ip := Suc (slots_held l ip))"
    using un by (auto simp: fun_eq_iff slots_held_def l' simp del: of_nat_Suc)
  ultimately show ?thesis using slot less by (simp add: l')
qed

lemma try_acquire_refused:
  assumes inv: "limiter_inv l" and no: "try_acquire ip l = (None, l')"
  shows "l' = l \<and> slots_held l ip = unat (limit l)"
  using no by (auto simp: try_acquire_cases [OF inv] split: if_splits)

lemma drop_slot_held:
  fixes slot :: ip_slot
  assumes inv: "limiter_inv l" and held: "0 < slots_held l (slot_ip slot)"
  shows "limiter_inv (drop_slot slot l) \<and> limit (drop_slot slot l) = limit l \<and>
    slots_held (drop_slot slot l) =
      (slots_held l)(slot_ip slot := slots_held l (slot_ip slot) - 1)"
proof -
  from held obtain c where c: "counts l (slot_ip slot) = Some c" "c \<noteq> 0"
    by (cases "counts l (slot_ip slot)") (auto simp: slots_held_def)
  then have un: "unat (c - 1) = unat c - 1" by (intro unat_minus_one)
  have "c - 1 = 0 \<longleftrightarrow> unat c = 1" using un c(2) by (auto simp: unat_eq_0 le_Suc_eq)
  moreover have "c - 1 \<le> limit l"
  proof -
    from inv c(1) have "unat c \<le> unat (limit l)" by (auto simp: limiter_inv_def word_le_nat_alt)
    with un show ?thesis by (simp add: word_le_nat_alt)
  qed
  ultimately show ?thesis
    using inv c un
    by (auto simp: drop_slot_def limiter_inv_def slots_held_def fun_eq_iff Let_def word_gt_0)
qed

interpretation limiter_slots: slot_counter
  "\<lambda>_ _. True" try_acquire drop_slot slot_ip slots_held limiter_inv
proof unfold_locales
  fix l ip slot l'
  assume "limiter_inv l" "try_acquire ip l = (Some slot, l')"
  from try_acquire_granted [OF this]
  show "limiter_inv l' \<and> slots_held l' = (slots_held l)(slot_ip slot := Suc (slots_held l (slot_ip slot)))"
    by auto
next
  fix l ip l'
  assume "limiter_inv l" "try_acquire ip l = (None, l')"
  from try_acquire_refused [OF this] show "limiter_inv l' \<and> slots_held l' = slots_held l"
    using \<open>limiter_inv l\<close> by simp
next
  fix l and slot :: ip_slot
  assume "limiter_inv l" "0 < slots_held l (slot_ip slot)"
  from drop_slot_held [OF this]
  show "limiter_inv (drop_slot slot l) \<and>
    slots_held (drop_slot slot l) = (slots_held l)(slot_ip slot := slots_held l (slot_ip slot) - 1)"
    by simp
qed

abbreviation limiter_reach :: "usize \<Rightarrow> per_ip_limiter \<Rightarrow> ip_slot multiset \<Rightarrow> bool" where
  "limiter_reach lim l live \<equiv> slots_reach (\<lambda>_ _. True) try_acquire drop_slot (limiter_new lim) l live"

lemma limiter_reach_limit: "limiter_reach lim l live \<Longrightarrow> limit l = max lim 1"
proof (induction rule: slots_reach.induct)
  case start
  then show ?case by (simp add: limiter_new_def)
next
  case (granted s live r slot s')
  then show ?case by (auto simp: try_acquire_def Let_def split: if_splits)
next
  case (refused s live r s')
  then show ?case by (auto simp: try_acquire_def Let_def split: if_splits)
next
  case (dropped s slot live)
  then show ?case by (auto simp: drop_slot_def Let_def split: option.splits)
qed

section \<open>Properties\<close>

text \<open>
  C8. In every history of acquisitions and drops, a source holds exactly its live slots and never more
  than the limit; it is refused exactly when it is at the limit; and it has an entry in the table
  only while it holds a slot, so the table does not grow with past clients.
\<close>

theorem limiter_caps:
  assumes "limiter_reach lim l slots"
  shows "slots_held l ip = size (filter_mset (\<lambda>s. slot_ip s = ip) slots) \<and>
    slots_held l ip \<le> unat (max lim 1) \<and>
    (fst (try_acquire ip l) = None \<longleftrightarrow> slots_held l ip = unat (max lim 1)) \<and>
    (counts l ip = None \<longleftrightarrow> (\<forall>s\<in>#slots. slot_ip s \<noteq> ip))"
proof -
  from limiter_slots.reach_held [OF assms]
  have inv: "limiter_inv l" and held: "slots_held l ip = size (filter_mset (\<lambda>s. slot_ip s = ip) slots)"
    by auto
  have lim: "limit l = max lim 1" by (rule limiter_reach_limit [OF assms])
  have "slots_held l ip = 0 \<longleftrightarrow> (\<forall>s\<in>#slots. slot_ip s \<noteq> ip)"
    by (auto simp: held)
  with inv held lim slots_held_le_limit [OF inv, of ip] slots_held_eq_0 [OF inv, of ip]
  show ?thesis by (simp add: try_acquire_cases)
qed

theorem limiter_caps_witness:
  "slots_held (snd (try_acquire (IpV4 7) (limiter_new 1))) (IpV4 7) = 1 \<and>
   fst (try_acquire (IpV4 7) (snd (try_acquire (IpV4 7) (limiter_new 1)))) = None"
proof -
  let ?l = "snd (try_acquire (IpV4 7) (limiter_new 1))"
  have "try_acquire (IpV4 7) (limiter_new 1) = (Some \<lparr>slot_ip = IpV4 7\<rparr>, ?l)"
    by (simp add: try_acquire_def limiter_new_def Let_def)
  then have "limiter_reach 1 ?l {#\<lparr>slot_ip = IpV4 7\<rparr>#}"
    using slots_reach.granted [OF slots_reach.start, of "\<lambda>_ _. True"] by fastforce
  from limiter_caps [OF this, of "IpV4 7"] show ?thesis by simp
qed

end
