(* ===== verification/Credentials.thy ===== *)
theory Credentials
  imports Wire
begin

text \<open>
  Users and the login check of \<open>src/lib.rs\<close> (\<open>User\<close>, \<open>credential_width\<close>, \<open>ct_eq\<close>,
  \<open>SOCKClient::authed\<close>), the bearer-token comparison of \<open>src/stats/http.rs\<close>, and the choice of
  authentication methods and the loading of users in \<open>src/main.rs\<close>. The comparisons are written
  as loops of fixed length that accumulate a difference; the lemmas show that they decide
  equality.
\<close>

section \<open>Definitions\<close>

record user =
  username :: bytes
  password :: bytes

definition user_new :: "bytes \<Rightarrow> bytes \<Rightarrow> user" where
  "user_new u p = \<lparr>username = u, password = p\<rparr>"

definition credential_width :: "user list \<Rightarrow> nat" where
  "credential_width users =
     (case map (\<lambda>u. max (length (username u)) (length (password u))) users of
        [] \<Rightarrow> 0
      | w # ws \<Rightarrow> fold max ws w)"

text \<open>\<open>a.get(i).copied().unwrap_or(0)\<close>.\<close>

definition get_or_0 :: "bytes \<Rightarrow> nat \<Rightarrow> u8" where
  "get_or_0 bs i = (if i < length bs then bs ! i else 0)"

definition ct_eq :: "bytes \<Rightarrow> bytes \<Rightarrow> nat \<Rightarrow> bool" where
  "ct_eq a b width =
     (fold (\<lambda>i diff. diff OR (get_or_0 a i XOR get_or_0 b i)) [0..<width]
        (if length a \<noteq> length b then 1 else 0) = 0)"

text \<open>The token comparison of the statistics service: the width is that of the longer value.\<close>

definition ct_eq_token :: "bytes \<Rightarrow> bytes \<Rightarrow> bool" where
  "ct_eq_token a b =
     (fold (\<lambda>i diff. diff OR (get_or_0 a i XOR get_or_0 b i)) [0..<max (length a) (length b)]
        (if length a \<noteq> length b then 1 else 0) = 0)"

text \<open>Every configured user is inspected: \<open>found |= username_ok & password_ok\<close>.\<close>

definition authed :: "user list \<Rightarrow> nat \<Rightarrow> bytes \<Rightarrow> bytes \<Rightarrow> bool" where
  "authed users width uname pw =
     fold (\<lambda>candidate found.
             found \<or> (ct_eq uname (username candidate) width \<and> ct_eq pw (password candidate) width))
       users False"

text \<open>\<open>select_auth_methods\<close>: only the presence of the users file matters.\<close>

definition select_auth_methods :: "bool \<Rightarrow> 'path option \<Rightarrow> bytes" where
  "select_auth_methods no_auth users_file =
     (let methods = (if no_auth then [auth_byte NoAuth] else []) @
                    (if users_file \<noteq> None then [auth_byte UserPass] else [])
      in if methods = [] then [auth_byte NoAuth] else methods)"

text \<open>
  \<open>load_users\<close>. The file system and the \<open>csv\<close> crate are not part of the repository: \<open>open_file\<close>
  is the result of \<open>File::open\<close>, \<open>metadata_mode\<close> that of \<open>file.metadata()?.mode()\<close> and
  \<open>deserialize\<close> the sequence of results the CSV reader yields.
\<close>

datatype 'e load_error = LoadIo error_kind | LoadCsv 'e

fun collect_users :: "user list \<Rightarrow> ('e + user) list \<Rightarrow> 'e load_error + user list" where
  "collect_users users [] = Inr users"
| "collect_users users (Inl e # results) = Inl (LoadCsv e)"
| "collect_users users (Inr record # results) = collect_users (users @ [record]) results"

definition load_users ::
  "error_kind + 'f \<Rightarrow> ('f \<Rightarrow> error_kind + u32) \<Rightarrow> ('f \<Rightarrow> ('e + user) list) \<Rightarrow> bool \<Rightarrow>
   'e load_error + user list" where
  "load_users open_file metadata_mode deserialize allow_insecure =
     bindE (map_sum LoadIo id open_file) (\<lambda>file.
     bindE (map_sum LoadIo id (metadata_mode file)) (\<lambda>mode.
       if mode AND 63 > 0 \<and> \<not> allow_insecure then Inl (LoadIo Ek_PermissionDenied)
       else
         bindE (collect_users [] (deserialize file)) (\<lambda>users.
           if users = [] then Inl (LoadIo Ek_InvalidData) else Inr users)))"

section \<open>Constant-time comparison decides equality\<close>

lemma fold_or_eq_0:
  "fold (\<lambda>i d. d OR f i) xs d0 = (0 :: 'a::len word) \<longleftrightarrow> d0 = 0 \<and> (\<forall>x\<in>set xs. f x = 0)"
proof (induction xs arbitrary: d0)
  case (Cons x xs)
  have "d0 OR f x = 0 \<longleftrightarrow> d0 = 0 \<and> f x = 0"
    by (auto simp: bit_eq_iff bit_simps)
  with Cons show ?case by auto
qed simp

lemma xor_eq_0_word: "(a XOR b = (0 :: 'a::len word)) \<longleftrightarrow> a = b"
  by (auto simp: bit_eq_iff bit_simps)

lemma ct_eq_iff: "ct_eq a b w \<longleftrightarrow> length a = length b \<and> take w a = take w b"
proof (cases "length a = length b")
  case True
  then have "(\<forall>i\<in>{0..<w}. get_or_0 a i = get_or_0 b i) \<longleftrightarrow> (\<forall>i < min w (length b). a ! i = b ! i)"
    by (auto simp: get_or_0_def)
  also have "\<dots> \<longleftrightarrow> take w a = take w b"
    using True by (simp add: list_eq_iff_nth_eq [of "take w a"] min.commute)
  finally show ?thesis
    using True by (simp add: ct_eq_def fold_or_eq_0 xor_eq_0_word)
qed (simp add: ct_eq_def fold_or_eq_0)

lemma ct_eq_equality: "length b \<le> w \<Longrightarrow> ct_eq a b w \<longleftrightarrow> a = b"
  by (metis ct_eq_iff take_all)

lemma ct_eq_token_def_ct_eq: "ct_eq_token a b = ct_eq a b (max (length a) (length b))"
  by (simp add: ct_eq_token_def ct_eq_def)

lemma ct_eq_token_iff: "ct_eq_token a b \<longleftrightarrow> a = b"
  by (simp add: ct_eq_token_def_ct_eq ct_eq_equality)

lemma fold_max_ge: "w \<le> fold max ws (w :: nat)" "x \<in> set ws \<Longrightarrow> x \<le> fold max ws w"
  by (induction ws arbitrary: w) (auto intro: order_trans [OF max.cobounded1]
      order_trans [OF max.cobounded2])

lemma credential_width_bound:
  assumes "u \<in> set users"
  shows "length (username u) \<le> credential_width users \<and> length (password u) \<le> credential_width users"
proof -
  define f where "f = (\<lambda>u :: user. max (length (username u)) (length (password u)))"
  from assms obtain v vs where users: "users = v # vs" by (cases users) auto
  with assms have "f u \<le> fold max (map f vs) (f v)"
    using fold_max_ge [of "f v" "map f vs"] fold_max_ge(2) [of "f u" "map f vs" "f v"] by auto
  then show ?thesis by (simp add: credential_width_def users flip: f_def) (simp add: f_def)
qed

lemma authed_fold: "authed users w uname pw \<longleftrightarrow>
    (\<exists>c\<in>set users. ct_eq uname (username c) w \<and> ct_eq pw (password c) w)"
proof -
  have "fold (\<lambda>c found. found \<or> P c) cs b \<longleftrightarrow> b \<or> (\<exists>c\<in>set cs. P c)"
    for P b and cs :: "user list"
    by (induction cs arbitrary: b) auto
  then show ?thesis by (simp add: authed_def)
qed

section \<open>The contract of a login check\<close>

text \<open>
  What the authentication step relies on: the check accepts exactly the configured accounts,
  whenever the comparison width covers them.
\<close>

locale login_check =
  fixes check :: "'db \<Rightarrow> 'w::order \<Rightarrow> bytes \<Rightarrow> bytes \<Rightarrow> bool"
    and width :: "'db \<Rightarrow> 'w"
    and accounts :: "'db \<Rightarrow> (bytes \<times> bytes) set"
  assumes check_accounts: "width db \<le> w \<Longrightarrow> check db w u p \<longleftrightarrow> (u, p) \<in> accounts db"
begin

lemma width_irrelevant: "width db \<le> w \<Longrightarrow> check db w u p = check db (width db) u p"
  by (simp add: check_accounts)

lemma no_accounts_no_login: "accounts db = {} \<Longrightarrow> \<not> check db (width db) u p"
  by (simp add: check_accounts)

end

definition user_accounts :: "user list \<Rightarrow> (bytes \<times> bytes) set" where
  "user_accounts users = (\<lambda>u. (username u, password u)) ` set users"

interpretation login: login_check authed credential_width user_accounts
proof unfold_locales
  fix users w u p
  assume w: "credential_width users \<le> w"
  have "ct_eq u (username c) w \<and> ct_eq p (password c) w \<longleftrightarrow> (username c, password c) = (u, p)"
    if "c \<in> set users" for c
    using credential_width_bound [OF that] w by (auto simp: ct_eq_equality)
  then show "authed users w u p \<longleftrightarrow> (u, p) \<in> user_accounts users"
    by (force simp: authed_fold user_accounts_def)
qed

section \<open>Loading users\<close>

lemma collect_users_Inr:
  "collect_users acc results = Inr users \<longleftrightarrow> (\<exists>us. results = map Inr us \<and> users = acc @ us)"
proof (induction acc results rule: collect_users.induct)
  case (3 acc r results)
  have "(\<exists>us. Inr r # results = map Inr us \<and> users = acc @ us) \<longleftrightarrow>
      (\<exists>us. results = map Inr us \<and> users = (acc @ [r]) @ us)"
    by (force simp: Cons_eq_map_conv)
  with 3 show ?case by simp
qed auto

lemma load_users_Inr:
  "load_users open_file mode des insecure = Inr users \<longleftrightarrow>
     (\<exists>file m. open_file = Inr file \<and> mode file = Inr m \<and> (m AND 63 = 0 \<or> insecure) \<and>
        des file = map Inr users \<and> users \<noteq> [])"
  by (auto simp: load_users_def result_iffs collect_users_Inr word_gt_0)

lemma select_auth_methods_cases:
  "auth_byte NoAuth \<in> set (select_auth_methods no_auth f) \<longleftrightarrow> no_auth \<or> f = None"
  "auth_byte UserPass \<in> set (select_auth_methods no_auth f) \<longleftrightarrow> f \<noteq> None"
  by (auto simp: select_auth_methods_def)

section \<open>Properties\<close>

text \<open>
  C9. The login check accepts exactly the configured accounts: no prefix, padding or mixing of the
  name of one user with the password of another gets in.
\<close>

theorem authed_exactly_accounts:
  assumes "credential_width users \<le> width"
  shows "authed users width uname pw \<longleftrightarrow> (\<exists>u\<in>set users. username u = uname \<and> password u = pw)"
  using login.check_accounts [OF assms, of uname pw] by (auto simp: user_accounts_def)

theorem authed_exactly_accounts_witness:
  "authed [user_new (ascii ''a'') (ascii ''b''), user_new (ascii ''c'') (ascii ''d'')] 1 (ascii ''a'') (ascii ''b'') \<and>
   \<not> authed [user_new (ascii ''a'') (ascii ''b''), user_new (ascii ''c'') (ascii ''d'')] 1 (ascii ''a'') (ascii ''d'')"
  by (subst (1 2) authed_exactly_accounts)
    (simp_all add: credential_width_def user_new_def ascii_def)

text \<open>
  The fixed-length comparisons decide equality: \<open>ct_eq\<close> whenever its width covers the stored
  value, the token comparison of the statistics service always.
\<close>

lemma constant_time_equality:
  "(length b \<le> width \<longrightarrow> (ct_eq a b width \<longleftrightarrow> a = b)) \<and> (ct_eq_token a b \<longleftrightarrow> a = b)"
  by (simp add: ct_eq_equality ct_eq_token_iff)

end
