(* ===== verification/Async_IO.thy ===== *)
theory Async_IO
  imports Wire
begin

text \<open>
  The asynchronous operations the connection code awaits. A computation over a state \<open>'s\<close> ends in
  one of four ways: it returns, it fails, it stays pending for ever (the peer went silent or does
  not take more bytes; only a surrounding timeout ends it), or it panics.

  A client stream (any \<open>AsyncRead + AsyncWrite\<close>) is described by what its peer does: \<open>rx\<close> are
  the bytes it delivers, \<open>rx_end\<close> what happens after them, \<open>tx_script\<close> the outcome of each
  write, flush or shutdown the server makes (no more entries: every later one succeeds), and
  \<open>sent\<close> records what the server put on the wire, in order. How the peer's bytes are cut into
  segments does not matter to \<open>read_exact\<close>.
\<close>

section \<open>Definitions\<close>

datatype ('e, 'a) poll = Done 'a | Raise 'e | Pending | Panicked

type_synonym ('s, 'e, 'a) async = "'s \<Rightarrow> ('e, 'a) poll \<times> 's"

definition ret :: "'a \<Rightarrow> ('s, 'e, 'a) async" where
  "ret x s = (Done x, s)"

definition throw :: "'e \<Rightarrow> ('s, 'e, 'a) async" where
  "throw e s = (Raise e, s)"

text \<open>\<open>m.await?\<close> followed by the rest of the block.\<close>

definition bindA :: "('s, 'e, 'a) async \<Rightarrow> ('a \<Rightarrow> ('s, 'e, 'b) async) \<Rightarrow> ('s, 'e, 'b) async" where
  "bindA m f s =
     (case m s of
        (Done x, s') \<Rightarrow> f x s'
      | (Raise e, s') \<Rightarrow> (Raise e, s')
      | (Pending, s') \<Rightarrow> (Pending, s')
      | (Panicked, s') \<Rightarrow> (Panicked, s'))"

text \<open>The \<open>From\<close> conversion that \<open>?\<close> applies to the error.\<close>

definition map_error :: "('e \<Rightarrow> 'f) \<Rightarrow> ('s, 'e, 'a) async \<Rightarrow> ('s, 'f, 'a) async" where
  "map_error h m s =
     (case m s of
        (Done x, s') \<Rightarrow> (Done x, s')
      | (Raise e, s') \<Rightarrow> (Raise (h e), s')
      | (Pending, s') \<Rightarrow> (Pending, s')
      | (Panicked, s') \<Rightarrow> (Panicked, s'))"

definition modify :: "('s \<Rightarrow> 's) \<Rightarrow> ('s, 'e, unit) async" where
  "modify f s = (Done (), f s)"

definition get_state :: "('s \<Rightarrow> 'a) \<Rightarrow> ('s, 'e, 'a) async" where
  "get_state f s = (Done (f s), s)"

datatype rx_end = RxEof | RxErr error_kind | RxStall

text \<open>The outcome of one write: all of it, or only the first \<open>n\<close> bytes and then an error or silence.\<close>

datatype tx_result = TxOk | TxErr nat error_kind | TxStall nat

datatype tx_event = Sent bytes | Shut

record stream =
  rx :: bytes
  rx_end :: rx_end
  tx_script :: "tx_result list"
  sent :: "tx_event list"

definition read_exact :: "nat \<Rightarrow> (stream, error_kind, bytes) async" where
  "read_exact n s =
     (if n \<le> length (rx s) then (Done (take n (rx s)), s\<lparr>rx := drop n (rx s)\<rparr>)
      else
        (case rx_end s of
           RxEof \<Rightarrow> Raise Ek_UnexpectedEof
         | RxErr e \<Rightarrow> Raise e
         | RxStall \<Rightarrow> Pending, s\<lparr>rx := []\<rparr>))"

definition next_tx :: "stream \<Rightarrow> tx_result \<times> stream" where
  "next_tx s =
     (case tx_script s of [] \<Rightarrow> (TxOk, s) | t # ts \<Rightarrow> (t, s\<lparr>tx_script := ts\<rparr>))"

definition write_all :: "bytes \<Rightarrow> (stream, error_kind, unit) async" where
  "write_all bs s =
     (case next_tx s of
        (TxOk, s') \<Rightarrow> (Done (), s'\<lparr>sent := sent s' @ [Sent bs]\<rparr>)
      | (TxErr n e, s') \<Rightarrow> (Raise e, s'\<lparr>sent := sent s' @ [Sent (take n bs)]\<rparr>)
      | (TxStall n, s') \<Rightarrow> (Pending, s'\<lparr>sent := sent s' @ [Sent (take n bs)]\<rparr>))"

definition shutdown_stream :: "(stream, error_kind, unit) async" where
  "shutdown_stream s =
     (case next_tx s of
        (TxOk, s') \<Rightarrow> (Done (), s'\<lparr>sent := sent s' @ [Shut]\<rparr>)
      | (TxErr n e, s') \<Rightarrow> (Raise e, s')
      | (TxStall n, s') \<Rightarrow> (Pending, s'))"

definition flush_stream :: "(stream, error_kind, unit) async" where
  "flush_stream s =
     (case next_tx s of
        (TxOk, s') \<Rightarrow> (Done (), s')
      | (TxErr n e, s') \<Rightarrow> (Raise e, s')
      | (TxStall n, s') \<Rightarrow> (Pending, s'))"

text \<open>
  One \<open>read\<close> into a buffer of \<open>cap\<close> bytes, when the transport hands over \<open>n\<close> of those it has; no
  bytes is the end of the stream.
\<close>

definition read_some :: "nat \<Rightarrow> nat \<Rightarrow> (stream, error_kind, bytes) async" where
  "read_some cap n s =
     (if rx s \<noteq> [] then
        let k = min cap (max 1 n) in (Done (take k (rx s)), s\<lparr>rx := drop k (rx s)\<rparr>)
      else
        (case rx_end s of
           RxEof \<Rightarrow> Done []
         | RxErr e \<Rightarrow> Raise e
         | RxStall \<Rightarrow> Pending, s))"

text \<open>The bytes among the events.\<close>

fun wire_of :: "tx_event list \<Rightarrow> bytes" where
  "wire_of [] = []"
| "wire_of (Sent bs # es) = bs @ wire_of es"
| "wire_of (Shut # es) = wire_of es"

text \<open>\<open>SocksReply::send\<close>.\<close>

definition reply_send :: "socks_reply \<Rightarrow> (stream, error_kind, unit) async" where
  "reply_send r = bindA (write_all (buf r)) (\<lambda>_. ret ())"

section \<open>Sequencing laws\<close>

lemma bindA_simps [simp]:
  "m s = (Done x, s') \<Longrightarrow> bindA m f s = f x s'"
  "m s = (Raise e, s') \<Longrightarrow> bindA m f s = (Raise e, s')"
  "m s = (Pending, s') \<Longrightarrow> bindA m f s = (Pending, s')"
  "m s = (Panicked, s') \<Longrightarrow> bindA m f s = (Panicked, s')"
  by (simp_all add: bindA_def)

lemma bindA_ret [simp]: "bindA (ret x) f = f x" "bindA m ret = m"
  by (auto simp: fun_eq_iff bindA_def ret_def split: prod.splits poll.splits)

lemma bindA_throw [simp]: "bindA (throw e) f = throw e"
  by (auto simp: fun_eq_iff bindA_def throw_def)

lemma bindA_modify [simp]: "bindA (modify g) f s = f () (g s)"
  by (simp add: bindA_def modify_def)

lemma bindA_get_state [simp]: "bindA (get_state g) f s = f (g s) s"
  by (simp add: bindA_def get_state_def)

lemma bindA_assoc: "bindA (bindA m f) g = bindA m (\<lambda>x. bindA (f x) g)"
  by (auto simp: fun_eq_iff bindA_def split: prod.splits poll.splits)

lemma bindA_Done_iff:
  "bindA m f s = (Done y, s2) \<longleftrightarrow> (\<exists>x s1. m s = (Done x, s1) \<and> f x s1 = (Done y, s2))"
  by (auto simp: bindA_def split: prod.splits poll.splits)

lemma map_error_Done_iff: "map_error h m s = (Done x, s') \<longleftrightarrow> m s = (Done x, s')"
  by (auto simp: map_error_def split: prod.splits poll.splits)

lemma ret_Done_iff: "ret x s = (Done y, s') \<longleftrightarrow> y = x \<and> s' = s"
  by (auto simp: ret_def)

lemma throw_Done_iff: "\<not> throw e s = (Done y, s')"
  by (simp add: throw_def)

lemma throw_cases_Done_iff:
  "case_sum throw f x s = (Done r, s') \<longleftrightarrow> (\<exists>y. x = Inr y \<and> f y s = (Done r, s'))"
  "case_option (throw e) g z s = (Done r, s') \<longleftrightarrow> (\<exists>y. z = Some y \<and> g y s = (Done r, s'))"
  "(if P then throw e else m) s = (Done r, s') \<longleftrightarrow> \<not> P \<and> m s = (Done r, s')"
  by (auto simp: throw_def split: sum.splits option.splits)

lemmas done_iffs = bindA_Done_iff map_error_Done_iff ret_Done_iff throw_Done_iff throw_cases_Done_iff

lemma read_exact_Done_iff:
  "read_exact n s = (Done bs, s') \<longleftrightarrow>
     length bs = n \<and> rx s = bs @ rx s' \<and> s' = s\<lparr>rx := rx s'\<rparr>"
  by (auto simp: read_exact_def split: if_splits rx_end.splits)

lemma reply_send_eq: "reply_send r = write_all (buf r)"
  by (simp add: reply_send_def flip: ret_def)

section \<open>What one operation does to a stream\<close>

lemma next_tx_frame:
  "next_tx s = (t, s') \<Longrightarrow> rx s' = rx s \<and> rx_end s' = rx_end s \<and> sent s' = sent s"
  by (auto simp: next_tx_def split: list.splits)

lemma write_all_frame:
  assumes "write_all bs s = (p, s')"
  shows "rx s' = rx s \<and> rx_end s' = rx_end s \<and> p \<noteq> Panicked \<and>
    (\<exists>n. sent s' = sent s @ [Sent (take n bs)]) \<and> (p = Done () \<longrightarrow> sent s' = sent s @ [Sent bs])"
proof -
  obtain t s1 where n: "next_tx s = (t, s1)" by (cases "next_tx s")
  have "\<exists>n. bs = take n bs" by (metis take_all order_refl)
  with assms n next_tx_frame [OF n] show ?thesis
    by (cases t) (auto simp: write_all_def)
qed

lemma shutdown_frame:
  assumes "shutdown_stream s = (p, s')"
  shows "rx s' = rx s \<and> rx_end s' = rx_end s \<and> p \<noteq> Panicked \<and>
    (sent s' = sent s \<or> sent s' = sent s @ [Shut]) \<and> (p = Done () \<longrightarrow> sent s' = sent s @ [Shut])"
proof -
  obtain t s1 where n: "next_tx s = (t, s1)" by (cases "next_tx s")
  with assms next_tx_frame [OF n] show ?thesis by (cases t) (auto simp: shutdown_stream_def)
qed

lemma flush_frame:
  assumes "flush_stream s = (p, s')"
  shows "rx s' = rx s \<and> rx_end s' = rx_end s \<and> p \<noteq> Panicked \<and> sent s' = sent s"
proof -
  obtain t s1 where n: "next_tx s = (t, s1)" by (cases "next_tx s")
  with assms next_tx_frame [OF n] show ?thesis by (cases t) (auto simp: flush_stream_def)
qed

lemma read_some_frame:
  assumes "read_some cap n s = (p, s')"
  shows "rx_end s' = rx_end s \<and> sent s' = sent s \<and> tx_script s' = tx_script s \<and> p \<noteq> Panicked"
  using assms by (cases "rx_end s") (auto simp: read_some_def Let_def split: if_splits)

lemma read_some_Done:
  assumes "read_some cap n s = (Done bs, s')" "0 < cap"
  shows "rx s = bs @ rx s' \<and> (bs = [] \<longleftrightarrow> rx s = []) \<and> (bs = [] \<longrightarrow> rx_end s = RxEof)"
  using assms by (cases "rx_end s") (auto simp: read_some_def Let_def split: if_splits)

lemma wire_of_append [simp]: "wire_of (xs @ ys) = wire_of xs @ wire_of ys"
  by (induction xs rule: wire_of.induct) auto

lemma wire_of_Sent [simp]: "wire_of (map Sent cs) = concat cs"
  by (induction cs) auto

text \<open>The first \<open>n\<close> writes of a stream succeed.\<close>

definition tx_ok :: "nat \<Rightarrow> stream \<Rightarrow> bool" where
  "tx_ok n s \<longleftrightarrow> (\<forall>t\<in>set (take n (tx_script s)). t = TxOk)"

lemma next_tx_ok:
  "next_tx s = (TxOk, s') \<longleftrightarrow> tx_ok 1 s \<and> s' = s\<lparr>tx_script := drop 1 (tx_script s)\<rparr>"
  by (cases "tx_script s") (auto simp: next_tx_def tx_ok_def)

lemma write_all_Done_iff:
  "write_all bs s = (Done u, s') \<longleftrightarrow>
     tx_ok 1 s \<and> s' = s\<lparr>tx_script := drop 1 (tx_script s), sent := sent s @ [Sent bs]\<rparr>"
  by (cases "tx_script s"; cases "hd (tx_script s)") (auto simp: write_all_def next_tx_def tx_ok_def)

lemma tx_ok_add: "tx_ok (m + n) s \<longleftrightarrow> tx_ok m s \<and> tx_ok n (s\<lparr>tx_script := drop m (tx_script s)\<rparr>)"
  by (auto simp: tx_ok_def take_add)

lemma tx_ok_fields [simp]:
  "tx_ok n (s\<lparr>rx := r\<rparr>) = tx_ok n s" "tx_ok n (s\<lparr>sent := e\<rparr>) = tx_ok n s" "tx_ok 0 s"
  by (simp_all add: tx_ok_def)

section \<open>Computations that do not panic\<close>

definition calm :: "('s, 'e, 'a) async \<Rightarrow> bool" where
  "calm m \<longleftrightarrow> (\<forall>s. fst (m s) \<noteq> Panicked)"

lemma calmD: "calm m \<Longrightarrow> m s \<noteq> (Panicked, s')"
  by (metis calm_def fst_conv)

lemma calm_bindA [calm_intros]: "calm m \<Longrightarrow> (\<And>x. calm (f x)) \<Longrightarrow> calm (bindA m f)"
  by (auto simp: calm_def bindA_def split: prod.splits poll.splits) (metis fst_conv)

lemma calm_map_error [calm_intros]: "calm m \<Longrightarrow> calm (map_error h m)"
  by (auto simp: calm_def map_error_def split: prod.splits poll.splits) (metis fst_conv)

lemma calm_ops [calm_intros]:
  "calm (ret x)" "calm (throw e)" "calm (read_exact n)" "calm (write_all bs)" "calm shutdown_stream"
  "calm flush_stream" "calm (read_some k n)"
  by (auto simp: calm_def ret_def throw_def read_exact_def write_all_def shutdown_stream_def flush_stream_def
      read_some_def Let_def split: prod.splits tx_result.splits rx_end.splits)

lemma calm_reply_send [calm_intros]: "calm (reply_send r)"
  by (simp add: reply_send_eq calm_intros)

end
