(* ===== verification/Text_Render.thy ===== *)
theory Text_Render
  imports Wire
begin

text \<open>
  Text derived from client-supplied bytes: \<open>sanitize_domain\<close> and \<open>pretty_print_addr\<close> of
  \<open>src/lib.rs\<close>, which render addresses for the log, and the host name with port that
  \<open>addr_to_socket\<close> resolves, including the standard library's \<open>String::from_utf8_lossy\<close>. Strings
  are their UTF-8 bytes.
\<close>

section \<open>Definitions\<close>

subsection \<open>Lossy UTF-8 decoding\<close>

definition utf8_char_width :: "u8 \<Rightarrow> nat" where
  "utf8_char_width b =
     (if b < 0x80 then 1 else if 0xC2 \<le> b \<and> b \<le> 0xDF then 2
      else if 0xE0 \<le> b \<and> b \<le> 0xEF then 3 else if 0xF0 \<le> b \<and> b \<le> 0xF4 then 4 else 0)"

definition is_cont :: "u8 \<Rightarrow> bool" where
  "is_cont b \<longleftrightarrow> 0x80 \<le> b \<and> b \<le> 0xBF"

definition second_ok :: "u8 \<Rightarrow> u8 \<Rightarrow> bool" where
  "second_ok b c \<longleftrightarrow>
     (if b = 0xE0 then 0xA0 \<le> c \<and> c \<le> 0xBF
      else if b = 0xED then 0x80 \<le> c \<and> c \<le> 0x9F
      else if b = 0xF0 then 0x90 \<le> c \<and> c \<le> 0xBF
      else if b = 0xF4 then 0x80 \<le> c \<and> c \<le> 0x8F
      else is_cont c)"

definition safe_get :: "bytes \<Rightarrow> nat \<Rightarrow> u8" where
  "safe_get bs i = (if i < length bs then bs ! i else 0)"

text \<open>
  One step of the decoder at a first byte \<open>b\<close> with \<open>bs\<close> after it: whether a complete character
  stands there, and how many bytes the character or the ill-formed sequence takes.
\<close>

definition utf8_next :: "u8 \<Rightarrow> bytes \<Rightarrow> bool \<times> nat" where
  "utf8_next b bs =
     (let w = utf8_char_width b in
      if w = 1 then (True, 1)
      else if w = 2 then (if is_cont (safe_get bs 0) then (True, 2) else (False, 1))
      else if w = 3 then
        (if second_ok b (safe_get bs 0)
         then (if is_cont (safe_get bs 1) then (True, 3) else (False, 2)) else (False, 1))
      else if w = 4 then
        (if second_ok b (safe_get bs 0)
         then (if is_cont (safe_get bs 1)
               then (if is_cont (safe_get bs 2) then (True, 4) else (False, 3)) else (False, 2))
         else (False, 1))
      else (False, 1))"

text \<open>Ill-formed sequences become U+FFFD, whose UTF-8 form is \<open>EF BF BD\<close>.\<close>

function utf8_lossy :: "bytes \<Rightarrow> bytes" where
  "utf8_lossy [] = []"
| "utf8_lossy (b # bs) =
     (case utf8_next b bs of (ok, n) \<Rightarrow>
        (if ok then take n (b # bs) else [0xEF, 0xBF, 0xBD]) @ utf8_lossy (drop (n - 1) bs))"
  by pat_completeness auto
termination
  by (relation "measure length") auto

function valid_utf8 :: "bytes \<Rightarrow> bool" where
  "valid_utf8 [] = True"
| "valid_utf8 (b # bs) =
     (case utf8_next b bs of (ok, n) \<Rightarrow> ok \<and> valid_utf8 (drop (n - 1) bs))"
  by pat_completeness auto
termination
  by (relation "measure length") auto

text \<open>The string \<open>addr_to_socket\<close> resolves and caches: the name, a colon and the port.\<close>

definition domain_key :: "bytes \<Rightarrow> u16 \<Rightarrow> bytes" where
  "domain_key addr port = utf8_lossy addr @ ascii '':'' @ decimal (unat port)"

subsection \<open>Rendering for the log\<close>

definition sanitize_byte :: "u8 \<Rightarrow> bytes" where
  "sanitize_byte b =
     (if 0x20 \<le> b \<and> b \<le> 0x7e then [b] else [0x5c, 0x78] @ hex02 b)"

definition sanitize_domain :: "bytes \<Rightarrow> bytes" where
  "sanitize_domain addr = concat (map sanitize_byte addr)"

fun join :: "u8 \<Rightarrow> bytes list \<Rightarrow> bytes" where
  "join sep [] = []"
| "join sep [x] = x"
| "join sep (x # y # xs) = x @ [sep] @ join sep (y # xs)"

text \<open>The eight 16-bit segments of an IPv6 address.\<close>

definition segments :: "128 word \<Rightarrow> u16 list" where
  "segments ip = map (\<lambda>i. ucast (drop_bit (16 * (7 - i)) ip)) [0..<8]"

definition pretty_print_addr :: "addr_type \<Rightarrow> bytes \<Rightarrow> bytes" where
  "pretty_print_addr t addr =
     (case t of
        DomainName \<Rightarrow> sanitize_domain addr
      | V4 \<Rightarrow>
          (case addr of
             a # b # c # d # _ \<Rightarrow> join 0x2e (map (\<lambda>x. decimal (unat x)) [a, b, c, d])
           | _ \<Rightarrow> ascii ''<invalid ipv4: '' @ decimal (length addr) @ ascii '' bytes>'')
      | V6 \<Rightarrow>
          (if length addr < 16
           then ascii ''<invalid ipv6: '' @ decimal (length addr) @ ascii '' bytes>''
           else join 0x3a (map (\<lambda>s. hex (unat s)) (segments (from_be_bytes (take 16 addr))))))"

subsection \<open>Socket addresses as text\<close>

text \<open>
  The standard library's \<open>Display\<close> of socket addresses: dotted decimal for IPv4; for IPv6 the
  first longest run of two or more zero segments is written \<open>::\<close>, and IPv4-mapped addresses keep
  the dotted form.
\<close>

definition display_ipv4 :: "u32 \<Rightarrow> bytes" where
  "display_ipv4 ip = join 0x2e (map (\<lambda>x. decimal (unat x)) (to_be_bytes 4 ip))"

text \<open>Start and length of the run being scanned and of the longest run so far.\<close>

fun zero_run :: "nat \<Rightarrow> nat \<times> nat \<Rightarrow> nat \<times> nat \<Rightarrow> u16 list \<Rightarrow> nat \<times> nat" where
  "zero_run i (cs, cl) (ls, ll) [] = (ls, ll)"
| "zero_run i (cs, cl) (ls, ll) (x # xs) =
     (if x = 0 then
        let cur = (if cl = 0 then i else cs, cl + 1) in
        zero_run (Suc i) cur (if snd cur > ll then cur else (ls, ll)) xs
      else zero_run (Suc i) (0, 0) (ls, ll) xs)"

definition display_ipv6 :: "128 word \<Rightarrow> bytes" where
  "display_ipv6 ip =
     (let segs = segments ip; fmt = (\<lambda>xs. join 0x3a (map (\<lambda>s. hex (unat s)) xs)) in
      if take 6 segs = [0, 0, 0, 0, 0, 0xffff]
      then ascii ''::ffff:'' @ display_ipv4 (ucast ip)
      else
        (case zero_run 0 (0, 0) (0, 0) segs of (start, len) \<Rightarrow>
           if len > 1 then fmt (take start segs) @ ascii ''::'' @ fmt (drop (start + len) segs)
           else fmt segs))"

fun display_socket_addr :: "socket_addr \<Rightarrow> bytes" where
  "display_socket_addr (SocketAddrV4 ip p) = display_ipv4 ip @ ascii '':'' @ decimal (unat p)"
| "display_socket_addr (SocketAddrV6 ip p flow scope) =
     ascii ''['' @ display_ipv6 ip @
     (if scope = 0 then [] else ascii ''%'' @ decimal (unat scope)) @
     ascii '']:'' @ decimal (unat p)"

section \<open>Lossy decoding yields UTF-8 and keeps UTF-8\<close>

lemma cont_in_range: "is_cont (safe_get bs i) \<Longrightarrow> i < length bs"
  by (auto simp: is_cont_def safe_get_def split: if_splits)

lemma second_in_range: "second_ok b (safe_get bs i) \<Longrightarrow> i < length bs"
  by (auto simp: second_ok_def is_cont_def safe_get_def split: if_splits)

lemma safe_get_append: "i < length bs \<Longrightarrow> safe_get (bs @ cs) i = safe_get bs i"
  by (simp add: safe_get_def nth_append)

lemma safe_get_take: "i < n \<Longrightarrow> safe_get (take n bs) i = safe_get bs i"
  by (simp add: safe_get_def)

text \<open>A complete character is decoded from its own bytes alone.\<close>

lemma utf8_next_local:
  assumes "utf8_next b bs = (True, n)"
  shows "1 \<le> n \<and> n - 1 \<le> length bs \<and> utf8_next b (take (n - 1) bs @ cs) = (True, n)"
proof -
  have "n - 1 \<le> length bs" "1 \<le> n"
    using assms by (auto simp: utf8_next_def Let_def Suc_le_eq split: if_splits
        dest!: cont_in_range second_in_range)
  moreover have "safe_get (take (n - 1) bs @ cs) i = safe_get bs i" if "i < n - 1" for i
    using that \<open>n - 1 \<le> length bs\<close> by (simp add: safe_get_append safe_get_take)
  ultimately show ?thesis
    using assms by (auto simp: utf8_next_def Let_def split: if_splits)
qed

lemma utf8_lossy_valid_id: "valid_utf8 bs \<Longrightarrow> utf8_lossy bs = bs"
proof (induction bs rule: valid_utf8.induct)
  case (2 b bs)
  obtain n where n: "utf8_next b bs = (True, n)" and "valid_utf8 (drop (n - 1) bs)"
    using "2.prems" by (auto split: prod.splits)
  then have "utf8_lossy (drop (n - 1) bs) = drop (n - 1) bs"
    using "2.IH" [OF n [symmetric]] by simp
  moreover from utf8_next_local [OF n, of "[]"] have "take n (b # bs) = b # take (n - 1) bs"
    by (simp add: take_Cons')
  ultimately show ?case using n by simp
qed simp

lemma valid_utf8_lossy: "valid_utf8 (utf8_lossy bs)"
proof (induction bs rule: utf8_lossy.induct)
  case (2 b bs)
  obtain ok n where n: "utf8_next b bs = (ok, n)" by (cases "utf8_next b bs")
  have IH: "valid_utf8 (utf8_lossy (drop (n - 1) bs))"
    using "2.IH" [OF n [symmetric]] by simp
  show ?case
  proof (cases ok)
    case True
    with n have "utf8_next b bs = (True, n)" by simp
    from utf8_next_local [OF this, of "utf8_lossy (drop (n - 1) bs)"]
    show ?thesis using IH n True by (simp add: take_Cons')
  next
    case False
    have "utf8_next 0xEF ([0xBF, 0xBD] @ cs) = (True, 3)" for cs
      by (simp add: utf8_next_def utf8_char_width_def second_ok_def is_cont_def safe_get_def)
    with IH n False show ?thesis by simp
  qed
qed simp

lemma valid_utf8_ascii: "(\<forall>b\<in>set bs. b < 0x80) \<Longrightarrow> valid_utf8 bs"
proof (induction bs)
  case (Cons b bs)
  then have "utf8_next b bs = (True, 1)" by (simp add: utf8_next_def utf8_char_width_def)
  with Cons show ?case by simp
qed simp

section \<open>Digits\<close>

lemma digit_u8: "d < 10 \<Longrightarrow> unat (48 + of_nat d :: u8) = 48 + d"
  by (simp add: unat_word_ariths unat_of_nat)

lemma decimal_digits: "b \<in> set (decimal n) \<Longrightarrow> 48 \<le> b \<and> b \<le> 57"
proof (induction n rule: decimal.induct)
  case (1 n)
  have "48 \<le> 48 + (of_nat d :: u8) \<and> 48 + (of_nat d :: u8) \<le> 57" if "d < 10" for d
    using digit_u8 [OF that] that by (simp add: word_le_nat_alt)
  from this [of n] this [of "n mod 10"] "1.IH" "1.prems" show ?case
    by (subst (asm) decimal.simps) (auto split: if_splits)
qed

fun undecimal :: "bytes \<Rightarrow> nat" where
  "undecimal bs = foldl (\<lambda>n b. 10 * n + (unat b - 48)) 0 bs"

lemma undecimal_decimal: "undecimal (decimal n) = n"
proof (induction n rule: decimal.induct)
  case (1 n)
  show ?case
  proof (cases "n < 10")
    case True
    then show ?thesis by (subst decimal.simps) (simp add: digit_u8)
  next
    case False
    with "1.IH" show ?thesis
      by (subst decimal.simps) (simp add: digit_u8 del: of_nat_mod)
  qed
qed

lemma decimal_inj: "decimal m = decimal n \<longleftrightarrow> m = n"
  by (metis undecimal_decimal)

lemma domain_key_inj:
  "domain_key a p = domain_key b q \<longleftrightarrow> utf8_lossy a = utf8_lossy b \<and> p = q"
proof
  have colon: "58 \<notin> set (decimal n)" for n using decimal_digits [of 58 n] by auto
  assume eq: "domain_key a p = domain_key b q"
  have "ascii '':'' = [58]" by (simp add: ascii_def)
  with eq have "utf8_lossy a @ 58 # decimal (unat p) = utf8_lossy b @ 58 # decimal (unat q)"
    by (simp add: domain_key_def)
  from last_separator_split [OF this colon colon] show "utf8_lossy a = utf8_lossy b \<and> p = q"
    by (auto simp: decimal_inj intro: unsigned_word_eqI)
qed (simp add: domain_key_def)

section \<open>Rendered names are printable\<close>

definition printable :: "u8 \<Rightarrow> bool" where
  "printable b \<longleftrightarrow> 0x20 \<le> b \<and> b \<le> 0x7e"

lemma hex_digit_printable: "d < 16 \<Longrightarrow> printable (hex_digit d)"
proof -
  assume "d < 16"
  then have "unat (hex_digit d) = (if d < 10 then 48 + d else 87 + d)"
    by (simp add: hex_digit_def unat_word_ariths unat_of_nat)
  with \<open>d < 16\<close> show ?thesis
    by (auto simp: printable_def word_le_nat_alt split: if_splits)
qed

lemma sanitize_byte_printable: "c \<in> set (sanitize_byte b) \<Longrightarrow> printable c"
proof -
  have "unat b div 16 < 16" "unat b mod 16 < 16" by (simp_all add: less_mult_imp_div_less)
  then have "\<forall>c\<in>set (hex02 b). printable c" by (simp add: hex02_def hex_digit_printable)
  moreover assume "c \<in> set (sanitize_byte b)"
  ultimately show ?thesis
    by (auto simp: sanitize_byte_def printable_def split: if_splits)
qed

lemma sanitize_domain_printable: "\<forall>c\<in>set (sanitize_domain bs). printable c"
  by (auto simp: sanitize_domain_def dest: sanitize_byte_printable)

lemma sanitize_domain_id: "(\<forall>b\<in>set bs. printable b) \<Longrightarrow> sanitize_domain bs = bs"
  by (induction bs) (auto simp: sanitize_domain_def sanitize_byte_def printable_def)

lemma decimal_printable: "\<forall>c\<in>set (decimal n). printable c"
proof
  fix c assume "c \<in> set (decimal n)"
  from decimal_digits [OF this] show "printable c"
    by (simp add: printable_def word_le_nat_alt)
qed

lemma hex_printable: "\<forall>c\<in>set (hex n). printable c"
proof (induction n rule: hex.induct)
  case (1 n)
  then show ?case by (subst hex.simps) (auto simp: hex_digit_printable)
qed

lemma printable_separators [simp]: "printable 0x2e" "printable 0x3a"
  by (simp_all add: printable_def)

lemma join_printable:
  "printable sep \<Longrightarrow> (\<forall>x\<in>set xs. \<forall>c\<in>set x. printable c) \<Longrightarrow> \<forall>c\<in>set (join sep xs). printable c"
  by (induction sep xs rule: join.induct) auto

lemma pretty_print_printable: "\<forall>c\<in>set (pretty_print_addr t addr). printable c"
proof (cases t)
  case DomainName
  then show ?thesis by (simp add: pretty_print_addr_def sanitize_domain_printable)
next
  case V4
  have "\<forall>c\<in>set (ascii ''<invalid ipv4: '' @ decimal n @ ascii '' bytes>''). printable c" for n
    using decimal_printable [of n] by (auto simp: ascii_def printable_def)
  with V4 show ?thesis
    using decimal_printable by (auto simp: pretty_print_addr_def split: list.splits)
next
  case V6
  have "\<forall>c\<in>set (join 0x3a (map (\<lambda>s. hex (unat s)) xs)). printable c" for xs :: "u16 list"
    by (rule join_printable) (simp_all add: hex_printable)
  moreover have "\<forall>c\<in>set (ascii ''<invalid ipv6: '' @ decimal n @ ascii '' bytes>''). printable c" for n
    using decimal_printable [of n] by (auto simp: ascii_def printable_def)
  ultimately show ?thesis
    using V6 by (simp add: pretty_print_addr_def)
qed

section \<open>Properties\<close>

text \<open>
  C36. What the server logs of a requested address is printable ASCII whatever bytes the client
  sent (no control characters or line breaks reach the log), and a printable domain name is shown
  as it is.
\<close>

theorem log_rendering_printable:
  "(\<forall>b\<in>set (pretty_print_addr t addr). printable b) \<and>
   ((\<forall>b\<in>set addr. printable b) \<longrightarrow> pretty_print_addr DomainName addr = addr)"
  using pretty_print_printable [of t addr] sanitize_domain_id [of addr]
  by (simp add: pretty_print_addr_def)

theorem log_rendering_printable_witness:
  "pretty_print_addr DomainName (ascii ''ok.example'') = ascii ''ok.example'' \<and>
   list_all printable (pretty_print_addr DomainName [10, 27])"
proof -
  have "\<forall>b\<in>set (ascii ''ok.example''). printable b" by (simp add: ascii_def printable_def)
  then show ?thesis
    using log_rendering_printable [of DomainName "ascii ''ok.example''"]
      log_rendering_printable [of DomainName "[10, 27]"] unfolding list_all_iff by blast
qed

text \<open>
  Cache keys do not collide: two destinations share a key only if they have the same port and
  the same name after the lossy UTF-8 decoding, which leaves every valid name as it is.
\<close>

lemma domain_key_collision:
  "(domain_key a p = domain_key b q \<longleftrightarrow> utf8_lossy a = utf8_lossy b \<and> p = q) \<and>
   valid_utf8 (utf8_lossy a) \<and> (valid_utf8 a \<longrightarrow> utf8_lossy a = a)"
  using utf8_lossy_valid_id [of a] by (simp add: domain_key_inj valid_utf8_lossy)

end
