(* ===== verification/Dns_Cache.thy ===== *)
theory Dns_Cache
  imports Async_IO Text_Render "HOL-Library.AList" "HOL-Library.Multiset"
begin

text \<open>
  The positive DNS cache of \<open>src/lib.rs\<close> (\<open>DnsCache\<close> with \<open>new\<close>, \<open>get\<close>, \<open>insert\<close>, \<open>snapshot\<close>) and its
  client \<open>addr_to_socket\<close>. Instants and durations are nanoseconds as \<open>nat\<close>. The \<open>HashMap\<close> is an
  association list with distinct keys: its order stands for the iteration order of the map,
  which only \<open>min_by_key\<close> and the snapshot observe; \<open>cache_step\<close> below lets that order change
  arbitrarily between operations. The mutex makes each operation atomic.

  \<open>Instant + Duration\<close> panics when the sum is not representable; on the supported 64-bit targets
  seconds are a signed 64-bit number.
\<close>

section \<open>Definitions\<close>

definition INSTANT_MAX :: nat where
  "INSTANT_MAX = 2 ^ 63 * 10 ^ 9 - 1"

record cache_entry =
  ce_addrs :: "socket_addr list"
  expires_at :: nat
  inserted_at :: nat

type_synonym cache_entries = "(bytes \<times> cache_entry) list"

record dns_cache =
  ttl :: nat
  max_entries :: nat
  entries :: cache_entries
  hits :: u64
  misses :: u64
  inserts :: u64
  evictions :: u64
  expired_dropped :: u64

definition dns_new :: "nat \<Rightarrow> nat \<Rightarrow> dns_cache" where
  "dns_new t m =
     \<lparr>ttl = t, max_entries = max m 1, entries = [], hits = 0, misses = 0, inserts = 0,
      evictions = 0, expired_dropped = 0\<rparr>"

definition dns_get :: "nat \<Rightarrow> bytes \<Rightarrow> dns_cache \<Rightarrow> socket_addr list option \<times> dns_cache" where
  "dns_get now name c =
     (case map_of (entries c) name of
        None \<Rightarrow> (None, c\<lparr>misses := misses c + 1\<rparr>)
      | Some e \<Rightarrow>
          if expires_at e \<le> now
          then (None, c\<lparr>entries := AList.delete name (entries c),
                        expired_dropped := expired_dropped c + 1, misses := misses c + 1\<rparr>)
          else (Some (ce_addrs e), c\<lparr>hits := hits c + 1\<rparr>))"

text \<open>\<open>iter().min_by_key(inserted_at)\<close>: the first of the entries with the least key.\<close>

definition oldest :: "cache_entries \<Rightarrow> bytes option" where
  "oldest es =
     (case es of
        [] \<Rightarrow> None
      | e # es' \<Rightarrow>
          Some (fst (fold (\<lambda>x m. if inserted_at (snd x) < inserted_at (snd m) then x else m) es' e)))"

text \<open>The room-making part of \<open>insert\<close>: drop expired entries, then evict the oldest if still full.\<close>

definition make_room :: "nat \<Rightarrow> dns_cache \<Rightarrow> dns_cache" where
  "make_room now c =
     (if length (entries c) \<ge> max_entries c then
        let kept = filter (\<lambda>(_, e). expires_at e > now) (entries c);
            expired = length (entries c) - length kept;
            c1 = c\<lparr>entries := kept,
                   expired_dropped :=
                     (if expired > 0 then expired_dropped c + of_nat expired else expired_dropped c)\<rparr>
        in if length (entries c1) \<ge> max_entries c1 then
             (case oldest (entries c1) of
                Some name \<Rightarrow>
                  c1\<lparr>entries := AList.delete name (entries c1), evictions := evictions c1 + 1\<rparr>
              | None \<Rightarrow> c1)
           else c1
      else c)"

text \<open>\<open>None\<close> is the panic of \<open>now + self.ttl\<close>.\<close>

definition dns_insert :: "nat \<Rightarrow> bytes \<Rightarrow> socket_addr list \<Rightarrow> dns_cache \<Rightarrow> dns_cache option" where
  "dns_insert now name addrs c =
     (if addrs = [] then Some c
      else
        let c1 = make_room now c in
        if now + ttl c1 > INSTANT_MAX then None
        else
          Some (c1\<lparr>entries :=
                     AList.update name
                       \<lparr>ce_addrs = addrs, expires_at = now + ttl c1, inserted_at = now\<rparr> (entries c1),
                   inserts := inserts c1 + 1\<rparr>))"

text \<open>The snapshot for the statistics: names sanitised, soonest expiry first, at most 20.\<close>

definition TOP_LIST_LEN :: nat where "TOP_LIST_LEN = 20"

record dns_name =
  dn_name :: bytes
  expires_in_secs :: nat

record dns_snapshot =
  dns_enabled :: bool
  ttl_secs :: nat
  snap_max_entries :: nat
  snap_entries :: nat
  snap_hits :: u64
  snap_misses :: u64
  snap_inserts :: u64
  snap_evictions :: u64
  snap_expired_dropped :: u64
  snap_names :: "dns_name list"

definition dns_cache_snapshot :: "nat \<Rightarrow> dns_cache \<Rightarrow> dns_snapshot" where
  "dns_cache_snapshot now c =
     (let names = map (\<lambda>(name, e). \<lparr>dn_name = sanitize_domain name,
                                    expires_in_secs = (expires_at e - now) div 10 ^ 9\<rparr>) (entries c)
      in \<lparr>dns_enabled = True, ttl_secs = ttl c div 10 ^ 9, snap_max_entries = max_entries c,
          snap_entries = length (entries c), snap_hits = hits c, snap_misses = misses c,
          snap_inserts = inserts c, snap_evictions = evictions c,
          snap_expired_dropped = expired_dropped c,
          snap_names = take TOP_LIST_LEN (sort_key expires_in_secs names)\<rparr>)"

definition dns_snapshot_disabled :: dns_snapshot where
  "dns_snapshot_disabled =
     \<lparr>dns_enabled = False, ttl_secs = 0, snap_max_entries = 0, snap_entries = 0, snap_hits = 0,
      snap_misses = 0, snap_inserts = 0, snap_evictions = 0, snap_expired_dropped = 0,
      snap_names = []\<rparr>"

text \<open>
  \<open>addr_to_socket\<close>. The resolver \<open>lookup_host\<close> is tokio's: a parameter that may answer, fail or
  stay pending. The cache is shared and locked only inside \<open>get\<close> and \<open>insert\<close>; a resolution comes with
  the times of the two and with what the other connections do to the cache before the first and
  between them, while this connection waits.
\<close>

type_synonym resolver = "bytes \<Rightarrow> (error_kind, socket_addr list) poll"

record resolution =
  lookup_host :: resolver
  asked_at :: nat
  answered_at :: nat
  others_before :: "dns_cache \<Rightarrow> dns_cache"
  others_during :: "dns_cache \<Rightarrow> dns_cache"

definition addr_to_socket ::
  "resolution \<Rightarrow> addr_type \<Rightarrow> bytes \<Rightarrow> u16 \<Rightarrow> dns_cache option \<Rightarrow>
   (error_kind, socket_addr list) poll \<times> dns_cache option" where
  "addr_to_socket r t addr port cache =
     (case t of
        V6 \<Rightarrow>
          (if length addr \<noteq> 16 then (Raise Ek_InvalidInput, cache)
           else (Done [SocketAddrV6 (from_be_bytes addr) port 0 0], cache))
      | V4 \<Rightarrow>
          (if length addr \<noteq> 4 then (Raise Ek_InvalidInput, cache)
           else (Done [SocketAddrV4 (from_be_bytes addr) port], cache))
      | DomainName \<Rightarrow>
          (let domain = domain_key addr port;
               (cached, cache1) =
                 (case cache of
                    None \<Rightarrow> (None, None)
                  | Some c \<Rightarrow> (let (a, c') = dns_get (asked_at r) domain (others_before r c) in (a, Some c')))
           in case cached of
                Some addrs \<Rightarrow> (Done addrs, cache1)
              | None \<Rightarrow>
                  (let cache2 = map_option (others_during r) cache1 in
                   case lookup_host r domain of
                     Done addrs \<Rightarrow>
                       (case cache2 of
                          None \<Rightarrow> (Done addrs, None)
                        | Some c1 \<Rightarrow>
                            (case dns_insert (answered_at r) domain addrs c1 of
                               None \<Rightarrow> (Panicked, cache2)
                             | Some c2 \<Rightarrow> (Done addrs, Some c2)))
                   | Raise e \<Rightarrow> (Raise e, cache2)
                   | Pending \<Rightarrow> (Pending, cache2)
                   | Panicked \<Rightarrow> (Panicked, cache2))))"

section \<open>Abstraction and invariant\<close>

text \<open>The answer a cache would give for a name at a time, and the shape of a cache.\<close>

definition live :: "dns_cache \<Rightarrow> nat \<Rightarrow> bytes \<Rightarrow> socket_addr list option" where
  "live c t name =
     (case map_of (entries c) name of
        None \<Rightarrow> None
      | Some e \<Rightarrow> if expires_at e \<le> t then None else Some (ce_addrs e))"

definition entry_ok :: "dns_cache \<Rightarrow> cache_entry \<Rightarrow> bool" where
  "entry_ok c e \<longleftrightarrow> ce_addrs e \<noteq> [] \<and> expires_at e = inserted_at e + ttl c"

definition cache_inv :: "dns_cache \<Rightarrow> bool" where
  "cache_inv c \<longleftrightarrow>
     1 \<le> max_entries c \<and> distinct (map fst (entries c)) \<and> length (entries c) \<le> max_entries c \<and>
     (\<forall>(n, e)\<in>set (entries c). entry_ok c e)"

lemma dns_new_inv [simp]: "cache_inv (dns_new t m)"
  by (simp add: cache_inv_def dns_new_def)

lemma map_of_delete: "map_of (AList.delete k al) = (map_of al)(k := None)"
  by (simp add: delete_conv')

lemma map_of_update: "map_of (AList.update k v al) = (map_of al)(k \<mapsto> v)"
  by (rule update_conv')

lemma set_delete: "set (AList.delete k al) = {(k', v) \<in> set al. k' \<noteq> k}"
  by (auto simp: AList.delete_eq)

lemma set_update_subset: "set (AList.update k v al) \<subseteq> insert (k, v) (set al)"
  by (induction al) auto

lemma length_update: "length (AList.update k v al) \<le> Suc (length al)"
  by (induction al) auto

lemma length_update_in: "k \<in> fst ` set al \<Longrightarrow> length (AList.update k v al) = length al"
  by (induction al) auto

subsection \<open>Lookup\<close>

lemma dns_get_fst: "fst (dns_get now name c) = live c now name"
  by (auto simp: dns_get_def live_def split: option.splits)

lemma dns_get_entries:
  "entries (snd (dns_get now name c)) = entries c \<or>
   (\<exists>e. map_of (entries c) name = Some e \<and> expires_at e \<le> now \<and>
        entries (snd (dns_get now name c)) = AList.delete name (entries c))"
  by (auto simp: dns_get_def split: option.splits)

lemma dns_get_config [keep_simps]:
  "ttl (snd (dns_get now name c)) = ttl c"
  "max_entries (snd (dns_get now name c)) = max_entries c"
  by (auto simp: dns_get_def split: option.splits)

lemma dns_get_live:
  assumes "now \<le> t"
  shows "live (snd (dns_get now name c)) t = live c t"
  using dns_get_entries [of now name c] assms
  by (auto simp: fun_eq_iff live_def map_of_delete split: option.splits if_splits)

lemma dns_get_inv: "cache_inv c \<Longrightarrow> cache_inv (snd (dns_get now name c))"
  using dns_get_entries [of now name c] length_delete_le [of name "entries c"]
  by (auto simp: cache_inv_def entry_ok_def keep_simps set_delete distinct_delete)

lemma dns_get_counts:
  "hits (snd (dns_get now name c)) + misses (snd (dns_get now name c)) = hits c + misses c + 1"
  by (auto simp: dns_get_def split: option.splits)

subsection \<open>Making room\<close>

lemma fold_min_by_key:
  fixes f :: "'a \<Rightarrow> 'k::linorder"
  shows "fold (\<lambda>x m. if f x < f m then x else m) xs m0 \<in> insert m0 (set xs) \<and>
    (\<forall>x\<in>insert m0 (set xs). f (fold (\<lambda>x m. if f x < f m then x else m) xs m0) \<le> f x)"
proof (induction xs arbitrary: m0)
  case (Cons a xs)
  from Cons [of "if f a < f m0 then a else m0"] show ?case
    by (auto split: if_splits intro: order_trans dest: leD less_imp_le not_le_imp_less)
qed simp

lemma oldest_Some:
  assumes "es \<noteq> []"
  shows "\<exists>name e. oldest es = Some name \<and> (name, e) \<in> set es \<and>
    (\<forall>(n, e')\<in>set es. inserted_at e \<le> inserted_at e')"
proof -
  from assms obtain x xs where es: "es = x # xs" by (cases es) auto
  define m where "m = fold (\<lambda>x m. if inserted_at (snd x) < inserted_at (snd m) then x else m) xs x"
  have "m \<in> set es" "\<forall>y\<in>set es. inserted_at (snd m) \<le> inserted_at (snd y)"
    using fold_min_by_key [of "\<lambda>x. inserted_at (snd x)" xs x] by (simp_all add: es m_def)
  then have "(fst m, snd m) \<in> set es" "\<forall>(n, e')\<in>set es. inserted_at (snd m) \<le> inserted_at e'"
    by auto
  moreover have "oldest es = Some (fst m)" by (simp add: oldest_def es m_def)
  ultimately show ?thesis by blast
qed

lemma make_room_config [keep_simps]:
  "ttl (make_room now c) = ttl c" "max_entries (make_room now c) = max_entries c"
  "hits (make_room now c) = hits c" "misses (make_room now c) = misses c"
  "inserts (make_room now c) = inserts c"
  by (simp_all add: make_room_def Let_def split: option.splits)

text \<open>Nothing is removed while there is room; otherwise the expired entries go first.\<close>

lemma make_room_entries:
  fixes now c
  defines "kept \<equiv> filter (\<lambda>(_, e). expires_at e > now) (entries c)"
  shows "entries (make_room now c) =
    (if length (entries c) < max_entries c then entries c
     else if length kept < max_entries c then kept
     else case oldest kept of Some name \<Rightarrow> AList.delete name kept | None \<Rightarrow> kept)"
  by (auto simp: make_room_def Let_def kept_def split: option.splits)

lemma make_room_inv:
  assumes inv: "cache_inv c"
  shows "distinct (map fst (entries (make_room now c)))"
    "set (entries (make_room now c)) \<subseteq> set (entries c)"
    "length (entries (make_room now c)) < max_entries c"
proof -
  define kept where "kept = filter (\<lambda>(_, e). expires_at e > now) (entries c)"
  have dist: "distinct (map fst kept)" "distinct (map fst (entries c))"
    using inv by (simp_all add: cache_inv_def kept_def distinct_map_filter_fst)
  have len: "length kept \<le> max_entries c" "1 \<le> max_entries c"
    using inv by (auto simp: cache_inv_def kept_def intro: order_trans [OF length_filter_le])
  have sub: "set kept \<subseteq> set (entries c)" by (auto simp: kept_def)
  have del: "length (AList.delete name kept) < max_entries c"
    if name: "oldest kept = Some name" and full: "\<not> length kept < max_entries c" for name
  proof -
    from full len have "kept \<noteq> []" by auto
    from oldest_Some [OF this] name obtain e where "(name, e) \<in> set kept" by auto
    then have "length (AList.delete name kept) < length kept"
      by (auto simp: AList.delete_eq intro: length_filter_less)
    with len show ?thesis by simp
  qed
  have none: "length kept < max_entries c" if "oldest kept = None"
    using that oldest_Some [of kept] len by (cases "kept = []") auto
  note eq = make_room_entries [of now c, folded kept_def]
  show "distinct (map fst (entries (make_room now c)))"
    using dist by (auto simp: eq distinct_delete split: option.splits)
  show "set (entries (make_room now c)) \<subseteq> set (entries c)"
    using sub by (auto simp: eq set_delete split: option.splits)
  show "length (entries (make_room now c)) < max_entries c"
    using del none by (auto simp: eq split: option.splits)
qed

subsection \<open>Insertion\<close>

lemma dns_insert_Some:
  assumes "dns_insert now name addrs c = Some c'" "addrs \<noteq> []"
  shows "c' = (make_room now c)\<lparr>entries := AList.update name
      \<lparr>ce_addrs = addrs, expires_at = now + ttl c, inserted_at = now\<rparr> (entries (make_room now c)),
      inserts := inserts c + 1\<rparr> \<and> now + ttl c \<le> INSTANT_MAX"
  using assms by (auto simp: dns_insert_def Let_def keep_simps split: if_splits)

lemma dns_insert_total: "now + ttl c \<le> INSTANT_MAX \<Longrightarrow> \<exists>c'. dns_insert now name addrs c = Some c'"
  by (simp add: dns_insert_def Let_def keep_simps)

lemma dns_insert_inv:
  assumes inv: "cache_inv c" and ins: "dns_insert now name addrs c = Some c'"
  shows "cache_inv c'"
proof (cases "addrs = []")
  case True
  with inv ins show ?thesis by (simp add: dns_insert_def)
next
  case False
  note c' = dns_insert_Some [OF ins False, THEN conjunct1]
  let ?e = "\<lparr>ce_addrs = addrs, expires_at = now + ttl c, inserted_at = now\<rparr>"
  note room = make_room_inv [OF inv, of now]
  have "length (AList.update name ?e (entries (make_room now c))) \<le> max_entries c"
    using length_update [of name ?e "entries (make_room now c)"] room(3) by simp
  moreover have "\<forall>(n, e)\<in>set (AList.update name ?e (entries (make_room now c))). entry_ok c e"
    using set_update_subset [of name ?e "entries (make_room now c)"] room(2) inv False
    by (fastforce simp: cache_inv_def entry_ok_def)
  ultimately show ?thesis
    using room(1) inv
    by (simp add: c' cache_inv_def entry_ok_def keep_simps distinct_update)
qed

lemma map_of_subset:
  "set xs \<subseteq> set ys \<Longrightarrow> distinct (map fst ys) \<Longrightarrow> map_of xs k = Some v \<Longrightarrow> map_of ys k = Some v"
  by (meson map_of_SomeD map_of_is_SomeI subsetD)

lemma dns_insert_live:
  assumes "dns_insert now name addrs c = Some c'" "addrs \<noteq> []"
  shows "live c' t name = (if now + ttl c \<le> t then None else Some addrs)"
  using dns_insert_Some [OF assms, THEN conjunct1]
  by (simp add: live_def map_of_update)

lemma dns_insert_live_other:
  assumes inv: "cache_inv c" and ins: "dns_insert now name addrs c = Some c'"
    and other: "m \<noteq> name" and hit: "live c' t m = Some as"
  shows "live c t m = Some as"
proof (cases "addrs = []")
  case True
  with ins hit show ?thesis by (simp add: dns_insert_def)
next
  case False
  note room = make_room_inv [OF inv, of now]
  from hit other obtain e where e: "map_of (entries (make_room now c)) m = Some e"
    "\<not> expires_at e \<le> t" "ce_addrs e = as"
    by (auto simp: dns_insert_Some [OF ins False, THEN conjunct1] live_def map_of_update
        split: option.splits if_splits)
  from map_of_subset [OF room(2) _ e(1)] inv have "map_of (entries c) m = Some e"
    by (simp add: cache_inv_def)
  with e show ?thesis by (simp add: live_def)
qed

text \<open>
  What insertion may lose: nothing while there is room, and otherwise at most one live name,
  the one inserted longest ago.
\<close>

lemma dns_insert_keeps:
  assumes inv: "cache_inv c" and ins: "dns_insert now name addrs c = Some c'"
    and other: "m \<noteq> name" and e: "map_of (entries c) m = Some e" "now < expires_at e"
  shows "map_of (entries c') m = Some e \<or>
    (oldest (entries c) = Some m \<and> length (entries c) = max_entries c \<and>
     (\<forall>(n, e')\<in>set (entries c). now < expires_at e' \<and> inserted_at e \<le> inserted_at e'))"
proof (cases "addrs = []")
  case True
  with ins e show ?thesis by (simp add: dns_insert_def)
next
  case False
  define kept where "kept = filter (\<lambda>(_, e). expires_at e > now) (entries c)"
  note eq = make_room_entries [of now c, folded kept_def]
  have dist: "distinct (map fst kept)"
    using inv by (simp add: cache_inv_def kept_def distinct_map_filter_fst)
  from e have kept_m: "map_of kept m = Some e"
    using map_of_SomeD [OF e(1)] by (intro map_of_is_SomeI [OF dist]) (simp add: kept_def)
  have same: "map_of (entries c') m = map_of (entries (make_room now c)) m"
    using other dns_insert_Some [OF ins False, THEN conjunct1] by (simp add: map_of_update)
  show ?thesis
  proof (cases "length kept < max_entries c \<or> oldest kept \<noteq> Some m")
    case True
    then show ?thesis using same e kept_m by (auto simp: eq map_of_delete split: option.splits)
  next
    case full: False
    have "length kept \<le> length (entries c)" by (simp add: kept_def)
    with full inv have len: "length kept = length (entries c)" "length (entries c) = max_entries c"
      by (simp_all add: cache_inv_def)
    then have all: "\<forall>(n, e)\<in>set (entries c). now < expires_at e"
      using length_filter_less [of _ "entries c" "\<lambda>(_, e). expires_at e > now"]
      by (fastforce simp: kept_def)
    then have kept_all: "kept = entries c" by (auto simp: kept_def filter_id_conv)
    from map_of_SomeD [OF e(1)] have "entries c \<noteq> []" by auto
    from oldest_Some [OF this] full obtain e2 where
      e2: "(m, e2) \<in> set (entries c)" "\<forall>(n, e')\<in>set (entries c). inserted_at e2 \<le> inserted_at e'"
      by (auto simp: kept_all)
    from map_of_is_SomeI [OF _ e2(1)] inv e(1) have "e2 = e" by (simp add: cache_inv_def)
    with e2 all len full kept_all show ?thesis by fastforce
  qed
qed

section \<open>The contract of a positive cache\<close>

text \<open>
  What \<open>addr_to_socket\<close> relies on. An answer handed out was stored earlier under the same name,
  so any property of stored answers is a property of the answers served.
\<close>

locale positive_cache =
  fixes get :: "nat \<Rightarrow> 'n \<Rightarrow> 'c \<Rightarrow> 'a option \<times> 'c"
    and insert :: "nat \<Rightarrow> 'n \<Rightarrow> 'a \<Rightarrow> 'c \<Rightarrow> 'c option"
    and live :: "'c \<Rightarrow> nat \<Rightarrow> 'n \<Rightarrow> 'a option"
    and inv :: "'c \<Rightarrow> bool"
  assumes get_live: "inv c \<Longrightarrow> fst (get now n c) = live c now n"
    and get_inv: "inv c \<Longrightarrow> inv (snd (get now n c))"
    and get_frame: "inv c \<Longrightarrow> live (snd (get now n c)) t m = Some a \<Longrightarrow> live c t m = Some a"
    and insert_inv: "inv c \<Longrightarrow> insert now n a c = Some c' \<Longrightarrow> inv c'"
    and insert_frame: "inv c \<Longrightarrow> insert now n a c = Some c' \<Longrightarrow> live c' t m = Some b \<Longrightarrow>
      m = n \<and> b = a \<or> live c t m = Some b"
begin

lemma get_sound:
  assumes inv: "inv c" and P: "\<And>t m b. live c t m = Some b \<Longrightarrow> P m b"
    and get: "get now n c = (r, c')"
  shows "inv c'" "\<And>b. r = Some b \<Longrightarrow> P n b" "\<And>t m b. live c' t m = Some b \<Longrightarrow> P m b"
proof -
  from get have r: "r = live c now n" and c': "c' = snd (get now n c)"
    using get_live [OF inv, of now n] by simp_all
  show "inv c'" unfolding c' by (rule get_inv [OF inv])
  show "P n b" if "r = Some b" for b using that P r by simp
  show "P m b" if "live c' t m = Some b" for t m b
    using P get_frame [OF inv] that unfolding c' by blast
qed

lemma insert_sound:
  assumes "inv c" "\<And>t m b. live c t m = Some b \<Longrightarrow> P m b" "P n a" "insert now n a c = Some c'"
  shows "inv c'" "\<And>t m b. live c' t m = Some b \<Longrightarrow> P m b"
  using assms insert_inv [of c now n a c'] insert_frame [of c now n a c'] by blast+

end

interpretation dns: positive_cache dns_get dns_insert live cache_inv
proof unfold_locales
  fix c now n t m a
  show "fst (dns_get now n c) = live c now n" by (rule dns_get_fst)
  show "cache_inv c \<Longrightarrow> cache_inv (snd (dns_get now n c))" by (rule dns_get_inv)
  show "live (snd (dns_get now n c)) t m = Some a \<Longrightarrow> live c t m = Some a"
    using dns_get_entries [of now n c]
    by (auto simp: live_def map_of_delete split: option.splits if_splits)
next
  fix c now n a c' t m b
  assume inv: "cache_inv c" and ins: "dns_insert now n a c = Some c'"
  show "cache_inv c'" using inv ins by (rule dns_insert_inv)
  assume hit: "live c' t m = Some b"
  show "m = n \<and> b = a \<or> live c t m = Some b"
  proof (cases "a = [] \<or> m \<noteq> n")
    case True
    then show ?thesis
      using dns_insert_live_other [OF inv ins _ hit] ins hit by (auto simp: dns_insert_def)
  next
    case False
    then show ?thesis using dns_insert_live [OF ins, of t] hit by (auto split: if_splits)
  qed
qed

section \<open>Every history of the cache\<close>

inductive cache_step :: "dns_cache \<Rightarrow> dns_cache \<Rightarrow> bool" where
  get_step: "cache_step c (snd (dns_get now name c))"
| insert_step: "dns_insert now name addrs c = Some c' \<Longrightarrow> cache_step c c'"
| reorder_step: "mset es = mset (entries c) \<Longrightarrow> cache_step c (c\<lparr>entries := es\<rparr>)"

lemma cache_step_inv: "cache_step c c' \<Longrightarrow> cache_inv c \<Longrightarrow> cache_inv c'"
proof (induction rule: cache_step.induct)
  case (reorder_step es c)
  then have "set es = set (entries c)" "length es = length (entries c)"
    "distinct (map fst es) = distinct (map fst (entries c))"
    by (metis set_mset_mset, metis size_mset, metis mset_map mset_eq_imp_distinct_iff)
  with reorder_step.prems show ?case by (simp add: cache_inv_def entry_ok_def)
qed (auto intro: dns_get_inv dns_insert_inv)

lemma cache_reach_inv: "cache_step\<^sup>*\<^sup>* (dns_new t m) c \<Longrightarrow> cache_inv c"
  by (induction rule: rtranclp_induct) (auto intro: cache_step_inv)

lemma cache_step_config: "cache_step c c' \<Longrightarrow> ttl c' = ttl c \<and> max_entries c' = max_entries c"
  by (induction rule: cache_step.induct)
    (auto simp: keep_simps dns_insert_def Let_def split: if_splits)

lemma cache_reach_config:
  "cache_step\<^sup>*\<^sup>* (dns_new t m) c \<Longrightarrow> ttl c = t \<and> max_entries c = max m 1"
  by (induction rule: rtranclp_induct) (auto simp: dns_new_def dest: cache_step_config)

subsection \<open>Histories with their times\<close>

text \<open>
  The same histories as sequences of operations: lookups and stores with the time of the call, and
  the hash map showing its entries in another order. \<open>None\<close>: a store panicked, or the entries
  shown are not those of the map.
\<close>

datatype cache_op =
    Lookup nat bytes
  | Store nat bytes "socket_addr list"
  | Reorder cache_entries

fun apply_op :: "cache_op \<Rightarrow> dns_cache \<Rightarrow> dns_cache option" where
  "apply_op (Lookup now name) c = Some (snd (dns_get now name c))"
| "apply_op (Store now name addrs) c = dns_insert now name addrs c"
| "apply_op (Reorder es) c = (if mset es = mset (entries c) then Some (c\<lparr>entries := es\<rparr>) else None)"

primrec apply_ops :: "cache_op list \<Rightarrow> dns_cache \<Rightarrow> dns_cache option" where
  "apply_ops [] c = Some c"
| "apply_ops (p # ps) c = Option.bind (apply_op p c) (apply_ops ps)"

text \<open>An operation of a history up to time \<open>t\<close> in which \<open>name\<close> is not stored again.\<close>

fun leaves :: "bytes \<Rightarrow> nat \<Rightarrow> cache_op \<Rightarrow> bool" where
  "leaves name t (Lookup u n) \<longleftrightarrow> u \<le> t"
| "leaves name t (Store u n as) \<longleftrightarrow> u \<le> t \<and> n \<noteq> name"
| "leaves name t (Reorder es) \<longleftrightarrow> True"

fun is_store :: "cache_op \<Rightarrow> bool" where
  "is_store (Store u n as) \<longleftrightarrow> True"
| "is_store _ \<longleftrightarrow> False"

lemma apply_op_step: "apply_op p c = Some c' \<Longrightarrow> cache_step c c'"
  by (cases p) (auto intro: cache_step.intros split: if_splits)

lemma apply_op_keeps:
  assumes "apply_op p c = Some c'" "cache_inv c"
  shows "cache_inv c'" "ttl c' = ttl c" "max_entries c' = max_entries c"
  using cache_step_inv [OF apply_op_step] cache_step_config [OF apply_op_step] assms by blast+

lemma map_of_reorder:
  assumes "mset es = mset al" "distinct (map fst al)"
  shows "map_of es = map_of al"
  using assms by (metis map_of_inject_set mset_eq_imp_distinct_iff mset_eq_setD mset_map)

text \<open>The other entries that are not older than a given time; a store adds at most one.\<close>

definition younger :: "bytes \<Rightarrow> nat \<Rightarrow> cache_entries \<Rightarrow> (bytes \<times> cache_entry) set" where
  "younger name now es = {(n, e) \<in> set es. n \<noteq> name \<and> now \<le> inserted_at e}"

lemma younger_finite [simp]: "finite (younger name now es)"
  by (rule finite_subset [of _ "set es"]) (auto simp: younger_def)

lemma card_younger_mono: "set es \<subseteq> set es' \<Longrightarrow> card (younger name now es) \<le> card (younger name now es')"
  by (rule card_mono, rule younger_finite) (auto simp: younger_def)

lemma card_younger_update:
  "card (younger name now (AList.update k v es)) \<le> Suc (card (younger name now es))"
proof -
  have "younger name now (AList.update k v es) \<subseteq> insert (k, v) (younger name now es)"
    using set_update_subset [of k v es] by (auto simp: younger_def)
  then have "card (younger name now (AList.update k v es)) \<le> card (insert (k, v) (younger name now es))"
    by (intro card_mono) simp_all
  also have "\<dots> \<le> Suc (card (younger name now es))" by (simp add: card_insert_if)
  finally show ?thesis .
qed

lemma card_younger_op:
  assumes "apply_op p c = Some c'" "cache_inv c"
  shows "card (younger name now (entries c')) \<le> card (younger name now (entries c)) + (if is_store p then 1 else 0)"
proof (cases p)
  case (Lookup u n)
  with assms show ?thesis
    using dns_get_entries [of u n c] by (auto intro!: card_younger_mono simp: set_delete)
next
  case (Store u n as)
  show ?thesis
  proof (cases "as = []")
    case False
    have "card (younger name now (entries c')) \<le> Suc (card (younger name now (entries (make_room u c))))"
      using dns_insert_Some [of u n as c c'] assms(1) False by (simp add: Store card_younger_update)
    with card_younger_mono [OF make_room_inv(2) [OF assms(2)], of name now u] show ?thesis
      by (simp add: Store)
  qed (use assms Store in \<open>simp add: dns_insert_def\<close>)
next
  case (Reorder es)
  with assms show ?thesis by (auto intro!: card_younger_mono dest: mset_eq_setD split: if_splits)
qed

text \<open>
  An entry is forgotten or unchanged; it is unchanged while it is live, unless the cache is full of
  entries that are not older.
\<close>

lemma apply_op_entry:
  assumes op: "apply_op p c = Some c'" and inv: "cache_inv c" and lv: "leaves name t p"
    and e: "map_of (entries c) name = None \<or> map_of (entries c) name = Some e"
  shows "map_of (entries c') name = None \<or> map_of (entries c') name = Some e"
proof (cases p)
  case (Lookup u n)
  with op e dns_get_entries [of u n c] show ?thesis by (auto simp: map_of_delete split: if_splits)
next
  case (Store u n as)
  with lv have "n \<noteq> name" by simp
  show ?thesis
  proof (cases "as = []")
    case False
    with \<open>n \<noteq> name\<close> op have "map_of (entries c') name = map_of (entries (make_room u c)) name"
      using dns_insert_Some [of u n as c c'] by (simp add: Store map_of_update)
    with map_of_subset [OF make_room_inv(2) [OF inv]] inv e show ?thesis
      by (cases "map_of (entries (make_room u c)) name") (fastforce simp: cache_inv_def)+
  qed (use op e Store in \<open>simp add: dns_insert_def\<close>)
next
  case (Reorder es)
  with op have "mset es = mset (entries c)" "c' = c\<lparr>entries := es\<rparr>" by (auto split: if_splits)
  with map_of_reorder [of es "entries c"] inv e show ?thesis by (simp add: cache_inv_def)
qed

lemma apply_op_survives:
  assumes op: "apply_op p c = Some c'" and inv: "cache_inv c" and lv: "leaves name t p"
    and e: "map_of (entries c) name = Some e" "t < expires_at e"
    and room: "card (younger name (inserted_at e) (entries c)) + 1 < max_entries c \<or> \<not> is_store p"
  shows "map_of (entries c') name = Some e"
proof (cases p)
  case (Lookup u n)
  with op lv e dns_get_entries [of u n c] show ?thesis by (auto simp: map_of_delete)
next
  case (Store u n as)
  with lv e have n: "name \<noteq> n" "u < expires_at e" by auto
  have False if old: "\<forall>(n, e')\<in>set (entries c). inserted_at e \<le> inserted_at e'" "length (entries c) = max_entries c"
  proof -
    have "younger name (inserted_at e) (entries c) = set (entries c) - {(name, e)}"
    proof -
      have "e' = e" if "(name, e') \<in> set (entries c)" for e'
        using map_of_is_SomeI [OF _ that] e(1) inv by (simp add: cache_inv_def)
      then show ?thesis using old(1) by (auto simp: younger_def)
    qed
    moreover have "card (set (entries c)) = max_entries c"
      using inv old(2) by (metis cache_inv_def distinct_card distinct_map)
    ultimately show False using room map_of_SomeD [OF e(1)] Store by (simp add: card_Diff_singleton)
  qed
  with dns_insert_keeps [OF inv _ n(1) e(1) n(2)] op Store show ?thesis by fastforce
next
  case (Reorder es)
  with op e inv map_of_reorder [of es "entries c"] show ?thesis by (auto simp: cache_inv_def split: if_splits)
qed

lemma apply_ops_entry:
  assumes "apply_ops ps c = Some c'" "cache_inv c" "\<forall>p\<in>set ps. leaves name t p"
    "map_of (entries c) name = None \<or> map_of (entries c) name = Some e"
  shows "map_of (entries c') name = None \<or> map_of (entries c') name = Some e"
  using assms
proof (induction ps arbitrary: c)
  case (Cons p ps)
  from Cons.prems(1) obtain c1 where c1: "apply_op p c = Some c1" "apply_ops ps c1 = Some c'"
    by (auto simp: bind_eq_Some_conv)
  have "leaves name t p" "\<forall>p\<in>set ps. leaves name t p" using Cons.prems(3) by simp_all
  from Cons.IH [OF c1(2) apply_op_keeps(1) [OF c1(1) Cons.prems(2)] this(2)
      apply_op_entry [OF c1(1) Cons.prems(2) this(1) Cons.prems(4)]] show ?case .
qed simp

lemma apply_ops_survives:
  assumes "apply_ops ps c = Some c'" "cache_inv c" "\<forall>p\<in>set ps. leaves name t p"
    "map_of (entries c) name = Some e" "t < expires_at e"
    "card (younger name (inserted_at e) (entries c)) + length (filter is_store ps) < max_entries c"
  shows "map_of (entries c') name = Some e"
  using assms
proof (induction ps arbitrary: c)
  case (Cons p ps)
  from Cons.prems(1) obtain c1 where c1: "apply_op p c = Some c1" "apply_ops ps c1 = Some c'"
    by (auto simp: bind_eq_Some_conv)
  note keep = apply_op_keeps [OF c1(1) Cons.prems(2)]
  have "map_of (entries c1) name = Some e"
    by (rule apply_op_survives [OF c1(1) Cons.prems(2) _ Cons.prems(4,5)])
      (use Cons.prems(3,6) in \<open>auto split: if_splits\<close>)
  moreover have "card (younger name (inserted_at e) (entries c1)) + length (filter is_store ps) < max_entries c1"
    using card_younger_op [OF c1(1) Cons.prems(2), of name "inserted_at e"] Cons.prems(6) keep(3)
    by (auto split: if_splits)
  ultimately show ?case using Cons.IH [OF c1(2) keep(1)] Cons.prems(3,5) by simp
qed simp

section \<open>Resolution\<close>

lemma addr_to_socket_literal [simp]:
  "addr_to_socket r V4 a p c =
     (if length a \<noteq> 4 then Raise Ek_InvalidInput else Done [SocketAddrV4 (from_be_bytes a) p], c)"
  "addr_to_socket r V6 a p c =
     (if length a \<noteq> 16 then Raise Ek_InvalidInput
      else Done [SocketAddrV6 (from_be_bytes a) p 0 0], c)"
  by (simp_all add: addr_to_socket_def)

text \<open>The address the wire form of a socket address resolves to (flow label and scope are lost).\<close>

lemma addr_to_socket_octets:
  "addr_to_socket r (sock_addr_type a) (sock_octets a) (sock_port a) c =
     (Done [socket_addr_new (sock_ip a) (sock_port a)], c)"
  by (cases a) (simp_all add: from_to_be_bytes)

text \<open>The ways a resolution through a cache goes: a hit, a miss and an answer, a miss and none.\<close>

lemma addr_to_socket_cases:
  assumes "addr_to_socket r DomainName a p (Some c) = (q, d)"
    and get: "dns_get (asked_at r) (domain_key a p) (others_before r c) = (hit, c1)"
  obtains (hit) addrs where "hit = Some addrs" "q = Done addrs" "d = Some c1"
    | (stored) addrs c2 where "hit = None" "lookup_host r (domain_key a p) = Done addrs" "q = Done addrs"
        "dns_insert (answered_at r) (domain_key a p) addrs (others_during r c1) = Some c2" "d = Some c2"
    | (overflow) addrs where "hit = None" "lookup_host r (domain_key a p) = Done addrs" "q = Panicked"
        "dns_insert (answered_at r) (domain_key a p) addrs (others_during r c1) = None" "d = Some (others_during r c1)"
    | (failed) "hit = None" "\<forall>addrs. q \<noteq> Done addrs" "lookup_host r (domain_key a p) = q" "d = Some (others_during r c1)"
proof (cases hit)
  case (Some addrs)
  then show thesis using assms hit by (auto simp: addr_to_socket_def)
next
  case None
  show thesis
  proof (cases "lookup_host r (domain_key a p)")
    case (Done addrs)
    show thesis
    proof (cases "dns_insert (answered_at r) (domain_key a p) addrs (others_during r c1)")
      case None
      show thesis by (rule overflow [OF _ Done _ None]) (use assms None \<open>hit = None\<close> Done in \<open>simp_all add: addr_to_socket_def\<close>)
    next
      case (Some c2)
      show thesis by (rule stored [OF _ Done _ Some]) (use assms Some \<open>hit = None\<close> Done in \<open>simp_all add: addr_to_socket_def\<close>)
    qed
  qed (rule failed; use assms None in \<open>auto simp: addr_to_socket_def\<close>)+
qed

text \<open>
  A property of answers that the resolver and the cache have, and that the other connections keep,
  the answers served have too.
\<close>

definition stores :: "(bytes \<Rightarrow> socket_addr list \<Rightarrow> bool) \<Rightarrow> dns_cache \<Rightarrow> bool" where
  "stores P c \<longleftrightarrow> cache_inv c \<and> (\<forall>t n b. live c t n = Some b \<longrightarrow> P n b)"

lemma stores_get:
  assumes "stores P c" "dns_get now n c = (hit, c')"
  shows "stores P c'" "\<And>b. hit = Some b \<Longrightarrow> P n b"
proof -
  show "stores P c'"
    using dns.get_sound(1,3) [of c P now n hit c'] assms unfolding stores_def by blast
  show "P n b" if "hit = Some b" for b
    using dns.get_sound(2) [of c P now n hit c' b] assms that unfolding stores_def by blast
qed

lemma stores_insert:
  assumes "stores P c" "P n addrs" "dns_insert now n addrs c = Some c'"
  shows "stores P c'"
  using dns.insert_sound [of c P n addrs now c'] assms unfolding stores_def by blast

lemma addr_to_socket_cached:
  assumes stored: "stores P c" and fresh: "\<And>n b. lookup_host r n = Done b \<Longrightarrow> P n b"
    and others: "\<And>c. stores P c \<Longrightarrow> stores P (others_before r c) \<and> stores P (others_during r c)"
    and run: "addr_to_socket r DomainName addr port (Some c) = (q, d)"
  shows "(\<forall>addrs. q = Done addrs \<longrightarrow> P (domain_key addr port) addrs) \<and> (\<exists>c'. d = Some c' \<and> stores P c')"
proof -
  obtain hit c1 where get: "dns_get (asked_at r) (domain_key addr port) (others_before r c) = (hit, c1)"
    by (rule prod.exhaust)
  note g = stores_get [OF conjunct1 [OF others [OF stored]] get]
  note later = conjunct2 [OF others [OF g(1)]]
  from run get show ?thesis
  proof (cases rule: addr_to_socket_cases)
    case (stored addrs c2)
    with stores_insert [OF later fresh [OF stored(2)] stored(4)] fresh show ?thesis by auto
  qed (use g later in auto)
qed

text \<open>
  What a resolution does to the cache is a sequence of cache steps, if it is for the other
  connections, and it panics only where the expiry time of a new entry is not representable.
\<close>

definition cached :: "dns_cache option \<Rightarrow> dns_cache option \<Rightarrow> bool" where
  "cached = rel_option cache_step\<^sup>*\<^sup>*"

lemma cached_refl [simp, intro]: "cached d d"
  by (cases d) (auto simp: cached_def)

lemma cached_step [intro]: "cache_step c c' \<Longrightarrow> cached (Some c) (Some c')"
  by (auto simp: cached_def)

lemma cached_trans: "cached d e \<Longrightarrow> cached e f \<Longrightarrow> cached d f"
  by (cases d; cases e; cases f) (auto simp: cached_def)

lemma dns_insert_panics_iff:
  "dns_insert now name addrs c = None \<longleftrightarrow> addrs \<noteq> [] \<and> now + ttl c > INSTANT_MAX"
  by (simp add: dns_insert_def Let_def keep_simps)

definition cooperative :: "resolution \<Rightarrow> bool" where
  "cooperative r \<longleftrightarrow> (\<forall>c. cache_step\<^sup>*\<^sup>* c (others_before r c) \<and> cache_step\<^sup>*\<^sup>* c (others_during r c))"

lemma cache_steps_ttl: "cache_step\<^sup>*\<^sup>* c c' \<Longrightarrow> ttl c' = ttl c"
  by (induction rule: rtranclp_induct) (auto dest: cache_step_config)

lemma cooperative_ttl:
  "cooperative r \<Longrightarrow> ttl (others_before r c) = ttl c" "cooperative r \<Longrightarrow> ttl (others_during r c) = ttl c"
  by (simp_all add: cooperative_def cache_steps_ttl)

lemma addr_to_socket_steps:
  assumes "addr_to_socket r t a p d = (q, d')" "cooperative r"
  shows "cached d d' \<and> (q = Panicked \<longrightarrow> t = DomainName \<and>
    (lookup_host r (domain_key a p) = Panicked \<or> (\<exists>c. d = Some c \<and> answered_at r + ttl c > INSTANT_MAX)))"
proof (cases "t = DomainName \<and> d \<noteq> None")
  case True
  then obtain c where d: "d = Some c" and t: "t = DomainName" by auto
  obtain hit c1 where get: "dns_get (asked_at r) (domain_key a p) (others_before r c) = (hit, c1)"
    by (rule prod.exhaust)
  have c1: "cache_step\<^sup>*\<^sup>* c c1"
    using assms(2) get_step [of "others_before r c" "asked_at r" "domain_key a p"] get
    by (auto simp: cooperative_def intro: rtranclp.rtrancl_into_rtrancl)
  then have c2: "cache_step\<^sup>*\<^sup>* c (others_during r c1)"
    using assms(2) by (auto simp: cooperative_def intro: rtranclp_trans)
  from assms(1) [unfolded d t] get show ?thesis
  proof (cases rule: addr_to_socket_cases)
    case (stored addrs c3)
    with c2 insert_step [OF stored(4)] show ?thesis
      by (auto simp: d cached_def intro: rtranclp.rtrancl_into_rtrancl)
  qed (use c1 c2 cache_steps_ttl [OF c2] t in \<open>auto simp: d cached_def dns_insert_panics_iff\<close>)
next
  case False
  with assms show ?thesis
    by (cases t; cases "lookup_host r (domain_key a p)") (auto simp: addr_to_socket_def split: if_splits)
qed

lemma cached_ttl: "cached d d' \<Longrightarrow> map_option ttl d' = map_option ttl d"
  by (cases d; cases d') (auto simp: cached_def dest: cache_steps_ttl)

section \<open>Properties\<close>

text \<open>
  In every history of lookups and insertions, whatever order the hash map iterates in, the cache
  holds at most its configured number of entries, one per name, each with at least one address
  and an expiry exactly one lifetime after its insertion.
\<close>

lemma dns_cache_bounded:
  assumes "cache_step\<^sup>*\<^sup>* (dns_new lifetime cap) c"
  shows "length (entries c) \<le> max cap 1 \<and> distinct (map fst (entries c)) \<and>
    (\<forall>(n, e)\<in>set (entries c). ce_addrs e \<noteq> [] \<and> expires_at e = inserted_at e + lifetime)"
  using cache_reach_inv [OF assms] cache_reach_config [OF assms]
  by (auto simp: cache_inv_def entry_ok_def)

text \<open>
  C24. An answer stored at time \<open>now\<close> in a cache of older entries is served for the name at every time
  before \<open>now\<close> plus the lifetime, as often as it is asked for, whatever is looked up meanwhile and
  however the hash map reorders its entries, as long as fewer names are stored meanwhile than the
  cache has room for; no other answer is served until the name is stored again, and none at all
  once the lifetime is over.
\<close>

theorem dns_cache_fresh:
  assumes "cache_inv c" "\<forall>(n, e)\<in>set (entries c). inserted_at e < now"
    and "dns_insert now name addrs c = Some c0" "addrs \<noteq> []"
    and "apply_ops ps c0 = Some c1" "\<forall>p\<in>set ps. leaves name t p"
  shows "(t < now + ttl c \<longrightarrow> fst (dns_get t name c1) \<in> {None, Some addrs}) \<and>
    (t < now + ttl c \<longrightarrow> length (filter is_store ps) < max_entries c \<longrightarrow> fst (dns_get t name c1) = Some addrs) \<and>
    (now + ttl c \<le> t \<longrightarrow> fst (dns_get t name c1) = None)"
proof -
  define e where "e = \<lparr>ce_addrs = addrs, expires_at = now + ttl c, inserted_at = now\<rparr>"
  note c0 = dns_insert_Some [OF assms(3,4), THEN conjunct1, folded e_def]
  have inv: "cache_inv c0" using assms(1,3) by (rule dns_insert_inv)
  have at: "map_of (entries c0) name = Some e" by (simp add: c0 map_of_update)
  have "younger name now (entries c0) = {}"
    using set_update_subset [of name e "entries (make_room now c)"] make_room_inv(2) [OF assms(1), of now] assms(2)
    by (fastforce simp: younger_def c0)
  then have "card (younger name (inserted_at e) (entries c0)) = 0" by (simp add: e_def)
  moreover have "max_entries c0 = max_entries c" by (simp add: c0 keep_simps)
  ultimately show ?thesis
    using apply_ops_entry [OF assms(5) inv assms(6), of e] apply_ops_survives [OF assms(5) inv assms(6) at] at
    by (auto simp: dns_get_fst live_def e_def)
qed

text \<open>The example: the name is asked for twice and another one is stored in between.\<close>

definition demo_ops :: "cache_op list" where
  "demo_ops = [Lookup 5 [97], Store 6 [98] [SocketAddrV4 2 80], Lookup 7 [97], Lookup 7 [99]]"

theorem dns_cache_fresh_witness:
  "\<exists>c0 c1. dns_insert 3 [97] [SocketAddrV4 1 80] (dns_new 10 2) = Some c0 \<and> apply_ops demo_ops c0 = Some c1 \<and>
    fst (dns_get 12 [97] c1) = Some [SocketAddrV4 1 80] \<and> fst (dns_get 13 [97] c1) = None"
proof -
  define c0 where "c0 = the (dns_insert 3 [97] [SocketAddrV4 1 80] (dns_new 10 2))"
  have c0: "dns_insert 3 [97] [SocketAddrV4 1 80] (dns_new 10 2) = Some c0"
    by (simp add: c0_def dns_insert_def dns_new_def make_room_def INSTANT_MAX_def)
  have c1: "\<exists>c1. apply_ops demo_ops c0 = Some c1"
    by (simp add: c0_def demo_ops_def dns_get_def dns_insert_def dns_new_def make_room_def INSTANT_MAX_def)
  then obtain c1 where c1: "apply_ops demo_ops c0 = Some c1" by blast
  have "\<forall>p\<in>set demo_ops. leaves [97] t p" if "7 \<le> t" for t using that by (simp add: demo_ops_def)
  from dns_cache_fresh [OF dns_new_inv _ c0 _ c1 this [of 12]] dns_cache_fresh [OF dns_new_inv _ c0 _ c1 this [of 13]] c0 c1
  show ?thesis by (auto simp: dns_new_def demo_ops_def)
qed

text \<open>
  C25. Eviction is sparing: inserting a name disturbs at most one other live name, and that one only when
  the cache is full of entries that are all still live and none of them was inserted before it.
\<close>

theorem dns_cache_eviction:
  assumes "cache_inv c" "dns_insert now name addrs c = Some c'"
  shows "\<exists>victim. \<forall>m as. m \<noteq> name \<longrightarrow> live c now m = Some as \<longrightarrow>
    (\<forall>t\<ge>now. live c' t m = live c t m) \<or>
    (m = victim \<and> length (entries c) = max_entries c \<and>
     (\<exists>e. (m, e) \<in> set (entries c) \<and>
       (\<forall>(n, e')\<in>set (entries c). now < expires_at e' \<and> inserted_at e \<le> inserted_at e')))"
proof (intro exI [of _ "the (oldest (entries c))"] allI impI)
  fix m as
  assume m: "m \<noteq> name" "live c now m = Some as"
  then obtain e where e: "map_of (entries c) m = Some e" "now < expires_at e"
    by (auto simp: live_def split: option.splits if_splits)
  from dns_insert_keeps [OF assms m(1) this] e map_of_SomeD [OF e(1)]
  show "(\<forall>t\<ge>now. live c' t m = live c t m) \<or>
    (m = the (oldest (entries c)) \<and> length (entries c) = max_entries c \<and>
     (\<exists>e. (m, e) \<in> set (entries c) \<and>
       (\<forall>(n, e')\<in>set (entries c). now < expires_at e' \<and> inserted_at e \<le> inserted_at e')))"
    by (auto simp: live_def)
qed

text \<open>The example: a full cache, whose younger entry stays.\<close>

definition full_cache :: dns_cache where
  "full_cache =
     (dns_new 10 2)\<lparr>entries :=
       [([98], \<lparr>ce_addrs = [SocketAddrV4 2 80], expires_at = 14, inserted_at = 4\<rparr>),
        ([97], \<lparr>ce_addrs = [SocketAddrV4 1 80], expires_at = 13, inserted_at = 3\<rparr>)]\<rparr>"

theorem dns_cache_eviction_witness:
  "\<exists>c'. dns_insert 5 [99] [SocketAddrV4 3 80] full_cache = Some c' \<and>
    live full_cache 5 [98] = Some [SocketAddrV4 2 80] \<and> live c' 6 [98] = Some [SocketAddrV4 2 80]"
proof -
  have inv: "cache_inv full_cache" by (simp add: full_cache_def cache_inv_def entry_ok_def dns_new_def)
  obtain c' where c': "dns_insert 5 [99] [SocketAddrV4 3 80] full_cache = Some c'"
    using dns_insert_total [of 5 full_cache] by (auto simp: full_cache_def dns_new_def INSTANT_MAX_def)
  have l: "live full_cache 5 [98] = Some [SocketAddrV4 2 80]" "live full_cache 6 [98] = Some [SocketAddrV4 2 80]"
    by (simp_all add: full_cache_def live_def)
  from dns_cache_eviction [OF inv c'] obtain victim where
    "\<forall>m as. m \<noteq> [99] \<longrightarrow> live full_cache 5 m = Some as \<longrightarrow> (\<forall>t\<ge>5. live c' t m = live full_cache t m) \<or>
      (m = victim \<and> length (entries full_cache) = max_entries full_cache \<and>
       (\<exists>e. (m, e) \<in> set (entries full_cache) \<and>
         (\<forall>(n, e')\<in>set (entries full_cache). 5 < expires_at e' \<and> inserted_at e \<le> inserted_at e')))" by blast
  from this [rule_format, of "[98]" "[SocketAddrV4 2 80]"] l(1) have "\<forall>t\<ge>5. live c' t [98] = live full_cache t [98]"
    by (simp add: full_cache_def)
  with c' l show ?thesis by simp
qed

text \<open>
  C26. Resolution hands out only answers the resolver gave for that very name and port, however other
  connections use the cache meanwhile: any property that relates names to the resolver's answers and
  holds of what the cache stores holds of the addresses returned, and still holds of the cache
  afterwards, whatever the outcome, as long as the other connections keep it too.
\<close>

theorem addr_to_socket_sound:
  assumes "stores P c" and "\<forall>n b. lookup_host r n = Done b \<longrightarrow> P n b"
    and "\<forall>c. stores P c \<longrightarrow> stores P (others_before r c) \<and> stores P (others_during r c)"
    and "addr_to_socket r DomainName addr port (Some c) = (q, d)"
  shows "(\<forall>addrs. q = Done addrs \<longrightarrow> P (domain_key addr port) addrs) \<and> (\<exists>c'. d = Some c' \<and> stores P c')"
  using addr_to_socket_cached [of P c r addr port q d] assms by blast

text \<open>The example: while one connection waits for the resolver, another one stores the same name.\<close>

definition demo_resolution :: resolution where
  "demo_resolution =
     \<lparr>lookup_host = (\<lambda>n. Done [SocketAddrV4 1 80]), asked_at = 3, answered_at = 5, others_before = id,
      others_during = (\<lambda>c. case dns_insert 4 (domain_key [97] 80) [SocketAddrV4 1 80] c of None \<Rightarrow> c | Some c' \<Rightarrow> c')\<rparr>"

theorem addr_to_socket_sound_witness:
  "\<exists>addrs d. addr_to_socket demo_resolution DomainName [97] 80 (Some (dns_new 10 5)) = (Done addrs, d) \<and>
     addrs = [SocketAddrV4 1 80]"
proof -
  let ?P = "\<lambda>n b. b = [SocketAddrV4 1 80]"
  have start: "stores ?P (dns_new 10 5)" by (simp add: stores_def live_def dns_new_inv) (simp add: dns_new_def)
  have others: "stores ?P (others_before demo_resolution c) \<and> stores ?P (others_during demo_resolution c)"
    if "stores ?P c" for c
    using that stores_insert [of ?P c "domain_key [97] 80" "[SocketAddrV4 1 80]" 4]
    by (auto simp: demo_resolution_def split: option.splits)
  obtain q d where run: "addr_to_socket demo_resolution DomainName [97] 80 (Some (dns_new 10 5)) = (q, d)"
    by (rule prod.exhaust)
  let ?c1 = "(dns_new 10 5)\<lparr>misses := 1\<rparr>"
  have get: "dns_get (asked_at demo_resolution) (domain_key [97] 80) (others_before demo_resolution (dns_new 10 5)) = (None, ?c1)"
    by (simp add: dns_get_def dns_new_def demo_resolution_def)
  have "ttl (others_during demo_resolution ?c1) = 10"
    using cache_step_config [OF insert_step] by (auto simp: demo_resolution_def dns_new_def split: option.splits)
  from run get have "\<exists>addrs. q = Done addrs"
  proof (cases rule: addr_to_socket_cases)
    case (overflow addrs)
    then show ?thesis
      using \<open>ttl _ = 10\<close> by (simp add: dns_insert_panics_iff INSTANT_MAX_def) (simp add: demo_resolution_def)
  next
    case failed
    then have "lookup_host demo_resolution (domain_key [97] 80) = q" by simp
    then show ?thesis by (auto simp: demo_resolution_def)
  qed auto
  moreover have "\<forall>addrs. q = Done addrs \<longrightarrow> addrs = [SocketAddrV4 1 80]"
  proof -
    have "\<forall>n b. lookup_host demo_resolution n = Done b \<longrightarrow> b = [SocketAddrV4 1 80]" by (simp add: demo_resolution_def)
    from addr_to_socket_sound [of ?P, OF start this _ run] others show ?thesis by blast
  qed
  ultimately show ?thesis using run by auto
qed

end
