(* ===== verification/Stats.thy ===== *)
theory Stats
  imports Dns_Cache Slots "HOL-Library.Product_Lexorder"
begin

text \<open>
  The statistics core of \<open>src/stats.rs\<close>: the counters with their \<open>note_*\<close> operations, the
  registry of live clients with \<open>begin_client\<close> and the guard's \<open>Drop\<close>, and the views
  \<open>clients\<close> and \<open>snapshot\<close>. Counters are atomics, which wrap: 64-bit words. The hash maps are
  association lists with distinct keys; every view sorts them by a key that is unique, so the
  iteration order does not show. The byte counters a relay shares with its client row are the
  fields of the row. The DNS cache the server registers is shared by reference: \<open>snapshot\<close> takes
  its current value.
\<close>

section \<open>Definitions\<close>

record client_record =
  peer :: socket_addr
  local_end :: "socket_addr option"
  started_at :: nat
  command :: "bytes option"
  bytes_up :: u64
  bytes_down :: u64

record stats =
  server_started_at :: nat
  started_at_unix :: nat
  listeners :: "bytes list"
  active :: u64
  active_per_ip :: "(ip_addr \<times> u64) list"
  accepted_total :: u64
  refused_per_ip_total :: u64
  handshake_timeouts :: u64
  auth_failures :: u64
  disconnects :: u64
  requests_connect :: u64
  requests_bind :: u64
  requests_udp_associate :: u64
  udp_datagrams :: u64
  bytes_client_to_target :: u64
  bytes_target_to_client :: u64
  errors_by_code :: "(u8 \<times> u64) list"
  dns_registered :: bool
  client_rows :: "(u64 \<times> client_record) list"
  next_client_id :: u64

record active_guard =
  guard_ip :: ip_addr
  guard_id :: u64

definition stats_new :: "nat \<Rightarrow> nat \<Rightarrow> stats" where
  "stats_new now unix =
     \<lparr>server_started_at = now, started_at_unix = unix, listeners = [], active = 0,
      active_per_ip = [], accepted_total = 0, refused_per_ip_total = 0, handshake_timeouts = 0,
      auth_failures = 0, disconnects = 0, requests_connect = 0, requests_bind = 0,
      requests_udp_associate = 0, udp_datagrams = 0, bytes_client_to_target = 0,
      bytes_target_to_client = 0, errors_by_code = [], dns_registered = False,
      client_rows = [], next_client_id = 0\<rparr>"

text \<open>\<open>*map.entry(k).or_insert(0) += 1\<close>.\<close>

definition bump :: "'k \<Rightarrow> ('k \<times> u64) list \<Rightarrow> ('k \<times> u64) list" where
  "bump k m = AList.update k ((case map_of m k of Some c \<Rightarrow> c | None \<Rightarrow> 0) + 1) m"

definition note_listeners :: "socket_addr list \<Rightarrow> stats \<Rightarrow> stats" where
  "note_listeners addrs s = s\<lparr>listeners := listeners s @ map display_socket_addr addrs\<rparr>"

definition register_dns :: "stats \<Rightarrow> stats" where
  "register_dns s = s\<lparr>dns_registered := True\<rparr>"

definition note_accepted :: "stats \<Rightarrow> stats" where
  "note_accepted s = s\<lparr>accepted_total := accepted_total s + 1\<rparr>"

definition note_refused_per_ip :: "stats \<Rightarrow> stats" where
  "note_refused_per_ip s = s\<lparr>refused_per_ip_total := refused_per_ip_total s + 1\<rparr>"

definition note_handshake_timeout :: "stats \<Rightarrow> stats" where
  "note_handshake_timeout s = s\<lparr>handshake_timeouts := handshake_timeouts s + 1\<rparr>"

definition note_auth_failure :: "stats \<Rightarrow> stats" where
  "note_auth_failure s = s\<lparr>auth_failures := auth_failures s + 1\<rparr>"

definition note_disconnect :: "stats \<Rightarrow> stats" where
  "note_disconnect s = s\<lparr>disconnects := disconnects s + 1\<rparr>"

definition update_client :: "u64 \<Rightarrow> (client_record \<Rightarrow> client_record) \<Rightarrow> stats \<Rightarrow> stats" where
  "update_client i f s =
     (case map_of (client_rows s) i of
        Some r \<Rightarrow> s\<lparr>client_rows := AList.update i (f r) (client_rows s)\<rparr>
      | None \<Rightarrow> s)"

fun command_label :: "sock_command \<Rightarrow> bytes" where
  "command_label Connect = ascii ''connect''"
| "command_label Bind = ascii ''bind''"
| "command_label UdpAssosiate = ascii ''udp_associate''"

fun count_request :: "sock_command \<Rightarrow> stats \<Rightarrow> stats" where
  "count_request Connect s = s\<lparr>requests_connect := requests_connect s + 1\<rparr>"
| "count_request Bind s = s\<lparr>requests_bind := requests_bind s + 1\<rparr>"
| "count_request UdpAssosiate s = s\<lparr>requests_udp_associate := requests_udp_associate s + 1\<rparr>"

definition note_request :: "u64 option \<Rightarrow> sock_command \<Rightarrow> stats \<Rightarrow> stats" where
  "note_request client_id cmd s =
     (let s' = count_request cmd s in
      case client_id of
        Some i \<Rightarrow> update_client i (\<lambda>r. r\<lparr>command := Some (command_label cmd)\<rparr>) s'
      | None \<Rightarrow> s')"

definition note_relay :: "u64 \<Rightarrow> u64 \<Rightarrow> stats \<Rightarrow> stats" where
  "note_relay up down s =
     s\<lparr>bytes_client_to_target := bytes_client_to_target s + up,
       bytes_target_to_client := bytes_target_to_client s + down\<rparr>"

definition note_udp_datagram :: "u64 \<Rightarrow> stats \<Rightarrow> stats" where
  "note_udp_datagram n s =
     s\<lparr>udp_datagrams := udp_datagrams s + 1,
       bytes_client_to_target := bytes_client_to_target s + n\<rparr>"

definition note_udp_reply :: "u64 \<Rightarrow> stats \<Rightarrow> stats" where
  "note_udp_reply n s = s\<lparr>bytes_target_to_client := bytes_target_to_client s + n\<rparr>"

definition note_error :: "u8 \<Rightarrow> stats \<Rightarrow> stats" where
  "note_error code s = s\<lparr>errors_by_code := bump code (errors_by_code s)\<rparr>"

text \<open>Storing into the byte counters of a live row (\<open>relay_counters\<close>).\<close>

definition store_counters :: "u64 \<Rightarrow> u64 \<Rightarrow> u64 \<Rightarrow> stats \<Rightarrow> stats" where
  "store_counters i up down = update_client i (\<lambda>r. r\<lparr>bytes_up := up, bytes_down := down\<rparr>)"

definition begin_client ::
  "nat \<Rightarrow> socket_addr \<Rightarrow> socket_addr option \<Rightarrow> stats \<Rightarrow> active_guard \<times> stats" where
  "begin_client now p l s =
     (let i = next_client_id s;
          row = \<lparr>peer = p, local_end = l, started_at = now, command = None,
                 bytes_up = 0, bytes_down = 0\<rparr>
      in (\<lparr>guard_ip = sock_ip p, guard_id = i\<rparr>,
          s\<lparr>next_client_id := i + 1,
            client_rows := AList.update i row (client_rows s),
            active := active s + 1,
            active_per_ip := bump (sock_ip p) (active_per_ip s)\<rparr>))"

definition drop_guard :: "active_guard \<Rightarrow> stats \<Rightarrow> stats" where
  "drop_guard g s =
     s\<lparr>active := active s - 1,
       active_per_ip :=
         (case map_of (active_per_ip s) (guard_ip g) of
            Some c \<Rightarrow>
              if c \<le> 1 then AList.delete (guard_ip g) (active_per_ip s)
              else AList.update (guard_ip g) (c - 1) (active_per_ip s)
          | None \<Rightarrow> active_per_ip s),
       client_rows := AList.delete (guard_id g) (client_rows s)\<rparr>"

subsection \<open>Views\<close>

record client_view =
  cv_id :: u64
  cv_peer :: socket_addr
  cv_local :: "socket_addr option"
  elapsed_secs :: nat
  cv_state :: bytes
  cv_command :: "bytes option"
  cv_client_to_target :: u64
  cv_target_to_client :: u64

definition clients_view :: "nat \<Rightarrow> stats \<Rightarrow> client_view list" where
  "clients_view now s =
     sort_key cv_id
       (map (\<lambda>(i, r). \<lparr>cv_id = i, cv_peer = peer r, cv_local = local_end r,
               elapsed_secs = (now - started_at r) div 10 ^ 9,
               cv_state = (if command r \<noteq> None then ascii ''relaying'' else ascii ''negotiating''),
               cv_command = command r,
               cv_client_to_target = bytes_up r, cv_target_to_client = bytes_down r\<rparr>)
          (client_rows s))"

definition code_name :: "u8 \<Rightarrow> bytes" where
  "code_name code =
     (if code = code_byte Success then ascii ''success''
      else if code = code_byte Failure then ascii ''failure''
      else if code = code_byte RuleFailure then ascii ''rule_failure''
      else if code = code_byte NetworkUnreachable then ascii ''network_unreachable''
      else if code = code_byte HostUnreachable then ascii ''host_unreachable''
      else if code = code_byte ConnectionRefused then ascii ''connection_refused''
      else if code = code_byte TtlExpired then ascii ''ttl_expired''
      else if code = code_byte CommandNotSupported then ascii ''command_not_supported''
      else if code = code_byte AddrTypeNotSupported then ascii ''addr_type_not_supported''
      else ascii ''unassigned'')"

record error_snapshot =
  es_code :: u8
  es_name :: bytes
  es_count :: u64

text \<open>Most frequent first, then by code.\<close>

definition errors_snapshot :: "stats \<Rightarrow> error_snapshot list" where
  "errors_snapshot s =
     sort_key (\<lambda>e. (- int (unat (es_count e)), es_code e))
       (map (\<lambda>(code, count). \<lparr>es_code = code, es_name = code_name code, es_count = count\<rparr>)
          (errors_by_code s))"

definition stats_dns_snapshot :: "nat \<Rightarrow> dns_cache \<Rightarrow> stats \<Rightarrow> dns_snapshot" where
  "stats_dns_snapshot now cache s =
     (if dns_registered s then dns_cache_snapshot now cache else dns_snapshot_disabled)"

record server_snapshot =
  sv_version :: bytes
  sv_uptime_secs :: nat
  sv_started_at_unix :: nat
  sv_listeners :: "bytes list"

record connections_snapshot =
  cn_active :: u64
  cn_active_per_ip :: "(ip_addr \<times> u64) list"
  cn_accepted_total :: u64
  cn_refused_per_ip_total :: u64
  cn_handshake_timeouts :: u64
  cn_auth_failures :: u64
  cn_disconnects :: u64

record requests_snapshot =
  rq_connect :: u64
  rq_bind :: u64
  rq_udp_associate :: u64

record traffic_snapshot =
  tr_client_to_target :: u64
  tr_target_to_client :: u64
  tr_udp_datagrams :: u64
  tr_requests :: requests_snapshot

record snapshot =
  sn_server :: server_snapshot
  sn_connections :: connections_snapshot
  sn_dns :: dns_snapshot
  sn_traffic :: traffic_snapshot
  sn_errors :: "error_snapshot list"

definition top_per_ip :: "stats \<Rightarrow> (ip_addr \<times> u64) list" where
  "top_per_ip s =
     take TOP_LIST_LEN (sort_key (\<lambda>(ip, count). (- int (unat count), ip)) (active_per_ip s))"

definition stats_snapshot :: "nat \<Rightarrow> dns_cache \<Rightarrow> stats \<Rightarrow> snapshot" where
  "stats_snapshot now cache s =
     \<lparr>sn_server = \<lparr>sv_version = ascii ''0.1.3'',
                   sv_uptime_secs = (now - server_started_at s) div 10 ^ 9,
                   sv_started_at_unix = started_at_unix s, sv_listeners = listeners s\<rparr>,
      sn_connections = \<lparr>cn_active = active s, cn_active_per_ip = top_per_ip s,
                        cn_accepted_total = accepted_total s,
                        cn_refused_per_ip_total = refused_per_ip_total s,
                        cn_handshake_timeouts = handshake_timeouts s,
                        cn_auth_failures = auth_failures s, cn_disconnects = disconnects s\<rparr>,
      sn_dns = stats_dns_snapshot now cache s,
      sn_traffic = \<lparr>tr_client_to_target = bytes_client_to_target s,
                    tr_target_to_client = bytes_target_to_client s,
                    tr_udp_datagrams = udp_datagrams s,
                    tr_requests = \<lparr>rq_connect = requests_connect s, rq_bind = requests_bind s,
                                   rq_udp_associate = requests_udp_associate s\<rparr>\<rparr>,
      sn_errors = errors_snapshot s\<rparr>"

section \<open>Registration balance\<close>

text \<open>
  The operations other than \<open>begin_client\<close> that running connections interleave on the shared
  statistics, and one operation of a run: a registration hands out a guard, any other does not.
\<close>

datatype stats_op =
    OpBegin nat socket_addr "socket_addr option"
  | OpListeners "socket_addr list"
  | OpRegisterDns
  | OpAccepted
  | OpRefusedPerIp
  | OpHandshakeTimeout
  | OpAuthFailure
  | OpDisconnect
  | OpRequest "u64 option" sock_command
  | OpRelay u64 u64
  | OpUdpDatagram u64
  | OpUdpReply u64
  | OpError u8
  | OpStore u64 u64 u64

fun run_op :: "stats_op \<Rightarrow> stats \<Rightarrow> active_guard option \<times> stats" where
  "run_op (OpBegin now p l) s = (case begin_client now p l s of (g, s') \<Rightarrow> (Some g, s'))"
| "run_op (OpListeners as) s = (None, note_listeners as s)"
| "run_op OpRegisterDns s = (None, register_dns s)"
| "run_op OpAccepted s = (None, note_accepted s)"
| "run_op OpRefusedPerIp s = (None, note_refused_per_ip s)"
| "run_op OpHandshakeTimeout s = (None, note_handshake_timeout s)"
| "run_op OpAuthFailure s = (None, note_auth_failure s)"
| "run_op OpDisconnect s = (None, note_disconnect s)"
| "run_op (OpRequest i c) s = (None, note_request i c s)"
| "run_op (OpRelay u d) s = (None, note_relay u d s)"
| "run_op (OpUdpDatagram n) s = (None, note_udp_datagram n s)"
| "run_op (OpUdpReply n) s = (None, note_udp_reply n s)"
| "run_op (OpError c) s = (None, note_error c s)"
| "run_op (OpStore i u d) s = (None, store_counters i u d s)"

text \<open>The 64-bit connection ids have not run out.\<close>

definition ids_left :: "stats \<Rightarrow> bool" where
  "ids_left s \<longleftrightarrow> next_client_id s \<noteq> - 1"

abbreviation stats_reach :: "nat \<Rightarrow> nat \<Rightarrow> stats \<Rightarrow> active_guard multiset \<Rightarrow> bool" where
  "stats_reach now unix s guards \<equiv>
     slots_reach (\<lambda>s _. ids_left s) run_op drop_guard (stats_new now unix) s guards"

definition conns_of_ip :: "stats \<Rightarrow> ip_addr \<Rightarrow> nat" where
  "conns_of_ip s ip = (case map_of (active_per_ip s) ip of Some c \<Rightarrow> unat c | None \<Rightarrow> 0)"

definition per_ip_inv :: "stats \<Rightarrow> bool" where
  "per_ip_inv s \<longleftrightarrow>
     distinct (map fst (active_per_ip s)) \<and>
     (\<forall>ip c. map_of (active_per_ip s) ip = Some c \<longrightarrow> 0 < c \<and> c \<le> next_client_id s)"

definition rows_of_id :: "stats \<Rightarrow> u64 \<Rightarrow> nat" where
  "rows_of_id s i = (if i \<in> fst ` set (client_rows s) then 1 else 0)"

definition registry_inv :: "stats \<Rightarrow> bool" where
  "registry_inv s \<longleftrightarrow>
     distinct (map fst (client_rows s)) \<and>
     (\<forall>i \<in> fst ` set (client_rows s). i < next_client_id s) \<and>
     active s = of_nat (length (client_rows s))"

lemma ids_left_Suc: "ids_left s \<Longrightarrow> unat (next_client_id s + 1) = Suc (unat (next_client_id s))"
  using unat_Suc_of_less [of "next_client_id s" "- 1"] word_order.not_eq_extremum [of "next_client_id s"]
  by (simp add: ids_left_def)

text \<open>Operations that only note something leave the registry alone.\<close>

definition registry_view :: "stats \<Rightarrow> u64 list \<times> (ip_addr \<times> u64) list \<times> u64 \<times> u64" where
  "registry_view s = (map fst (client_rows s), active_per_ip s, active s, next_client_id s)"

lemma count_request_keeps [keep_simps]: "registry_view (count_request c s) = registry_view s"
  by (cases c) (simp_all add: registry_view_def)

lemma update_client_keeps [keep_simps]: "registry_view (update_client i f s) = registry_view s"
proof (cases "map_of (client_rows s) i")
  case (Some r)
  then have "i \<in> set (map fst (client_rows s))" by (metis domI dom_map_of_conv_image_fst set_map)
  with Some show ?thesis by (simp add: registry_view_def update_client_def update_keys)
qed (simp add: update_client_def)

lemma note_request_keeps [keep_simps]: "registry_view (note_request i c s) = registry_view s"
  by (simp add: note_request_def Let_def keep_simps split: option.splits)

lemma note_ops_keep: "run_op op s = (None, s') \<Longrightarrow> registry_view s' = registry_view s"
  by (cases op; clarsimp simp: note_request_keeps update_client_keeps store_counters_def begin_client_def Let_def;
      simp add: registry_view_def note_listeners_def register_dns_def note_accepted_def
      note_refused_per_ip_def note_handshake_timeout_def note_auth_failure_def note_disconnect_def
      note_relay_def note_udp_datagram_def note_udp_reply_def note_error_def)

lemma run_op_Some:
  "run_op op s = (Some g, s') \<longleftrightarrow>
     (\<exists>now p l. op = OpBegin now p l \<and> begin_client now p l s = (g, s'))"
  by (cases op) (auto split: prod.splits)

lemma map_of_bump:
  "map_of (bump k m) = (map_of m)(k \<mapsto> (case map_of m k of Some c \<Rightarrow> c | None \<Rightarrow> 0) + 1)"
  by (simp add: bump_def update_conv')

lemma distinct_bump [simp]: "distinct (map fst (bump k m)) = distinct (map fst m)"
  by (auto simp: bump_def update_keys)

lemma begin_client_per_ip:
  assumes inv: "per_ip_inv s" and room: "ids_left s" and b: "begin_client now p l s = (g, s')"
  shows "per_ip_inv s' \<and>
    conns_of_ip s' = (conns_of_ip s)(guard_ip g := Suc (conns_of_ip s (guard_ip g)))"
proof -
  let ?n = "next_client_id s" and ?c = "case map_of (active_per_ip s) (sock_ip p) of Some c \<Rightarrow> c | None \<Rightarrow> 0"
  from b have g: "guard_ip g = sock_ip p" and s': "active_per_ip s' = bump (sock_ip p) (active_per_ip s)"
    "next_client_id s' = ?n + 1"
    by (auto simp: begin_client_def Let_def)
  from inv have c: "?c \<le> ?n" by (auto simp: per_ip_inv_def split: option.splits)
  have Suc: "unat (?n + 1) = Suc (unat ?n)" by (rule ids_left_Suc [OF room])
  then have uc: "unat (?c + 1) = Suc (unat ?c)"
    using c unat_Suc_of_less [of ?c "?n + 1"] by (simp add: word_less_nat_alt word_le_nat_alt)
  from inv have le: "c \<le> ?n + 1" if "map_of (active_per_ip s) ip = Some c" for ip c
    using that Suc by (fastforce simp: per_ip_inv_def word_le_nat_alt)
  have "per_ip_inv s'"
    using inv c uc Suc le
    by (auto simp: per_ip_inv_def s' map_of_bump word_le_nat_alt word_less_nat_alt)
  moreover have "conns_of_ip s' = (conns_of_ip s)(guard_ip g := Suc (conns_of_ip s (guard_ip g)))"
    using uc by (auto simp: fun_eq_iff conns_of_ip_def s' g map_of_bump split: option.splits)
  ultimately show ?thesis ..
qed

lemma drop_guard_per_ip:
  fixes g :: active_guard
  assumes inv: "per_ip_inv s" and held: "0 < conns_of_ip s (guard_ip g)"
  shows "per_ip_inv (drop_guard g s) \<and>
    conns_of_ip (drop_guard g s) = (conns_of_ip s)(guard_ip g := conns_of_ip s (guard_ip g) - 1)"
proof -
  from held inv obtain c where c: "map_of (active_per_ip s) (guard_ip g) = Some c" "c \<noteq> 0"
    "c \<le> next_client_id s"
    by (cases "map_of (active_per_ip s) (guard_ip g)") (auto simp: conns_of_ip_def per_ip_inv_def)
  then have un: "unat (c - 1) = unat c - 1" by (intro unat_minus_one)
  have "c \<le> 1 \<longleftrightarrow> unat c = 1" using c(2) by (auto simp: word_le_nat_alt le_Suc_eq unat_eq_0)
  moreover have "c - 1 \<le> next_client_id s" using c(3) un by (simp add: word_le_nat_alt)
  ultimately have "\<forall>ip d. map_of (active_per_ip (drop_guard g s)) ip = Some d \<longrightarrow>
      0 < d \<and> d \<le> next_client_id s"
    and "conns_of_ip (drop_guard g s) = (conns_of_ip s)(guard_ip g := conns_of_ip s (guard_ip g) - 1)"
    using inv c un
    by (auto simp: drop_guard_def per_ip_inv_def conns_of_ip_def fun_eq_iff delete_conv'
        update_conv' word_gt_0 simp del: map_of_eq_Some_iff)
  moreover have "distinct (map fst (active_per_ip (drop_guard g s)))"
    using inv by (auto simp: drop_guard_def per_ip_inv_def distinct_delete update_keys
        split: option.splits)
  ultimately show ?thesis by (simp add: per_ip_inv_def drop_guard_def)
qed

lemma registry_view_eqD:
  assumes "registry_view s' = registry_view s"
  shows "active_per_ip s' = active_per_ip s" "next_client_id s' = next_client_id s"
    "active s' = active s" "map fst (client_rows s') = map fst (client_rows s)"
    "length (client_rows s') = length (client_rows s)"
    "fst ` set (client_rows s') = fst ` set (client_rows s)"
  using assms
  by (simp_all add: registry_view_def) (metis length_map, metis set_map)

interpretation per_ip_slots: slot_counter
  "\<lambda>s _. ids_left s" run_op drop_guard guard_ip conns_of_ip per_ip_inv
proof unfold_locales
  fix s op g s'
  assume "per_ip_inv s" "ids_left s" "run_op op s = (Some g, s')"
  then show "per_ip_inv s' \<and>
      conns_of_ip s' = (conns_of_ip s)(guard_ip g := Suc (conns_of_ip s (guard_ip g)))"
    using begin_client_per_ip by (auto simp: run_op_Some)
next
  fix s op s'
  assume "per_ip_inv s" "run_op op s = (None, s')"
  with registry_view_eqD [OF note_ops_keep [OF this(2)]]
  show "per_ip_inv s' \<and> conns_of_ip s' = conns_of_ip s"
    by (simp add: per_ip_inv_def conns_of_ip_def fun_eq_iff)
qed (rule drop_guard_per_ip)

lemma begin_client_ids:
  assumes inv: "registry_inv s" and b: "begin_client now p l s = (g, s')"
  shows "guard_id g \<notin> fst ` set (client_rows s)"
    "map fst (client_rows s') = map fst (client_rows s) @ [guard_id g]"
proof -
  from b have g: "guard_id g = next_client_id s"
    and s': "\<exists>row. client_rows s' = AList.update (guard_id g) row (client_rows s)"
    by (auto simp: begin_client_def Let_def)
  from inv show fresh: "guard_id g \<notin> fst ` set (client_rows s)" by (fastforce simp: registry_inv_def g)
  from s' fresh show "map fst (client_rows s') = map fst (client_rows s) @ [guard_id g]"
    by (auto simp: update_keys)
qed

lemma begin_client_registry:
  assumes inv: "registry_inv s" and room: "ids_left s" and b: "begin_client now p l s = (g, s')"
  shows "registry_inv s' \<and>
    rows_of_id s' = (rows_of_id s)(guard_id g := Suc (rows_of_id s (guard_id g)))"
proof -
  let ?n = "next_client_id s"
  from b have g: "guard_id g = ?n" and s': "next_client_id s' = ?n + 1" "active s' = active s + 1"
    by (auto simp: begin_client_def Let_def)
  note fresh = begin_client_ids(1) [OF inv b, unfolded g]
    and ids = begin_client_ids(2) [OF inv b, unfolded g]
  from ids have "fst ` set (client_rows s') = insert ?n (fst ` set (client_rows s))"
    "length (client_rows s') = Suc (length (client_rows s))"
    by (metis set_map list.simps(15) set_append empty_set Un_insert_right Un_empty_right,
        metis length_map length_append_singleton)
  moreover have "?n < ?n + 1" "\<And>i. i < ?n \<Longrightarrow> i < ?n + 1"
    using ids_left_Suc [OF room] by (simp_all add: word_less_nat_alt)
  ultimately show ?thesis
    using inv fresh ids by (auto simp: registry_inv_def rows_of_id_def g s' fun_eq_iff)
qed

lemma drop_guard_registry:
  fixes g :: active_guard
  assumes inv: "registry_inv s" and held: "0 < rows_of_id s (guard_id g)"
  shows "registry_inv (drop_guard g s) \<and>
    rows_of_id (drop_guard g s) = (rows_of_id s)(guard_id g := rows_of_id s (guard_id g) - 1)"
proof -
  let ?rows = "client_rows s"
  from held have mem: "guard_id g \<in> set (map fst ?rows)" by (auto simp: rows_of_id_def split: if_splits)
  then have ids: "map fst (AList.delete (guard_id g) ?rows) = remove1 (guard_id g) (map fst ?rows)"
    using inv by (simp add: delete_keys registry_inv_def distinct_remove1_removeAll removeAll_filter_not_eq)
  then have "Suc (length (AList.delete (guard_id g) ?rows)) = length ?rows"
    using mem by (metis One_nat_def Suc_pred length_map length_pos_if_in_set length_remove1)
  then have "of_nat (length ?rows) = 1 + (of_nat (length (AList.delete (guard_id g) ?rows)) :: u64)"
    by (metis of_nat_Suc add.commute)
  moreover from ids have "fst ` set (AList.delete (guard_id g) ?rows) = fst ` set ?rows - {guard_id g}"
    using inv by (metis registry_inv_def set_map set_remove1_eq)
  ultimately show ?thesis
    using inv by (auto simp: registry_inv_def drop_guard_def rows_of_id_def fun_eq_iff distinct_delete)
qed

interpretation registry_slots: slot_counter
  "\<lambda>s _. ids_left s" run_op drop_guard guard_id rows_of_id registry_inv
proof unfold_locales
  fix s op g s'
  assume "registry_inv s" "ids_left s" "run_op op s = (Some g, s')"
  then show "registry_inv s' \<and>
      rows_of_id s' = (rows_of_id s)(guard_id g := Suc (rows_of_id s (guard_id g)))"
    using begin_client_registry by (auto simp: run_op_Some)
next
  fix s op s'
  assume "registry_inv s" "run_op op s = (None, s')"
  with registry_view_eqD [OF note_ops_keep [OF this(2)]]
  show "registry_inv s' \<and> rows_of_id s' = rows_of_id s"
    by (simp add: registry_inv_def rows_of_id_def fun_eq_iff)
qed (rule drop_guard_registry)

lemma stats_new_invs:
  "per_ip_inv (stats_new now unix)" "registry_inv (stats_new now unix)"
  "conns_of_ip (stats_new now unix) = (\<lambda>_. 0)" "rows_of_id (stats_new now unix) = (\<lambda>_. 0)"
  by (simp_all add: stats_new_def per_ip_inv_def registry_inv_def conns_of_ip_def rows_of_id_def
      fun_eq_iff)

lemma stats_reach_ids:
  assumes "stats_reach now unix s guards"
  shows "mset (map fst (client_rows s)) = image_mset guard_id guards" "registry_inv s"
proof -
  from registry_slots.reach_held [OF assms stats_new_invs(2,4)]
  have inv: "registry_inv s"
    and rows: "rows_of_id s = (\<lambda>i. size (filter_mset (\<lambda>g. guard_id g = i) guards))" by auto
  have "count (mset (map fst (client_rows s))) i = rows_of_id s i" for i
    using inv by (auto simp: rows_of_id_def registry_inv_def distinct_count_atmost_1)
  moreover have "count (image_mset guard_id guards) i = rows_of_id s i" for i
    by (simp add: count_conv_size_mset filter_mset_image_mset rows)
  ultimately have "count (mset (map fst (client_rows s))) i = count (image_mset guard_id guards) i" for i
    by simp
  then show "mset (map fst (client_rows s)) = image_mset guard_id guards" by (rule multiset_eqI)
  show "registry_inv s" by (rule inv)
qed

section \<open>Properties\<close>

text \<open>
  Whatever operations connections interleave on the shared statistics, the live view is exact as
  long as connection ids last: the registry holds one row per live guard, the active count is their
  number, and a source address is listed, with the number of its connections, exactly while it has one.
\<close>

lemma stats_exact:
  assumes "stats_reach now unix s guards"
  shows "mset (map fst (client_rows s)) = image_mset guard_id guards \<and>
    active s = of_nat (size guards) \<and>
    conns_of_ip s ip = size (filter_mset (\<lambda>g. guard_ip g = ip) guards) \<and>
    (map_of (active_per_ip s) ip = None \<longleftrightarrow> (\<forall>g\<in>#guards. guard_ip g \<noteq> ip))"
proof -
  note ids = stats_reach_ids [OF assms]
  from ids(1) have "length (client_rows s) = size guards" by (metis length_map size_image_mset size_mset)
  with ids(2) have "active s = of_nat (size guards)" by (simp add: registry_inv_def)
  moreover from per_ip_slots.reach_held [OF assms stats_new_invs(1,3)]
  have inv: "per_ip_inv s" and conns: "conns_of_ip s ip = size (filter_mset (\<lambda>g. guard_ip g = ip) guards)" by auto
  moreover have "map_of (active_per_ip s) ip = None \<longleftrightarrow> conns_of_ip s ip = 0"
    using inv by (auto simp: per_ip_inv_def conns_of_ip_def word_gt_0 unat_eq_0 simp del: map_of_eq_Some_iff
        split: option.splits)
  ultimately show ?thesis using ids(1) by auto
qed

end
