(* ===== verification/Handshake.thy ===== *)
theory Handshake
  imports Credentials Stats
begin

text \<open>
  A client connection of \<open>src/lib.rs\<close> and its negotiation: \<open>SOCKClient\<close> with its constructors and
  setters, \<open>get_avalible_methods\<close>, \<open>auth\<close>, \<open>SOCKSReq::from_stream\<close> and \<open>negotiate\<close>.

  \<open>has_stats\<close> tells whether \<open>self.stats\<close> is set; the server's \<open>Stats\<close> object itself, which every
  handle of a connection points to, is the field \<open>shared\<close> of \<open>conn\<close>. \<open>relay_counters\<close> is the id of
  the client row whose byte counters the handles belong to. \<open>dns_cache\<close> holds the value of the shared
  cache. \<open>conn\<close> adds what the connection does to the rest of the network: the far end of its relay
  and the datagrams it sends. Log output is not modelled. Durations are milliseconds.
\<close>

section \<open>Definitions\<close>

record sock_client =
  stream :: stream
  auth_nmethods :: u8
  auth_methods :: bytes
  authed_users :: "user list"
  socks_version :: u8
  timeout :: "nat option"
  handshake_timeout :: nat
  local_addr :: "socket_addr option"
  replied :: bool
  cred_width :: nat
  dns_cache :: "dns_cache option"
  has_stats :: bool
  client_id :: "u64 option"
  relay_counters :: "u64 option"

record conn = sock_client +
  shared :: stats
  target :: "stream option"
  datagrams :: "(bytes \<times> socket_addr) list"

definition DEFAULT_HANDSHAKE_TIMEOUT :: nat where
  "DEFAULT_HANDSHAKE_TIMEOUT = 30 * 1000"

definition with_credential_width ::
  "stream \<Rightarrow> user list \<Rightarrow> bytes \<Rightarrow> nat option \<Rightarrow> nat \<Rightarrow> sock_client" where
  "with_credential_width s users methods tmo width =
     \<lparr>stream = s, auth_nmethods = 0, auth_methods = methods, authed_users = users,
      socks_version = 0, timeout = tmo, handshake_timeout = DEFAULT_HANDSHAKE_TIMEOUT,
      local_addr = None, replied = False, cred_width = width, dns_cache = None,
      has_stats = False, client_id = None, relay_counters = None\<rparr>"

definition sock_client_new :: "stream \<Rightarrow> user list \<Rightarrow> bytes \<Rightarrow> nat option \<Rightarrow> sock_client" where
  "sock_client_new s users methods tmo =
     with_credential_width s users methods tmo (credential_width users)"

definition new_no_auth :: "stream \<Rightarrow> nat option \<Rightarrow> sock_client" where
  "new_no_auth s tmo =
     \<lparr>stream = s, auth_nmethods = 0, auth_methods = [auth_byte NoAuth], authed_users = [],
      socks_version = 0, timeout = tmo, handshake_timeout = DEFAULT_HANDSHAKE_TIMEOUT,
      local_addr = None, replied = False, cred_width = 0, dns_cache = None,
      has_stats = False, client_id = None, relay_counters = None\<rparr>"

definition set_local_addr :: "socket_addr option \<Rightarrow> sock_client \<Rightarrow> sock_client" where
  "set_local_addr a c = c\<lparr>local_addr := a\<rparr>"

definition set_dns_cache :: "dns_cache \<Rightarrow> sock_client \<Rightarrow> sock_client" where
  "set_dns_cache d c = c\<lparr>dns_cache := Some d\<rparr>"

definition set_stats :: "sock_client \<Rightarrow> sock_client" where
  "set_stats c = c\<lparr>has_stats := True\<rparr>"

definition set_handshake_timeout :: "nat \<Rightarrow> sock_client \<Rightarrow> sock_client" where
  "set_handshake_timeout t c = c\<lparr>handshake_timeout := t\<rparr>"

text \<open>The connection of a client of a server whose statistics are \<open>st\<close>.\<close>

definition connection :: "sock_client \<Rightarrow> stats \<Rightarrow> conn" where
  "connection c st = sock_client.extend c \<lparr>shared = st, target = None, datagrams = []\<rparr>"

text \<open>An operation on the client's stream, with \<open>?\<close> turning its error into \<open>MerinoError::Io\<close>.\<close>

definition on_stream :: "(stream, 'e, 'a) async \<Rightarrow> (conn, 'e, 'a) async" where
  "on_stream m c = (case m (stream c) of (r, s) \<Rightarrow> (r, c\<lparr>stream := s\<rparr>))"

definition io :: "(stream, error_kind, 'a) async \<Rightarrow> (conn, merino_error, 'a) async" where
  "io m = map_error Io (on_stream m)"

text \<open>\<open>if let Some(stats) = self.stats.as_ref() { stats.note_...() }\<close>.\<close>

definition note_stats :: "(stats \<Rightarrow> stats) \<Rightarrow> conn \<Rightarrow> conn" where
  "note_stats f c = (if has_stats c then c\<lparr>shared := f (shared c)\<rparr> else c)"

definition client_authed :: "conn \<Rightarrow> bytes \<Rightarrow> bytes \<Rightarrow> bool" where
  "client_authed c = authed (authed_users c) (cred_width c)"

definition client_shutdown :: "(conn, error_kind, unit) async" where
  "client_shutdown = on_stream shutdown_stream"

fun read_methods :: "nat \<Rightarrow> bytes \<Rightarrow> (conn, error_kind, bytes) async" where
  "read_methods 0 methods = ret methods"
| "read_methods (Suc n) methods =
     bindA (on_stream (read_exact 1)) (\<lambda>m.
     bindA (get_state auth_methods) (\<lambda>allowed.
       read_methods n (if hd m \<in> set allowed then methods @ m else methods)))"

definition get_avalible_methods :: "(conn, error_kind, bytes) async" where
  "get_avalible_methods = bindA (get_state auth_nmethods) (\<lambda>n. read_methods (unat n) [])"

text \<open>The failure tail shared by a wrong sub-negotiation version and a rejected login.\<close>

definition refuse_login :: "(conn, merino_error, unit) async" where
  "refuse_login =
     bindA (modify (\<lambda>c. (note_stats note_auth_failure c)\<lparr>replied := True\<rparr>)) (\<lambda>_.
     bindA (io (write_all [1, code_byte Failure])) (\<lambda>_.
     bindA (io shutdown_stream) (\<lambda>_.
       throw (Socks Failure))))"

definition userpass_auth :: "(conn, merino_error, unit) async" where
  "userpass_auth =
     bindA (io (write_all [SOCKS_VERSION, auth_byte UserPass])) (\<lambda>_.
     bindA (io (read_exact 2)) (\<lambda>header.
     bindA (io (read_exact (unat (header ! 1)))) (\<lambda>uname.
     bindA (io (read_exact 1)) (\<lambda>plen.
     bindA (io (read_exact (unat (plen ! 0)))) (\<lambda>pw.
     case parse_userpass (header @ uname @ [plen ! 0] @ pw) of
       Inl e \<Rightarrow> throw e
     | Inr (parsed, _) \<Rightarrow>
         if up_version parsed \<noteq> 1 then refuse_login
         else
           bindA (get_state (\<lambda>c. client_authed c (up_username parsed) (up_password parsed))) (\<lambda>ok.
             if ok then bindA (io (write_all [1, code_byte Success])) (\<lambda>_. ret ())
             else refuse_login))))))"

definition auth :: "(conn, merino_error, unit) async" where
  "auth =
     bindA (map_error Io get_avalible_methods) (\<lambda>methods.
       if auth_byte UserPass \<in> set methods then userpass_auth
       else if auth_byte NoAuth \<in> set methods then
         bindA (io (write_all [SOCKS_VERSION, auth_byte NoAuth])) (\<lambda>_. ret ())
       else
         bindA (modify (note_stats note_auth_failure)) (\<lambda>_.
         bindA (io (write_all [SOCKS_VERSION, auth_byte NoMethods])) (\<lambda>_.
         bindA (io shutdown_stream) (\<lambda>_.
           throw (Socks Failure)))))"

text \<open>The variable part of a request: the bytes of the address field, as read.\<close>

fun read_addr :: "addr_type \<Rightarrow> (stream, merino_error, bytes) async" where
  "read_addr DomainName =
     bindA (map_error Io (read_exact 1)) (\<lambda>dlen.
     bindA (map_error Io (read_exact (unat (dlen ! 0)))) (\<lambda>domain.
       ret ([dlen ! 0] @ domain)))"
| "read_addr V4 = map_error Io (read_exact 4)"
| "read_addr V6 = map_error Io (read_exact 16)"

definition from_stream :: "(stream, merino_error, socks_req) async" where
  "from_stream =
     bindA (map_error Io (read_exact 4)) (\<lambda>header.
       if header ! 0 \<noteq> SOCKS_VERSION then throw (Socks Failure)
       else if sock_command_from (unat (header ! 1)) = None then throw (Socks CommandNotSupported)
       else
         case addr_type_from (unat (header ! 3)) of
           None \<Rightarrow> throw (Socks AddrTypeNotSupported)
         | Some t \<Rightarrow>
             bindA (read_addr t) (\<lambda>addr.
             bindA (map_error Io (read_exact 2)) (\<lambda>port.
               case parse_request (header @ addr @ port) of
                 Inl e \<Rightarrow> throw e
               | Inr (req, _) \<Rightarrow> ret req)))"

definition negotiate :: "(conn, merino_error, socks_req) async" where
  "negotiate =
     bindA (io (read_exact 2)) (\<lambda>header.
     bindA (modify (\<lambda>c. c\<lparr>socks_version := header ! 0, auth_nmethods := header ! 1\<rparr>)) (\<lambda>_.
       if header ! 0 = SOCKS_VERSION then bindA auth (\<lambda>_. on_stream from_stream)
       else
         bindA (map_error Io client_shutdown) (\<lambda>_. throw (Socks Failure))))"

section \<open>Lifting to the connection\<close>

lemma on_stream_Done_iff:
  "on_stream m c = (Done x, c') \<longleftrightarrow> (\<exists>s. m (stream c) = (Done x, s) \<and> c' = c\<lparr>stream := s\<rparr>)"
  by (auto simp: on_stream_def split: prod.splits)

lemma io_Done_iff:
  "io m c = (Done x, c') \<longleftrightarrow> (\<exists>s. m (stream c) = (Done x, s) \<and> c' = c\<lparr>stream := s\<rparr>)"
  by (simp add: io_def map_error_Done_iff on_stream_Done_iff)

lemma modify_Done_iff: "modify f c = (Done x, c') \<longleftrightarrow> c' = f c"
  by (auto simp: modify_def)

lemma get_state_Done_iff: "get_state f c = (Done x, c') \<longleftrightarrow> x = f c \<and> c' = c"
  by (auto simp: get_state_def)

lemmas conn_iffs = done_iffs on_stream_Done_iff io_Done_iff modify_Done_iff get_state_Done_iff
  read_exact_Done_iff

section \<open>Reading a request from the stream\<close>

lemma length_1_conv: "length xs = Suc 0 \<longleftrightarrow> (\<exists>x. xs = [x])"
  by (auto simp: length_Suc_conv)

lemma read_addr_Done_iff:
  "read_addr t s = (Done a, s') \<longleftrightarrow>
     (\<exists>x. wf_addr t x \<and> a = addr_frame t x) \<and> rx s = a @ rx s' \<and> s' = s\<lparr>rx := rx s'\<rparr>"
proof (cases t)
  case DomainName
  show ?thesis
  proof
    assume "read_addr t s = (Done a, s')"
    then obtain d x where "rx s = d # x @ rx s'" "length x = unat d" "a = d # x" "s' = s\<lparr>rx := rx s'\<rparr>"
      by (auto simp: DomainName conn_iffs length_1_conv)
    then show "(\<exists>x. wf_addr t x \<and> a = addr_frame t x) \<and> rx s = a @ rx s' \<and> s' = s\<lparr>rx := rx s'\<rparr>"
      by (auto simp: DomainName ucast_id)
  next
    assume "(\<exists>x. wf_addr t x \<and> a = addr_frame t x) \<and> rx s = a @ rx s' \<and> s' = s\<lparr>rx := rx s'\<rparr>"
    then show "read_addr t s = (Done a, s')"
      by (auto simp: DomainName conn_iffs length_1_conv intro!: exI [of _ "s\<lparr>rx := _\<rparr>"])
  qed
qed (auto simp: conn_iffs)

lemma from_stream_Done:
  assumes "from_stream s = (Done r, s')"
  shows "(\<exists>rsv. rx s = request_frame rsv r @ rx s') \<and> wf_request r \<and> req_version r = SOCKS_VERSION \<and>
    s' = s\<lparr>rx := rx s'\<rparr>"
proof -
  from assms obtain header addr port s1 s2 t n where h: "read_exact 4 s = (Done header, s1)"
    "header ! 0 = SOCKS_VERSION" "addr_type_from (unat (header ! 3)) = Some t"
    "read_addr t s1 = (Done addr, s2)" "read_exact 2 s2 = (Done port, s')"
    "parse_request (header @ addr @ port) = Inr (r, n)"
    by (auto simp: from_stream_def conn_iffs case_prod_beta)
  from h(1) obtain cb rsv ab where header: "header = [SOCKS_VERSION, cb, rsv, ab]"
    using h(2) by (auto simp: read_exact_Done_iff numeral_eq_Suc length_Suc_conv)
  from h(4) obtain x where x: "wf_addr t x" "addr = addr_frame t x" by (auto simp: read_addr_Done_iff)
  have port: "port = to_be_bytes 2 (from_be_bytes port :: u16)"
    using h(5) to_from_be_bytes [of port, where ?'a = 16] by (simp add: read_exact_Done_iff)
  have ab: "ab = addr_type_byte t" using h(3) header by (simp add: addr_type_from_byte_iff)
  obtain cmd where cmd: "cb = sock_command_byte cmd"
    using h(6) header
    by (cases "sock_command_from (unat cb)") (auto simp: parse_request_def ok_or_def bindE_def command_from_byte_iff)
  let ?r = "\<lparr>req_version = SOCKS_VERSION, req_command = cmd, req_addr_type = t, req_addr = x,
    req_port = from_be_bytes port\<rparr>"
  have frame: "header @ addr @ port = request_frame rsv ?r"
    using header x ab cmd port by (simp add: request_frame_def)
  have "wf_request ?r" using x by (simp add: wf_request_def)
  from parse_request_frame [OF this, of rsv "[]"] h(6) frame have r: "r = ?r" by simp
  have "rx s = (header @ addr @ port) @ rx s'" "s' = s\<lparr>rx := rx s'\<rparr>"
    using h(1,4,5) by (auto simp: read_exact_Done_iff read_addr_Done_iff)
  then show ?thesis
    using frame \<open>wf_request ?r\<close> by (auto simp: r)
qed

lemma from_stream_frame:
  assumes rx: "rx s = request_frame rsv r @ rx s'" and wf: "wf_request r"
    and v: "req_version r = SOCKS_VERSION" and s': "s' = s\<lparr>rx := rx s'\<rparr>"
  shows "from_stream s = (Done r, s')"
proof -
  define header where "header = [SOCKS_VERSION, sock_command_byte (req_command r), rsv,
    addr_type_byte (req_addr_type r)]"
  define addr where "addr = addr_frame (req_addr_type r) (req_addr r)"
  define port where "port = to_be_bytes 2 (req_port r)"
  have frame: "request_frame rsv r = header @ addr @ port"
    by (simp add: header_def addr_def port_def request_frame_def v)
  have "read_exact 4 s = (Done header, s\<lparr>rx := addr @ port @ rx s'\<rparr>)"
    by (simp add: read_exact_Done_iff rx frame) (simp add: header_def)
  moreover have "read_addr (req_addr_type r) (s\<lparr>rx := addr @ port @ rx s'\<rparr>) = (Done addr, s\<lparr>rx := port @ rx s'\<rparr>)"
    using wf by (auto simp: read_addr_Done_iff addr_def wf_request_def)
  moreover have "read_exact 2 (s\<lparr>rx := port @ rx s'\<rparr>) = (Done port, s')"
    using s' by (simp add: read_exact_Done_iff port_def)
  moreover have "parse_request (header @ addr @ port) = Inr (r, length (request_frame 0 r))"
    using parse_request_frame [OF wf, of rsv "[]"] by (simp add: frame)
  ultimately show "from_stream s = (Done r, s')"
    by (simp add: from_stream_def bindA_def map_error_def ret_def header_def)
qed

lemma from_stream_Done_iff:
  "from_stream s = (Done r, s') \<longleftrightarrow>
     (\<exists>rsv. rx s = request_frame rsv r @ rx s') \<and> wf_request r \<and> req_version r = SOCKS_VERSION \<and>
     s' = s\<lparr>rx := rx s'\<rparr>"
  using from_stream_Done [of s r s'] from_stream_frame [of s _ r s'] by blast

lemma calm_from_stream [calm_intros]: "calm from_stream"
proof -
  have "calm (read_addr t)" for t
    by (cases t) (auto intro!: calm_intros)
  then show ?thesis
    unfolding from_stream_def
    by (intro calm_intros) (auto intro!: calm_intros split: option.splits sum.splits)
qed

section \<open>Successful negotiation\<close>

text \<open>The connection after reading up to \<open>rest\<close> and putting \<open>evs\<close> on the wire.\<close>

definition after :: "bytes \<Rightarrow> tx_event list \<Rightarrow> conn \<Rightarrow> conn" where
  "after rest evs c =
     c\<lparr>stream := (stream c)\<lparr>rx := rest, tx_script := drop (length evs) (tx_script (stream c)),
                           sent := sent (stream c) @ evs\<rparr>\<rparr>"

lemma after_after [simp]: "after r2 e2 (after r1 e1 c) = after r2 (e1 @ e2) c"
  by (simp add: after_def add.commute)

lemma after_id [simp]: "after (rx (stream c)) [] c = c"
  by (simp add: after_def)

lemma after_fields [simp]:
  "rx (stream (after r e c)) = r" "authed_users (after r e c) = authed_users c"
  "auth_methods (after r e c) = auth_methods c" "cred_width (after r e c) = cred_width c"
  "auth_nmethods (after r e c) = auth_nmethods c"
  "client_authed (after r e c) = client_authed c"
  by (simp_all add: after_def client_authed_def)

lemma after_tx_ok [simp]:
  "tx_ok n (stream (after r e c)) \<longleftrightarrow> tx_ok n ((stream c)\<lparr>tx_script := drop (length e) (tx_script (stream c))\<rparr>)"
  by (simp add: after_def tx_ok_def)

lemma io_read_iff:
  "io (read_exact n) c = (Done bs, c') \<longleftrightarrow>
     length bs = n \<and> (\<exists>rest. rx (stream c) = bs @ rest \<and> c' = after rest [] c)"
  by (auto simp: io_Done_iff read_exact_Done_iff after_def intro!: exI [of _ "(stream c)\<lparr>rx := _\<rparr>"])

lemma io_write_iff:
  "io (write_all bs) c = (Done u, c') \<longleftrightarrow>
     tx_ok 1 (stream c) \<and> c' = after (rx (stream c)) [Sent bs] c"
  by (auto simp: io_Done_iff write_all_Done_iff after_def)

lemma refuse_login_not_Done: "\<not> refuse_login c = (Done u, c')"
  by (auto simp: refuse_login_def done_iffs)

lemma ex_length_Suc:
  "(\<exists>xs. length xs = Suc n \<and> P xs) \<longleftrightarrow> (\<exists>x xs. length xs = n \<and> P (x # xs))"
  by (metis length_Suc_conv)

lemma read_methods_Done_iff:
  "read_methods n acc c = (Done ms, c') \<longleftrightarrow>
     (\<exists>bs rest. length bs = n \<and> rx (stream c) = bs @ rest \<and> c' = after rest [] c \<and>
        ms = acc @ filter (\<lambda>m. m \<in> set (auth_methods c)) bs)"
proof (induction n arbitrary: acc c)
  case 0
  show ?case by (auto simp: ret_Done_iff)
next
  case (Suc n)
  have step: "on_stream (read_exact 1) c = (Done m, c1) \<longleftrightarrow>
      (\<exists>b rest. m = [b] \<and> rx (stream c) = b # rest \<and> c1 = after rest [] c)" for m c1
    by (simp add: io_read_iff [unfolded io_def map_error_Done_iff] length_1_conv)
      (metis append_Cons append_Nil)
  have "read_methods (Suc n) acc c = (Done ms, c') \<longleftrightarrow>
      (\<exists>b r. rx (stream c) = b # r \<and>
        read_methods n (if b \<in> set (auth_methods c) then acc @ [b] else acc) (after r [] c) = (Done ms, c'))"
    by (auto simp: bindA_Done_iff get_state_Done_iff step simp del: One_nat_def split del: if_split)
  also have "\<dots> \<longleftrightarrow> (\<exists>b bs rest. length bs = n \<and> rx (stream c) = (b # bs) @ rest \<and> c' = after rest [] c \<and>
        ms = acc @ filter (\<lambda>m. m \<in> set (auth_methods c)) (b # bs))"
  proof -
    have eq: "(if b \<in> set (auth_methods c) then acc @ [b] else acc) @
        filter (\<lambda>m. m \<in> set (auth_methods c)) bs =
        acc @ filter (\<lambda>m. m \<in> set (auth_methods c)) (b # bs)" for b bs
      by simp
    show ?thesis unfolding Suc after_after after_fields append_Nil eq append_Cons by blast
  qed
  also have "\<dots> \<longleftrightarrow> (\<exists>bs rest. length bs = Suc n \<and> rx (stream c) = bs @ rest \<and> c' = after rest [] c \<and>
        ms = acc @ filter (\<lambda>m. m \<in> set (auth_methods c)) bs)"
    using ex_length_Suc [of n "\<lambda>bs. \<exists>rest. rx (stream c) = bs @ rest \<and> c' = after rest [] c \<and>
        ms = acc @ filter (\<lambda>m. m \<in> set (auth_methods c)) bs"] by blast
  finally show ?case .
qed

lemma userpass_auth_frame:
  assumes rx: "rx (stream c) = userpass_frame u @ rest" and wf: "wf_userpass u" and tx: "tx_ok 1 (stream c)"
  shows "userpass_auth c =
    (if up_version u = 1 \<and> client_authed c (up_username u) (up_password u)
     then io (write_all [1, code_byte Success]) else refuse_login)
      (after rest [Sent [SOCKS_VERSION, auth_byte UserPass]] c)"
proof -
  define header where "header = [up_version u, of_nat (length (up_username u))]"
  define plen where "plen = [of_nat (length (up_password u)) :: u8]"
  have lens: "length (up_username u) < 256" "length (up_password u) < 256"
    using wf by (simp_all add: wf_userpass_def)
  have frame: "userpass_frame u = header @ up_username u @ plen @ up_password u"
    by (simp add: userpass_frame_def header_def plen_def)
  let ?e = "[Sent [SOCKS_VERSION, auth_byte UserPass]]"
  have "io (write_all [SOCKS_VERSION, auth_byte UserPass]) c = (Done (), after (rx (stream c)) ?e c)"
    using tx by (simp add: io_write_iff)
  moreover have "io (read_exact 2) (after (rx (stream c)) ?e c) =
      (Done header, after (up_username u @ plen @ up_password u @ rest) ?e c)"
    by (simp add: io_read_iff rx frame) (simp add: header_def)
  moreover have "io (read_exact (unat (header ! 1))) (after (up_username u @ plen @ up_password u @ rest) ?e c) =
      (Done (up_username u), after (plen @ up_password u @ rest) ?e c)"
    using lens by (simp add: io_read_iff header_def)
  moreover have "io (read_exact 1) (after (plen @ up_password u @ rest) ?e c) =
      (Done plen, after (up_password u @ rest) ?e c)"
    by (simp add: io_read_iff plen_def)
  moreover have "io (read_exact (unat (plen ! 0))) (after (up_password u @ rest) ?e c) =
      (Done (up_password u), after rest ?e c)"
    using lens by (simp add: io_read_iff plen_def)
  moreover have "parse_userpass (header @ up_username u @ [plen ! 0] @ up_password u) =
      Inr (u, length (userpass_frame u))"
    using parse_userpass_frame [OF wf, of "[]"] by (simp add: frame plen_def)
  ultimately show ?thesis
    by (simp add: userpass_auth_def)
qed

lemma userpass_auth_Done_iff:
  "userpass_auth c = (Done (), c') \<longleftrightarrow>
     (\<exists>u rest. rx (stream c) = userpass_frame u @ rest \<and> wf_userpass u \<and> up_version u = 1 \<and>
        client_authed c (up_username u) (up_password u) \<and> tx_ok 2 (stream c) \<and>
        c' = after rest [Sent [SOCKS_VERSION, auth_byte UserPass], Sent [1, code_byte Success]] c)"
  (is "_ \<longleftrightarrow> ?login")
proof
  assume "userpass_auth c = (Done (), c')"
  then obtain header uname plen pw r1 r2 r3 r4 u n where h: "tx_ok 1 (stream c)"
    "rx (stream c) = header @ r1" "length header = 2" "r1 = uname @ r2" "length uname = unat (header ! 1)"
    "r2 = plen @ r3" "length plen = 1" "r3 = pw @ r4" "length pw = unat (plen ! 0)"
    "parse_userpass (header @ uname @ [plen ! 0] @ pw) = Inr (u, n)" "up_version u = 1"
    "client_authed c (up_username u) (up_password u)"
    "tx_ok 1 ((stream c)\<lparr>tx_script := drop 1 (tx_script (stream c))\<rparr>)"
    "c' = after r4 [Sent [SOCKS_VERSION, auth_byte UserPass], Sent [1, code_byte Success]] c"
    by (auto simp: userpass_auth_def bindA_Done_iff io_read_iff io_write_iff get_state_Done_iff
        throw_cases_Done_iff ret_Done_iff refuse_login_not_Done split: if_splits)
  moreover from h(3) obtain v ul where header: "header = [v, ul]"
    by (auto simp: numeral_2_eq_2 length_Suc_conv)
  moreover from h(7) obtain pl where "plen = [pl]" by (auto simp: length_1_conv)
  moreover define u' where "u' = \<lparr>up_version = v, up_username = uname, up_password = pw\<rparr>"
  ultimately have frame: "header @ uname @ [plen ! 0] @ pw = userpass_frame u'" "wf_userpass u'"
    by (auto simp: userpass_frame_def wf_userpass_def ucast_id)
  with h(10) parse_userpass_frame [of u' "[]"] have "u = u'" by simp
  moreover have "rx (stream c) = (header @ uname @ [plen ! 0] @ pw) @ r4"
    using h(2,4,6,8) \<open>plen = [pl]\<close> by simp
  then have "rx (stream c) = userpass_frame u' @ r4" by (simp only: frame)
  moreover have "tx_ok 2 (stream c)" using h(1,13) tx_ok_add [of 1 1 "stream c"] by (simp add: numeral_2_eq_2)
  ultimately show ?login
    using frame(2) h(11,12,14) by blast
next
  assume ?login
  then obtain u rest where "rx (stream c) = userpass_frame u @ rest" "wf_userpass u" "up_version u = 1"
    "client_authed c (up_username u) (up_password u)" and tx: "tx_ok 2 (stream c)"
    and c': "c' = after rest [Sent [SOCKS_VERSION, auth_byte UserPass], Sent [1, code_byte Success]] c"
    by auto
  moreover have "tx_ok 1 (stream c)" "tx_ok 1 ((stream c)\<lparr>tx_script := drop 1 (tx_script (stream c))\<rparr>)"
    using tx tx_ok_add [of 1 1 "stream c"] by (simp_all add: numeral_2_eq_2)
  ultimately show "userpass_auth c = (Done (), c')"
    by (simp add: userpass_auth_frame io_write_iff)
qed

text \<open>
  The ways to get past the authentication step. The client offers \<open>ms\<close>; \<open>creds\<close> is what it sends in
  the sub-negotiation and \<open>evs\<close> what the server answers.
\<close>

definition login_ok :: "conn \<Rightarrow> bytes \<Rightarrow> bytes \<Rightarrow> tx_event list \<Rightarrow> bool" where
  "login_ok c ms creds evs \<longleftrightarrow>
     (if auth_byte UserPass \<in> set ms \<inter> set (auth_methods c)
      then (\<exists>u. wf_userpass u \<and> up_version u = 1 \<and> creds = userpass_frame u \<and>
              client_authed c (up_username u) (up_password u) \<and>
              evs = [Sent [SOCKS_VERSION, auth_byte UserPass], Sent [1, code_byte Success]])
      else auth_byte NoAuth \<in> set ms \<inter> set (auth_methods c) \<and> creds = [] \<and>
           evs = [Sent [SOCKS_VERSION, auth_byte NoAuth]])"

text \<open>What \<open>auth\<close> does once it has read the methods, and which of the ways that is.\<close>

lemma auth_methods_read:
  "auth c = (Done (), c') \<longleftrightarrow>
     (\<exists>ms r. length ms = unat (auth_nmethods c) \<and> rx (stream c) = ms @ r \<and>
        (if auth_byte UserPass \<in> set ms \<inter> set (auth_methods c) then userpass_auth (after r [] c) = (Done (), c')
         else auth_byte NoAuth \<in> set ms \<inter> set (auth_methods c) \<and> tx_ok 1 (stream c) \<and>
           c' = after r [Sent [SOCKS_VERSION, auth_byte NoAuth]] c))"
  (is "_ \<longleftrightarrow> (\<exists>ms r. ?A ms r \<and> ?B ms r \<and> ?C ms r)")
proof -
  define allowed where "allowed = filter (\<lambda>m. m \<in> set (auth_methods c))"
  have mem: "auth_byte m \<in> set (allowed ms) \<longleftrightarrow> auth_byte m \<in> set ms \<inter> set (auth_methods c)" for m ms
    by (auto simp: allowed_def)
  have methods: "map_error Io get_avalible_methods c = (Done xs, c1) \<longleftrightarrow>
      (\<exists>ms r. length ms = unat (auth_nmethods c) \<and> rx (stream c) = ms @ r \<and> c1 = after r [] c \<and>
        xs = allowed ms)" for xs c1
    by (simp add: get_avalible_methods_def bindA_Done_iff map_error_Done_iff get_state_Done_iff
        read_methods_Done_iff allowed_def)
  have fails: "bindA m (\<lambda>_ :: unit. bindA m' (\<lambda>_ :: unit. throw e)) d \<noteq> (Done (), c')"
    for m m' e and d :: conn
    by (auto simp: bindA_Done_iff throw_Done_iff)
  let ?K = "\<lambda>methods. if auth_byte UserPass \<in> set methods then userpass_auth
     else if auth_byte NoAuth \<in> set methods then
       bindA (io (write_all [SOCKS_VERSION, auth_byte NoAuth])) (\<lambda>_. ret ())
     else
       bindA (modify (note_stats note_auth_failure)) (\<lambda>_.
       bindA (io (write_all [SOCKS_VERSION, auth_byte NoMethods])) (\<lambda>_.
       bindA (io shutdown_stream) (\<lambda>_.
         throw (Socks Failure))))"
  have "?K (allowed ms) (after r [] c) = (Done (), c') \<longleftrightarrow> ?C ms r" for ms r
    unfolding mem
    by (auto simp: io_write_iff fails simp del: auth_byte.simps code_byte.simps)
  then show ?thesis unfolding auth_def bindA_Done_iff methods by blast
qed

lemma login_ok_iff:
  "(if auth_byte UserPass \<in> set ms \<inter> set (auth_methods c) then userpass_auth (after r [] c) = (Done (), c')
    else auth_byte NoAuth \<in> set ms \<inter> set (auth_methods c) \<and> tx_ok 1 (stream c) \<and>
      c' = after r [Sent [SOCKS_VERSION, auth_byte NoAuth]] c) \<longleftrightarrow>
   (\<exists>creds rest evs. r = creds @ rest \<and> login_ok c ms creds evs \<and> tx_ok (length evs) (stream c) \<and>
      c' = after rest evs c)"
proof (cases "auth_byte UserPass \<in> set ms \<inter> set (auth_methods c)")
  case True
  have two: "length [Sent [SOCKS_VERSION, auth_byte UserPass], Sent [1, code_byte Success]] = 2" by simp
  show ?thesis
    unfolding login_ok_def if_P [OF True] userpass_auth_Done_iff after_fields after_after append_Nil
    by (rule iffI; elim exE conjE; intro exI conjI; (assumption | simp only: two)?) (simp_all add: numeral_2_eq_2)
next
  case False
  then show ?thesis unfolding login_ok_def if_not_P [OF False] by (auto simp: exI)
qed

lemma auth_Done_iff:
  "auth c = (Done (), c') \<longleftrightarrow>
     (\<exists>ms creds rest evs. length ms = unat (auth_nmethods c) \<and> rx (stream c) = ms @ creds @ rest \<and>
        login_ok c ms creds evs \<and> tx_ok (length evs) (stream c) \<and> c' = after rest evs c)"
  unfolding auth_methods_read login_ok_iff by blast

text \<open>The connection after the two bytes of the greeting's header.\<close>

definition greeted :: "u8 \<Rightarrow> u8 \<Rightarrow> conn \<Rightarrow> conn" where
  "greeted v n c = c\<lparr>socks_version := v, auth_nmethods := n\<rparr>"

lemma greeted_simps [simp]:
  "after r e (greeted v n c) = greeted v n (after r e c)" "stream (greeted v n c) = stream c"
  "auth_nmethods (greeted v n c) = n" "login_ok (greeted v n c) = login_ok c"
  "login_ok (after r e c) = login_ok c" "auth_methods (greeted v n c) = auth_methods c"
  "client_authed (greeted v n c) = client_authed c"
  by (simp_all add: greeted_def after_def login_ok_def client_authed_def fun_eq_iff cong: if_cong)

lemma greeted_rx:
  "(greeted v n (after r e c))\<lparr>stream := (stream (greeted v n (after r e c)))\<lparr>rx := x\<rparr>\<rparr> =
     greeted v n (after x e c)"
  by (intro conn.equality) (auto simp: greeted_def after_def)

lemma negotiate_step:
  "negotiate c = (Done req, c') \<longleftrightarrow>
     (\<exists>n r c1. rx (stream c) = SOCKS_VERSION # n # r \<and>
        auth (greeted SOCKS_VERSION n (after r [] c)) = (Done (), c1) \<and>
        on_stream from_stream c1 = (Done req, c'))"
proof -
  have hd: "io (read_exact 2) c = (Done h, c1) \<longleftrightarrow>
      (\<exists>v n r. h = [v, n] \<and> rx (stream c) = v # n # r \<and> c1 = after r [] c)" for h c1
    by (auto simp: io_read_iff numeral_2_eq_2 length_Suc_conv)
  have "negotiate c = (Done req, c') \<longleftrightarrow>
      (\<exists>v n r. rx (stream c) = v # n # r \<and>
        (if v = SOCKS_VERSION then bindA auth (\<lambda>_. on_stream from_stream)
         else bindA (map_error Io client_shutdown) (\<lambda>_. throw (Socks Failure)))
          (greeted v n (after r [] c)) = (Done req, c'))"
    unfolding negotiate_def by (subst bindA_Done_iff) (auto simp: hd greeted_def split del: if_split)
  also have "\<dots> \<longleftrightarrow> (\<exists>n r. rx (stream c) = SOCKS_VERSION # n # r \<and>
      bindA auth (\<lambda>_. on_stream from_stream) (greeted SOCKS_VERSION n (after r [] c)) = (Done req, c'))"
    by (auto simp: bindA_Done_iff [of "map_error Io client_shutdown"] throw_Done_iff split: if_splits)
  finally show ?thesis by (simp add: bindA_Done_iff)
qed

lemma negotiate_Done_iff:
  "negotiate c = (Done req, c') \<longleftrightarrow>
     (\<exists>ms creds rsv rest evs. length ms < 256 \<and>
        rx (stream c) = greeting_frame SOCKS_VERSION ms @ creds @ request_frame rsv req @ rest \<and>
        login_ok c ms creds evs \<and> wf_request req \<and> req_version req = SOCKS_VERSION \<and>
        tx_ok (length evs) (stream c) \<and>
        c' = greeted SOCKS_VERSION (of_nat (length ms)) (after rest evs c))"
  (is "_ \<longleftrightarrow> ?session")
proof
  assume "negotiate c = (Done req, c')"
  then obtain n r c1 where n: "rx (stream c) = SOCKS_VERSION # n # r"
    "auth (greeted SOCKS_VERSION n (after r [] c)) = (Done (), c1)"
    "on_stream from_stream c1 = (Done req, c')"
    by (auto simp: negotiate_step)
  from n(2) obtain ms creds rest evs where a: "length ms = unat n" "r = ms @ creds @ rest"
    "login_ok c ms creds evs" "tx_ok (length evs) (stream c)"
    "c1 = greeted SOCKS_VERSION n (after rest evs c)"
    by (auto simp: auth_Done_iff)
  from n(3) obtain rsv where "rest = request_frame rsv req @ rx (stream c')" "wf_request req"
    "req_version req = SOCKS_VERSION" and c': "c' = c1\<lparr>stream := (stream c1)\<lparr>rx := rx (stream c')\<rparr>\<rparr>"
    by (auto simp: on_stream_Done_iff from_stream_Done_iff a(5))
  moreover from c' have "c' = greeted SOCKS_VERSION n (after (rx (stream c')) evs c)"
    by (simp only: a(5) greeted_rx)
  moreover have "n = of_nat (length ms)" "length ms < 256" using a(1) by (simp_all add: ucast_id)
  ultimately show ?session
    using n(1) a(2-4)
    by (intro exI [of _ ms] exI [of _ creds] exI [of _ rsv] exI [of _ "rx (stream c')"] exI [of _ evs])
      (simp add: greeting_frame_def)
next
  assume ?session
  then obtain ms creds rsv rest evs where h: "length ms < 256"
    "rx (stream c) = greeting_frame SOCKS_VERSION ms @ creds @ request_frame rsv req @ rest"
    "login_ok c ms creds evs" "wf_request req" "req_version req = SOCKS_VERSION"
    "tx_ok (length evs) (stream c)" "c' = greeted SOCKS_VERSION (of_nat (length ms)) (after rest evs c)"
    by blast
  let ?n = "of_nat (length ms) :: u8" and ?r = "ms @ creds @ request_frame rsv req @ rest"
  have "auth (greeted SOCKS_VERSION ?n (after ?r [] c)) =
      (Done (), greeted SOCKS_VERSION ?n (after (request_frame rsv req @ rest) evs c))"
    using h(1,3,6) by (simp add: auth_Done_iff) blast
  moreover have "on_stream from_stream (greeted SOCKS_VERSION ?n (after (request_frame rsv req @ rest) evs c)) =
      (Done req, c')"
    using h(4,5,7)
    by (auto simp: on_stream_Done_iff from_stream_Done_iff greeted_def after_def
        intro!: exI [of _ "_\<lparr>rx := rest\<rparr>"])
  moreover have "rx (stream c) = SOCKS_VERSION # ?n # ?r" using h(2) by (simp add: greeting_frame_def)
  ultimately show "negotiate c = (Done req, c')" unfolding negotiate_step by blast
qed

section \<open>Refused negotiation\<close>

lemma io_shutdown: "tx_ok 1 (stream c) \<Longrightarrow> io shutdown_stream c = (Done (), after (rx (stream c)) [Shut] c)"
  by (cases "tx_script (stream c)")
    (auto simp: io_def on_stream_def map_error_def shutdown_stream_def next_tx_def tx_ok_def after_def)

lemma io_write: "tx_ok 1 (stream c) \<Longrightarrow> io (write_all bs) c = (Done (), after (rx (stream c)) [Sent bs] c)"
  by (simp add: io_write_iff)

lemma auth_offered:
  assumes "length ms = unat (auth_nmethods c)" "rx (stream c) = ms @ r"
  shows "auth c =
    (if auth_byte UserPass \<in> set ms \<inter> set (auth_methods c) then userpass_auth
     else if auth_byte NoAuth \<in> set ms \<inter> set (auth_methods c)
     then io (write_all [SOCKS_VERSION, auth_byte NoAuth])
     else bindA (modify (note_stats note_auth_failure)) (\<lambda>_.
       bindA (io (write_all [SOCKS_VERSION, auth_byte NoMethods])) (\<lambda>_.
       bindA (io shutdown_stream) (\<lambda>_. throw (Socks Failure))))) (after r [] c)"
proof -
  have "map_error Io get_avalible_methods c =
      (Done (filter (\<lambda>m. m \<in> set (auth_methods c)) ms), after r [] c)"
    using assms by (auto simp: get_avalible_methods_def map_error_Done_iff read_methods_Done_iff)
  then show ?thesis by (auto simp: auth_def simp del: auth_byte.simps)
qed

lemma negotiate_offered:
  assumes "rx (stream c) = greeting_frame SOCKS_VERSION ms @ r" "length ms < 256"
  shows "negotiate c =
    bindA auth (\<lambda>_. on_stream from_stream)
      (greeted SOCKS_VERSION (of_nat (length ms)) (after (ms @ r) [] c))"
proof -
  have "io (read_exact 2) c = (Done [SOCKS_VERSION, of_nat (length ms)], after (ms @ r) [] c)"
    using assms(1) by (simp add: io_read_iff greeting_frame_def)
  then show ?thesis by (simp add: negotiate_def greeted_def)
qed

lemma note_stats_after:
  "note_stats f (after r e c) = after r e (note_stats f c)" "stream (note_stats f c) = stream c"
  "note_stats f (greeted v n c) = greeted v n (note_stats f c)"
  by (simp_all add: note_stats_def after_def greeted_def)

lemma refuse_login_wire:
  assumes "tx_ok 2 (stream c)"
  shows "refuse_login c = (Raise (Socks Failure),
    (after (rx (stream c)) [Sent [1, code_byte Failure], Shut] (note_stats note_auth_failure c))\<lparr>replied := True\<rparr>)"
proof -
  have tx: "tx_ok 1 (stream c)" "tx_ok 1 ((stream c)\<lparr>tx_script := drop 1 (tx_script (stream c))\<rparr>)"
    using assms tx_ok_add [of 1 1 "stream c"] by (simp_all add: numeral_2_eq_2)
  let ?c = "(note_stats note_auth_failure c)\<lparr>replied := True\<rparr>"
  have "io (write_all [1, code_byte Failure]) ?c = (Done (), after (rx (stream c)) [Sent [1, code_byte Failure]] ?c)"
    using io_write [of ?c] tx by (simp add: note_stats_after)
  moreover have "io shutdown_stream (after (rx (stream c)) [Sent [1, code_byte Failure]] ?c) =
      (Done (), after (rx (stream c)) [Sent [1, code_byte Failure], Shut] ?c)"
    using tx by (subst io_shutdown) (simp_all add: note_stats_after)
  ultimately show ?thesis by (simp add: refuse_login_def throw_def after_def)
qed

lemma negotiate_rejected:
  assumes "rx (stream c) = greeting_frame SOCKS_VERSION ms @ userpass_frame u @ rest" "length ms < 256"
    and "auth_byte UserPass \<in> set ms" "auth_byte UserPass \<in> set (auth_methods c)" "wf_userpass u"
    and "\<not> (up_version u = 1 \<and> client_authed c (up_username u) (up_password u))"
    and "tx_ok 3 (stream c)"
  shows "negotiate c = (Raise (Socks Failure),
    (greeted SOCKS_VERSION (of_nat (length ms))
      (after rest [Sent [5, 2], Sent [1, 1], Shut] (note_stats note_auth_failure c)))\<lparr>replied := True\<rparr>)"
proof -
  let ?c = "greeted SOCKS_VERSION (of_nat (length ms)) (after (userpass_frame u @ rest) [] c)"
  let ?e = "[Sent [SOCKS_VERSION, auth_byte UserPass]]"
  have tx: "tx_ok 1 (stream c)" "tx_ok 2 ((stream c)\<lparr>tx_script := drop 1 (tx_script (stream c))\<rparr>)"
    using assms(7) tx_ok_add [of 1 2 "stream c"] by (simp_all add: numeral_eq_Suc)
  have "auth (greeted SOCKS_VERSION (of_nat (length ms)) (after (ms @ userpass_frame u @ rest) [] c)) = userpass_auth ?c"
    using assms(2,3,4) by (subst auth_offered [where ms = ms and r = "userpass_frame u @ rest"])
      simp_all
  also have "\<dots> = refuse_login (after rest ?e ?c)"
    using assms(5,6) tx(1) by (subst userpass_auth_frame [where u = u and rest = rest]) auto
  also have "\<dots> = (Raise (Socks Failure), (greeted SOCKS_VERSION (of_nat (length ms))
      (after rest [Sent [5, 2], Sent [1, 1], Shut] (note_stats note_auth_failure c)))\<lparr>replied := True\<rparr>)"
    using tx(2) by (subst refuse_login_wire) (simp_all add: note_stats_after SOCKS_VERSION_def)
  finally show ?thesis
    using negotiate_offered [of c ms "userpass_frame u @ rest"] assms(1,2) by simp
qed

lemma negotiate_no_methods:
  assumes "rx (stream c) = greeting_frame SOCKS_VERSION ms @ rest" "length ms < 256"
    and "auth_byte UserPass \<notin> set ms \<inter> set (auth_methods c)"
    and "auth_byte NoAuth \<notin> set ms \<inter> set (auth_methods c)" "tx_ok 2 (stream c)"
  shows "negotiate c = (Raise (Socks Failure),
    greeted SOCKS_VERSION (of_nat (length ms))
      (after rest [Sent [5, 255], Shut] (note_stats note_auth_failure c)))"
proof -
  let ?c = "greeted SOCKS_VERSION (of_nat (length ms)) (after rest [] (note_stats note_auth_failure c))"
  have tx: "tx_ok 1 (stream c)" "tx_ok 1 ((stream c)\<lparr>tx_script := drop 1 (tx_script (stream c))\<rparr>)"
    using assms(5) tx_ok_add [of 1 1 "stream c"] by (simp_all add: numeral_2_eq_2)
  have wr: "io (write_all [SOCKS_VERSION, auth_byte NoMethods]) ?c =
      (Done (), greeted SOCKS_VERSION (of_nat (length ms)) (after rest [Sent [5, 255]] (note_stats note_auth_failure c)))"
    using tx by (subst io_write) (simp_all add: note_stats_after SOCKS_VERSION_def)
  have sd: "io shutdown_stream (greeted SOCKS_VERSION (of_nat (length ms)) (after rest [Sent [5, 255]] (note_stats note_auth_failure c))) =
      (Done (), greeted SOCKS_VERSION (of_nat (length ms)) (after rest [Sent [5, 255], Shut] (note_stats note_auth_failure c)))"
    using tx by (subst io_shutdown) (simp_all add: note_stats_after)
  have "auth (greeted SOCKS_VERSION (of_nat (length ms)) (after (ms @ rest) [] c)) =
      (Raise (Socks Failure), greeted SOCKS_VERSION (of_nat (length ms))
      (after rest [Sent [5, 255], Shut] (note_stats note_auth_failure c)))"
    using assms(2-4) wr sd
    by (subst auth_offered [where ms = ms and r = rest])
      (auto simp: note_stats_after throw_def simp del: auth_byte.simps)
  then show ?thesis using negotiate_offered [of c ms rest] assms(1,2) by simp
qed

lemma negotiate_needs_login:
  assumes "negotiate c = (Done req, c')"
    and "auth_byte NoAuth \<notin> set (auth_methods c)"
    and "credential_width (authed_users c) \<le> cred_width c"
  shows "\<exists>ms u rsv rest.
    rx (stream c) = greeting_frame SOCKS_VERSION ms @ userpass_frame u @ request_frame rsv req @ rest \<and>
    (up_username u, up_password u) \<in> user_accounts (authed_users c)"
proof -
  from assms(1) obtain ms creds rsv rest evs where n: "login_ok c ms creds evs"
    "rx (stream c) = greeting_frame SOCKS_VERSION ms @ creds @ request_frame rsv req @ rest"
    by (auto simp: negotiate_Done_iff)
  from n(1) assms(2) obtain u where "creds = userpass_frame u" "client_authed c (up_username u) (up_password u)"
    by (auto simp: login_ok_def split: if_splits)
  with n(2) show ?thesis
    by (auto simp: client_authed_def login.check_accounts [OF assms(3)])
qed

section \<open>Properties\<close>

text \<open>A small session for the examples: one account, both methods offered, a \<open>CONNECT\<close> to 127.0.0.1:80.\<close>

definition demo_login :: "bytes \<Rightarrow> user_pass_request" where
  "demo_login pw = \<lparr>up_version = 1, up_username = ascii ''alice'', up_password = pw\<rparr>"

definition demo_request :: socks_req where
  "demo_request = \<lparr>req_version = 5, req_command = Connect, req_addr_type = V4,
     req_addr = [127, 0, 0, 1], req_port = 80\<rparr>"

definition demo_conn :: "bytes \<Rightarrow> conn" where
  "demo_conn pw = connection
     (sock_client_new
       \<lparr>rx = greeting_frame 5 [0, 2] @ userpass_frame (demo_login pw) @ request_frame 0 demo_request,
        rx_end = RxEof, tx_script = [], sent = []\<rparr>
       [user_new (ascii ''alice'') (ascii ''secret'')] [auth_byte UserPass] None) (stats_new 0 0)"

lemma demo_conn_fields [simp]:
  "stream (demo_conn pw) =
     \<lparr>rx = greeting_frame 5 [0, 2] @ userpass_frame (demo_login pw) @ request_frame 0 demo_request,
      rx_end = RxEof, tx_script = [], sent = []\<rparr>"
  "auth_methods (demo_conn pw) = [2]" "cred_width (demo_conn pw) = credential_width (authed_users (demo_conn pw))"
  "authed_users (demo_conn pw) = [user_new (ascii ''alice'') (ascii ''secret'')]"
  by (simp_all add: demo_conn_def connection_def sock_client_new_def with_credential_width_def
      sock_client.defs)

lemma demo_authed: "client_authed (demo_conn pw) (ascii ''alice'') pw \<longleftrightarrow> pw = ascii ''secret''"
  by (auto simp: client_authed_def login.check_accounts user_accounts_def user_new_def)

lemma wf_demo [simp]: "wf_userpass (demo_login pw) \<longleftrightarrow> length pw < 256" "wf_request demo_request"
  by (simp_all add: wf_userpass_def demo_login_def ascii_def wf_request_def demo_request_def)

lemma demo_negotiated:
  "negotiate (demo_conn (ascii ''secret'')) =
     (Done demo_request, greeted SOCKS_VERSION 2
        (after [] [Sent [SOCKS_VERSION, 2], Sent [1, 0]] (demo_conn (ascii ''secret''))))"
proof -
  let ?c = "demo_conn (ascii ''secret'')" and ?u = "demo_login (ascii ''secret'')"
  have "login_ok ?c [0, 2] (userpass_frame ?u) [Sent [SOCKS_VERSION, 2], Sent [1, 0]]"
    using demo_authed [of "ascii ''secret''"]
    by (auto simp: login_ok_def demo_login_def ascii_def wf_userpass_def intro!: exI [of _ ?u])
  then show ?thesis
    unfolding negotiate_Done_iff
    by (intro exI [of _ "[0, 2]"] exI [of _ "userpass_frame ?u"] exI [of _ 0] exI [of _ "[]"]
        exI [of _ "[Sent [SOCKS_VERSION, 2], Sent [1, 0]]"])
      (simp add: tx_ok_def SOCKS_VERSION_def demo_request_def wf_request_def)
qed

text \<open>
  C11. Negotiation succeeds exactly on the sessions of the protocol: a SOCKS5 greeting, then (when the
  client offers a user/password method the server allows) a well-formed version 1 login with
  accepted credentials, or (when it does not) an offered and allowed no-authentication method,
  then a well-formed SOCKS5 request; and the server's answers are the two-byte method choice and
  the two-byte login result, nothing else. The bytes after the request are left unread.
\<close>

theorem negotiate_accepts_iff:
  "negotiate c = (Done req, c') \<longleftrightarrow>
     (\<exists>ms creds rsv rest evs. length ms < 256 \<and>
        rx (stream c) = greeting_frame SOCKS_VERSION ms @ creds @ request_frame rsv req @ rest \<and>
        login_ok c ms creds evs \<and> wf_request req \<and> req_version req = SOCKS_VERSION \<and>
        tx_ok (length evs) (stream c) \<and>
        c' = greeted SOCKS_VERSION (of_nat (length ms)) (after rest evs c))"
  by (rule negotiate_Done_iff)

text \<open>
  C1. No authentication bypass: on a server that does not allow the no-authentication method, a
  client whose negotiation succeeds has sent the name and password of a configured account,
  before its request.
\<close>

theorem no_auth_bypass:
  assumes "negotiate c = (Done req, c')"
    and "auth_byte NoAuth \<notin> set (auth_methods c)"
    and "credential_width (authed_users c) \<le> cred_width c"
  shows "\<exists>ms u rsv rest.
    rx (stream c) = greeting_frame SOCKS_VERSION ms @ userpass_frame u @ request_frame rsv req @ rest \<and>
    (up_username u, up_password u) \<in> user_accounts (authed_users c)"
  using assms by (rule negotiate_needs_login)

theorem no_auth_bypass_witness:
  "\<exists>req c'. negotiate (demo_conn (ascii ''secret'')) = (Done req, c') \<and>
    (\<exists>ms u rsv rest. rx (stream (demo_conn (ascii ''secret''))) =
        greeting_frame SOCKS_VERSION ms @ userpass_frame u @ request_frame rsv req @ rest \<and>
      (up_username u, up_password u) \<in> user_accounts (authed_users (demo_conn (ascii ''secret''))))"
  using no_auth_bypass [OF demo_negotiated] demo_negotiated by auto

end
