(* ===== verification/Udp.thy ===== *)
theory Udp
  imports Handshake
begin

text \<open>
  \<open>handle_udp_associate\<close> of \<open>src/lib.rs\<close>: the datagram relay of a \<open>UDP ASSOCIATE\<close> request. The loop is
  driven by a schedule of \<open>select!\<close> arms: the control stream becomes readable, or the socket
  delivers a datagram or an error; with a datagram comes its resolution: the answers the resolver
  would give while it is processed, the times and the other users of the cache. A datagram handed to
  the socket is appended to \<open>datagrams\<close>; whether the network accepts it is only logged by the
  code. A schedule that ends before the association does is \<open>Pending\<close>.
\<close>

section \<open>Definitions\<close>

datatype udp_event =
    Control
  | Recv resolution "error_kind + bytes \<times> socket_addr"

text \<open>\<open>addr_to_socket(..., self.dns_cache.as_deref()).await\<close>, with the error as a value.\<close>

definition resolve ::
  "resolution \<Rightarrow> addr_type \<Rightarrow> bytes \<Rightarrow> u16 \<Rightarrow>
   (conn, merino_error, error_kind + socket_addr list) async" where
  "resolve r t addr port c =
     (case addr_to_socket r t addr port (dns_cache c) of
        (Done addrs, d) \<Rightarrow> (Done (Inr addrs), c\<lparr>dns_cache := d\<rparr>)
      | (Raise e, d) \<Rightarrow> (Done (Inl e), c\<lparr>dns_cache := d\<rparr>)
      | (Pending, d) \<Rightarrow> (Pending, c\<lparr>dns_cache := d\<rparr>)
      | (Panicked, d) \<Rightarrow> (Panicked, c\<lparr>dns_cache := d\<rparr>))"

definition send_to :: "bytes \<Rightarrow> socket_addr \<Rightarrow> conn \<Rightarrow> conn" where
  "send_to bs dest c = c\<lparr>datagrams := datagrams c @ [(bs, dest)]\<rparr>"

text \<open>A datagram from the client: forward the payload on.\<close>

definition udp_forward :: "resolution \<Rightarrow> bytes \<Rightarrow> (conn, merino_error, unit) async" where
  "udp_forward r data =
     (case parse_udp_header data of
        Inl _ \<Rightarrow> ret ()
      | Inr (header, consumed) \<Rightarrow>
          if udp_frag header \<noteq> 0 then ret ()
          else
            bindA (resolve r (udp_addr_type header) (udp_addr header) (udp_port header))
              (\<lambda>res. case res of
                 Inl _ \<Rightarrow> ret ()
               | Inr [] \<Rightarrow> ret ()
               | Inr (dest # _) \<Rightarrow>
                   if consumed \<le> length data then
                     modify (\<lambda>c. send_to (drop consumed data) dest
                       (note_stats (note_udp_datagram (of_nat (length (drop consumed data)))) c))
                   else ret ()))"

text \<open>A datagram from elsewhere: re-frame it with the sender's address and send it to the client.\<close>

definition udp_reply :: "socket_addr \<Rightarrow> bytes \<Rightarrow> socket_addr \<Rightarrow> (conn, merino_error, unit) async" where
  "udp_reply client data src =
     (let out = encode_udp_header src @ data in
      modify (\<lambda>c. send_to out client (note_stats (note_udp_reply (of_nat (length out))) c)))"

text \<open>One turn of the loop: \<open>None\<close> leaves it, \<open>Some\<close> is the next value of \<open>client_addr\<close>.\<close>

fun udp_turn ::
  "ip_addr option \<Rightarrow> socket_addr option \<Rightarrow> udp_event \<Rightarrow>
   (conn, merino_error, socket_addr option option) async" where
  "udp_turn expected_client client_addr Control c =
     (case on_stream (read_some 1 1) c of
        (Done bs, c') \<Rightarrow> (Done (if bs = [] then None else Some client_addr), c')
      | (Raise _, c') \<Rightarrow> (Done None, c')
      | (Pending, c') \<Rightarrow> (Done (Some client_addr), c')
      | (Panicked, c') \<Rightarrow> (Panicked, c'))"
| "udp_turn expected_client client_addr (Recv r (Inl e)) c = (Done None, c)"
| "udp_turn expected_client client_addr (Recv r (Inr (datagram, src))) c =
     (let data = take 65535 datagram;
          forward = bindA (udp_forward r data) (\<lambda>_. ret (Some (Some src))) in
      case client_addr of
        None \<Rightarrow>
          (case expected_client of
             Some expected \<Rightarrow> if expected \<noteq> sock_ip src then (Done (Some None), c) else forward c
           | None \<Rightarrow> forward c)
      | Some client \<Rightarrow>
          if client = src then forward c
          else bindA (udp_reply client data src) (\<lambda>_. ret (Some (Some client))) c)"

fun udp_loop ::
  "ip_addr option \<Rightarrow> udp_event list \<Rightarrow> socket_addr option \<Rightarrow> (conn, merino_error, unit) async" where
  "udp_loop expected_client [] client_addr c = (Pending, c)"
| "udp_loop expected_client (ev # evs) client_addr c =
     bindA (udp_turn expected_client client_addr ev)
       (\<lambda>next. case next of None \<Rightarrow> ret () | Some client_addr' \<Rightarrow> udp_loop expected_client evs client_addr') c"

text \<open>\<open>local_interface\<close>, and the whole handler; \<open>bind_udp\<close> is the operating system's answer to \<open>bind\<close>.\<close>

definition local_interface :: "conn \<Rightarrow> ip_addr" where
  "local_interface c = (case local_addr c of None \<Rightarrow> IpV4 0 | Some a \<Rightarrow> sock_ip a)"

definition handle_udp_associate ::
  "(socket_addr \<Rightarrow> error_kind + socket_addr) \<Rightarrow> udp_event list \<Rightarrow> socks_req \<Rightarrow>
   (conn, merino_error, nat) async" where
  "handle_udp_associate bind_udp evs req =
     bindA (get_state (\<lambda>c. bind_udp (socket_addr_new (local_interface c) 0))) (\<lambda>bound.
     case bound of
       Inl e \<Rightarrow> throw (Io e)
     | Inr addr \<Rightarrow>
         bindA (io (reply_send (reply_with_addr Success addr))) (\<lambda>_.
         bindA (udp_loop (expected_ip (req_addr_type req) (req_addr req)) evs None) (\<lambda>_. ret 0)))"

section \<open>What the relay sends\<close>

text \<open>The client of an association: the source of the first datagram that the declared address admits.\<close>

definition admits :: "ip_addr option \<Rightarrow> socket_addr \<Rightarrow> bool" where
  "admits expected_client src \<longleftrightarrow> (case expected_client of None \<Rightarrow> True | Some ip \<Rightarrow> ip = sock_ip src)"

text \<open>
  A datagram the relay may send when \<open>client\<close> is its client and the datagram \<open>data\<close> from \<open>src\<close> has been
  received: to the client, a framed copy of a datagram from somewhere else; to others, the
  payload of an unfragmented datagram of the client.
\<close>

definition may_send :: "socket_addr \<Rightarrow> bytes \<times> socket_addr \<Rightarrow> bytes \<times> socket_addr \<Rightarrow> bool" where
  "may_send client received out \<longleftrightarrow>
     (case received of (data, src) \<Rightarrow>
        if src = client
        then (\<exists>h n. parse_udp_header data = Inr (h, n) \<and> udp_frag h = 0 \<and> fst out = drop n data)
        else out = (encode_udp_header src @ data, client))"

definition received :: "udp_event \<Rightarrow> (bytes \<times> socket_addr) option" where
  "received ev = (case ev of Recv _ (Inr (d, src)) \<Rightarrow> Some (take 65535 d, src) | _ \<Rightarrow> None)"

lemma resolve_keeps:
  "resolve lk t a p c = (q, c') \<Longrightarrow> \<exists>d. c' = c\<lparr>dns_cache := d\<rparr>"
  by (auto simp: resolve_def split: prod.splits poll.splits)

lemma send_to_datagrams [simp]:
  "datagrams (send_to bs d c) = datagrams c @ [(bs, d)]" "datagrams (note_stats f c) = datagrams c"
  by (simp_all add: send_to_def note_stats_def)

lemma udp_forward_sends:
  assumes "udp_forward lk data c = (q, c')"
  shows "\<exists>outs. datagrams c' = datagrams c @ outs \<and> length outs \<le> 1 \<and>
    (\<forall>out\<in>set outs. may_send src (data, src) out)"
proof (cases "parse_udp_header data")
  case (Inl e)
  with assms show ?thesis by (auto simp: udp_forward_def ret_def intro!: exI [of _ "[]"])
next
  case (Inr hn)
  obtain h n where hn: "hn = (h, n)" by (cases hn)
  obtain p d where r: "resolve lk (udp_addr_type h) (udp_addr h) (udp_port h) c = (p, d)"
    by (cases "resolve lk (udp_addr_type h) (udp_addr h) (udp_port h) c")
  from resolve_keeps [OF r] have d: "datagrams d = datagrams c" by auto
  consider "datagrams c' = datagrams c"
    | dest where "udp_frag h = 0" "datagrams c' = datagrams c @ [(drop n data, dest)]"
    using assms Inr hn r d
    by (cases p) (auto simp: udp_forward_def ret_def modify_def split: if_splits sum.splits list.splits)
  then show ?thesis
    using Inr hn by cases (auto simp: may_send_def intro: exI [of _ "[]"])
qed

text \<open>
  One turn: the client of the association is set once, by an admissible datagram, and what is sent
  answers the datagram received.
\<close>

definition turn_ok ::
  "ip_addr option \<Rightarrow> socket_addr option \<Rightarrow> (bytes \<times> socket_addr) option \<Rightarrow>
   (merino_error, socket_addr option option) poll \<Rightarrow> (bytes \<times> socket_addr) list \<Rightarrow> bool" where
  "turn_ok expd ca rec q outs \<longleftrightarrow>
     (\<forall>ca'. q = Done (Some ca') \<longrightarrow> ca' = ca \<or>
        ca = None \<and> (\<exists>data src. rec = Some (data, src) \<and> admits expd src \<and> ca' = Some src)) \<and>
     length outs \<le> 1 \<and>
     (\<forall>out\<in>set outs. \<exists>data src client. rec = Some (data, src) \<and> may_send client (data, src) out \<and>
        (ca = Some client \<or> ca = None \<and> client = src \<and> admits expd src) \<and>
        (\<forall>ca'. q = Done (Some ca') \<longrightarrow> ca' = Some client))"

lemma udp_recv_sends:
  assumes turn: "udp_turn expd ca (Recv lk (Inr (datagram, src))) c = (q, c')"
  shows "\<exists>outs. datagrams c' = datagrams c @ outs \<and> turn_ok expd ca (Some (take 65535 datagram, src)) q outs"
proof -
  let ?data = "take 65535 datagram"
  obtain p d where fwd: "udp_forward lk ?data c = (p, d)" by (cases "udp_forward lk ?data c")
  from udp_forward_sends [OF fwd, of src] obtain outs where outs: "datagrams d = datagrams c @ outs"
    "length outs \<le> 1" "\<forall>out\<in>set outs. may_send src (?data, src) out" by blast
  consider (client) "ca = None \<and> admits expd src \<or> ca = Some src"
    | (refused) "ca = None" "\<not> admits expd src"
    | (other) client where "ca = Some client" "client \<noteq> src" by (cases ca) auto
  then show ?thesis
  proof cases
    case client
    have "bindA (udp_forward lk ?data) (\<lambda>_. ret (Some (Some src))) c = (q, c')"
      using turn client by (auto simp: admits_def Let_def split: option.splits)
    then have "\<forall>ca'. q = Done (Some ca') \<longrightarrow> ca' = Some src" "c' = d"
      using fwd by (cases p; auto simp: ret_def)+
    then show ?thesis using client outs by (auto simp: turn_ok_def intro!: exI [of _ outs])
  next
    case refused
    then have "q = Done (Some None)" "c' = c" using turn by (auto simp: admits_def split: option.splits)
    then show ?thesis using refused by (auto simp: turn_ok_def intro!: exI [of _ "[]"])
  next
    case other
    let ?out = "(encode_udp_header src @ ?data, client)"
    have "q = Done (Some (Some client))" "datagrams c' = datagrams c @ [?out]"
      using turn other by (auto simp: udp_reply_def Let_def modify_def bindA_def ret_def)
    moreover have "may_send client (?data, src) ?out" using other by (simp add: may_send_def)
    ultimately show ?thesis using other by (auto simp: turn_ok_def intro!: exI [of _ "[?out]"])
  qed
qed

lemma udp_turn_sends:
  assumes "udp_turn expd ca ev c = (q, c')"
  shows "\<exists>outs. datagrams c' = datagrams c @ outs \<and> turn_ok expd ca (received ev) q outs"
proof (cases ev)
  case Control
  obtain p s where "read_some 1 1 (stream c) = (p, s)" by (cases "read_some 1 1 (stream c)")
  then show ?thesis
    using assms Control
    by (cases p) (auto simp: on_stream_def turn_ok_def split: if_splits intro!: exI [of _ "[]"])
next
  case (Recv lk res)
  show ?thesis
  proof (cases res)
    case (Inl e)
    with assms Recv show ?thesis by (auto simp: turn_ok_def intro!: exI [of _ "[]"])
  next
    case (Inr ds)
    obtain datagram src where ds: "ds = (datagram, src)" by (cases ds)
    with assms Recv Inr udp_recv_sends [of expd ca lk datagram src c q c'] show ?thesis
      by (simp only: received_def udp_event.case sum.case prod.case)
  qed
qed

lemma udp_loop_sends:
  assumes "udp_loop expd evs ca c = (q, c')"
  shows "\<exists>client outs. datagrams c' = datagrams c @ outs \<and> (ca \<noteq> None \<longrightarrow> ca = Some client) \<and>
    (ca = None \<and> outs \<noteq> [] \<longrightarrow> admits expd client) \<and>
    (\<forall>out\<in>set outs. \<exists>r\<in>set (List.map_filter received evs). may_send client r out)"
  using assms
proof (induction evs arbitrary: ca c)
  case Nil
  then show ?case by auto
next
  case (Cons ev evs)
  obtain p c1 where turn: "udp_turn expd ca ev c = (p, c1)" by (cases "udp_turn expd ca ev c")
  from udp_turn_sends [OF turn, unfolded turn_ok_def] obtain outs1 where o1: "datagrams c1 = datagrams c @ outs1"
    "\<And>out. out \<in> set outs1 \<Longrightarrow> \<exists>data src client. received ev = Some (data, src) \<and>
       may_send client (data, src) out \<and> (ca = Some client \<or> ca = None \<and> client = src \<and> admits expd src) \<and>
       (\<forall>ca'. p = Done (Some ca') \<longrightarrow> ca' = Some client)" "length outs1 \<le> 1"
    and nxt: "\<And>ca'. p = Done (Some ca') \<Longrightarrow> ca' = ca \<or>
      ca = None \<and> (\<exists>data src. received ev = Some (data, src) \<and> admits expd src \<and> ca' = Some src)"
    by blast
  show ?case
  proof (cases "\<exists>ca'. p = Done (Some ca')")
    case False
    then have c': "c' = c1" using Cons.prems turn by (cases p) (auto simp: ret_def split: option.splits)
    show ?thesis
    proof (cases outs1)
      case Nil
      then show ?thesis using o1(1) c' by (intro exI [of _ "case ca of Some x \<Rightarrow> x"] exI [of _ "[]"]) auto
    next
      case (Cons out tl)
      with o1(2) [of out] o1(3) o1(1) c' show ?thesis by fastforce
    qed
  next
    case True
    then obtain ca' where p: "p = Done (Some ca')" ..
    with Cons.prems turn have "udp_loop expd evs ca' c1 = (q, c')" by simp
    from Cons.IH [OF this] obtain client outs2 where o2: "datagrams c' = datagrams c1 @ outs2"
      "ca' \<noteq> None \<longrightarrow> ca' = Some client" "ca' = None \<and> outs2 \<noteq> [] \<longrightarrow> admits expd client"
      "\<forall>out\<in>set outs2. \<exists>r\<in>set (List.map_filter received evs). may_send client r out" by blast
    have "\<forall>out\<in>set (outs1 @ outs2). \<exists>r\<in>set (List.map_filter received (ev # evs)). may_send client r out"
      using o1(2) o2(2,4) p by (fastforce split: option.splits)
    moreover have "ca \<noteq> None \<longrightarrow> ca = Some client" using nxt [OF p] o2(2) by auto
    moreover have "ca = None \<and> outs1 @ outs2 \<noteq> [] \<longrightarrow> admits expd client"
      using nxt [OF p] o2(2,3) o1(2) p by (cases outs1) fastforce+
    ultimately show ?thesis using o1(1) o2(1) by (metis append.assoc)
  qed
qed

lemma reply_keeps_datagrams:
  "io (reply_send r) c = (q, c1) \<Longrightarrow> datagrams c1 = datagrams c"
  by (auto simp: io_def map_error_def on_stream_def split: prod.splits poll.splits)

section \<open>Properties\<close>

text \<open>
  C16. A \<open>UDP ASSOCIATE\<close> relay serves one client and never relays for anyone else: there is one
  client address, admitted by the address the request declares, such that every datagram sent is
  either a framed copy, to that client, of a datagram received from another address, or the
  payload of an unfragmented well-formed datagram received from that client.
\<close>

theorem udp_associate_isolated:
  assumes "handle_udp_associate bind_udp evs req c = (q, c')"
  shows "\<exists>client outs. datagrams c' = datagrams c @ outs \<and>
    (outs \<noteq> [] \<longrightarrow> admits (expected_ip (req_addr_type req) (req_addr req)) client) \<and>
    (\<forall>out\<in>set outs. \<exists>r\<in>set (List.map_filter received evs). may_send client r out)"
proof (cases "bind_udp (socket_addr_new (local_interface c) 0)")
  case (Inl e)
  with assms show ?thesis by (auto simp: handle_udp_associate_def throw_def)
next
  case (Inr addr)
  let ?expd = "expected_ip (req_addr_type req) (req_addr req)"
  obtain p c1 where r: "io (reply_send (reply_with_addr Success addr)) c = (p, c1)"
    by (cases "io (reply_send (reply_with_addr Success addr)) c")
  obtain p2 c2 where l: "udp_loop ?expd evs None c1 = (p2, c2)" by (cases "udp_loop ?expd evs None c1")
  have "c' = c1 \<or> c' = c2"
    using assms Inr r l by (cases p; cases p2) (auto simp: handle_udp_associate_def ret_def)
  with udp_loop_sends [OF l] reply_keeps_datagrams [OF r] show ?thesis by auto
qed

definition unresolved :: resolution where
  "unresolved = \<lparr>lookup_host = (\<lambda>_. Pending), asked_at = 0, answered_at = 0, others_before = id, others_during = id\<rparr>"

definition demo_udp_events :: "udp_event list" where
  "demo_udp_events =
     [Recv unresolved (Inr ([0, 0, 0, 1, 9, 9, 9, 9, 0, 53, 42], SocketAddrV4 0x7f000001 1000)),
      Recv unresolved (Inr ([43], SocketAddrV4 0x09090909 53))]"

lemma demo_udp_run:
  "datagrams (snd (handle_udp_associate Inr demo_udp_events demo_request (demo_conn []))) =
     [([42], SocketAddrV4 0x09090909 53),
      ([0, 0, 0, 1, 9, 9, 9, 9, 0, 53, 43], SocketAddrV4 0x7f000001 1000)]"
proof -
  have "datagrams (demo_conn []) = []" "\<not> has_stats (demo_conn [])"
    by (simp_all add: demo_conn_def connection_def sock_client_new_def with_credential_width_def sock_client.defs)
  moreover have "parse_udp_header [0, 0, 0, 1, 9, 9, 9, 9, 0, 53, 42] =
      Inr (\<lparr>udp_frag = 0, udp_addr_type = V4, udp_addr = [9, 9, 9, 9], udp_port = 53\<rparr>, 10)"
    by (simp add: parse_udp_header_def addr_type_from_def ok_or_def bindE_def take_bytes_def take_port_def)
  moreover have "from_be_bytes [9, 9, 9, 9] = (0x09090909 :: u32)" by (simp add: from_be_bytes_def)
  moreover have "encode_udp_header (SocketAddrV4 0x09090909 53) = [0, 0, 0, 1, 9, 9, 9, 9, 0, 53]"
    by (simp add: RESERVED_def to_be_bytes_4 to_be_bytes_2)
  moreover have "expected_ip V4 [127, 0, 0, 1] = Some (IpV4 0x7f000001)"
    by (simp add: expected_ip_def from_be_bytes_def)
  ultimately show ?thesis
    by (simp add: handle_udp_associate_def demo_udp_events_def bindA_def get_state_def io_def map_error_def
        on_stream_def reply_send_eq write_all_def next_tx_def demo_request_def udp_forward_def
        resolve_def ret_def modify_def send_to_def note_stats_def udp_reply_def Let_def del: encode_udp_header.simps)
qed

theorem udp_associate_isolated_witness:
  "\<exists>client r1 r2. r1 \<in> set (List.map_filter received demo_udp_events) \<and>
    may_send client r1 ([42], SocketAddrV4 0x09090909 53) \<and>
    r2 \<in> set (List.map_filter received demo_udp_events) \<and>
    may_send client r2 ([0, 0, 0, 1, 9, 9, 9, 9, 0, 53, 43], SocketAddrV4 0x7f000001 1000)"
proof -
  have none: "datagrams (demo_conn []) = []" by (simp add: demo_conn_def connection_def sock_client.defs)
  obtain client where "\<forall>out\<in>{([42], SocketAddrV4 0x09090909 53),
      ([0, 0, 0, 1, 9, 9, 9, 9, 0, 53, 43], SocketAddrV4 0x7f000001 1000)}.
    \<exists>r\<in>set (List.map_filter received demo_udp_events). may_send client r out"
    using udp_associate_isolated [OF prod.collapse [symmetric], of Inr demo_udp_events demo_request "demo_conn []"]
      demo_udp_run none by auto
  then show ?thesis by (intro exI [of _ client]) auto
qed

text \<open>
  C35. The frame put before a datagram for the client is read back by the parser as the address of
  the sender, unfragmented, and gives back the datagram itself.
\<close>

theorem udp_reply_roundtrip:
  "\<exists>n. parse_udp_header (encode_udp_header src @ data) =
     Inr (\<lparr>udp_frag = 0, udp_addr_type = sock_addr_type src, udp_addr = sock_octets src,
           udp_port = sock_port src\<rparr>, n) \<and>
     drop n (encode_udp_header src @ data) = data \<and>
     addr_to_socket r (sock_addr_type src) (sock_octets src) (sock_port src) cache =
       (Done [socket_addr_new (sock_ip src) (sock_port src)], cache)"
proof -
  let ?u = "\<lparr>udp_frag = 0, udp_addr_type = sock_addr_type src, udp_addr = sock_octets src,
      udp_port = sock_port src\<rparr>"
  have "parse_udp_header (udp_frame 0 0 ?u @ data) = Inr (?u, length (udp_frame 0 0 ?u))" by simp
  then show ?thesis by (simp add: encode_udp_header_frame addr_to_socket_octets)
qed

text \<open>
  Closing the control connection, or a read error on it, ends the association; data on it does not.
\<close>

lemma udp_control_close:
  "fst (udp_loop expd (Control # evs) client c) =
     (if rx (stream c) = [] \<and> rx_end (stream c) \<noteq> RxStall then Done ()
      else fst (udp_loop expd evs client (c\<lparr>stream := (stream c)\<lparr>rx := drop 1 (rx (stream c))\<rparr>\<rparr>)))"
proof -
  have same: "rx s = [] \<Longrightarrow> s\<lparr>rx := []\<rparr> = s" for s :: stream by (cases s) simp
  show ?thesis
    by (cases "rx (stream c) = []"; cases "rx_end (stream c)")
      (simp_all add: bindA_def on_stream_def read_some_def ret_def same)
qed

text \<open>
  C17. Addresses are well-typed where they are used: the address of a request that was negotiated and of
  a datagram header that was parsed has the width of its type, so resolving a literal address
  cannot fail (the checks for a wrong length never fire), and the payload of a datagram starts
  within the datagram.
\<close>

theorem parsed_addresses_typed:
  assumes "negotiate c = (Done req, c')" "parse_udp_header data = Inr (h, n)"
  shows "wf_addr (req_addr_type req) (req_addr req) \<and> wf_addr (udp_addr_type h) (udp_addr h) \<and> n \<le> length data \<and>
    (req_addr_type req \<noteq> DomainName \<longrightarrow>
       (\<exists>a. addr_to_socket r (req_addr_type req) (req_addr req) (req_port req) d = (Done [a], d))) \<and>
    (udp_addr_type h \<noteq> DomainName \<longrightarrow>
       (\<exists>a. addr_to_socket r (udp_addr_type h) (udp_addr h) (udp_port h) d = (Done [a], d)))"
proof -
  have lit: "\<exists>x. addr_to_socket r t a p d = (Done [x], d)" if "wf_addr t a" "t \<noteq> DomainName" for t a p
    using that by (cases t) simp_all
  have "wf_addr (req_addr_type req) (req_addr req)"
    using assms(1) by (auto simp: negotiate_Done_iff wf_request_def)
  moreover have "wf_addr (udp_addr_type h) (udp_addr h)" "n \<le> length data"
    using assms(2) by (auto simp: parse_udp_header_iff length_udp_frame)
  ultimately show ?thesis using lit by blast
qed

theorem parsed_addresses_typed_witness:
  "\<exists>req c' h n. negotiate (demo_conn (ascii ''secret'')) = (Done req, c') \<and>
    parse_udp_header [0, 0, 0, 1, 127, 0, 0, 1, 0, 53, 9] = Inr (h, n) \<and> n \<le> 11 \<and> wf_addr (req_addr_type req) (req_addr req)"
proof -
  let ?h = "\<lparr>udp_frag = 0, udp_addr_type = V4, udp_addr = [127, 0, 0, 1], udp_port = 53\<rparr>"
  have "parse_udp_header (udp_frame 0 0 ?h @ [9]) = Inr (?h, length (udp_frame 0 0 ?h))" by (rule parse_udp_frame) simp
  moreover have "udp_frame 0 0 ?h @ [9] = [0, 0, 0, 1, 127, 0, 0, 1, 0, 53, 9]"
    by (simp add: udp_frame_def to_be_bytes_def)
  ultimately obtain h n where hd: "parse_udp_header [0, 0, 0, 1, 127, 0, 0, 1, 0, 53, 9] = Inr (h, n)" by metis
  from parsed_addresses_typed [OF demo_negotiated hd, of unresolved None]
  have "n \<le> 11" "wf_addr (req_addr_type demo_request) (req_addr demo_request)"
    by (simp_all add: eval_nat_numeral)
  with demo_negotiated hd show ?thesis by blast
qed

end
