(* ===== verification/Relay.thy ===== *)
theory Relay
  imports Async_IO "HOL-Library.Sublist"
begin

text \<open>
  \<open>copy_bidirectional_counted\<close> of \<open>src/lib.rs\<close>: the relay between the client stream \<open>a\<close> and the
  target stream \<open>b\<close>. The loop is driven by a schedule: which arm of the \<open>select!\<close> becomes ready
  next and how many bytes its \<open>read\<close> gets, or a tick of the publishing timer. An arm that is
  disabled or whose stream has nothing to read cannot be chosen: such an event changes nothing.
  The body of an arm runs to its end before the loop selects again, so a write that stalls
  stalls the loop (the timer would still publish the totals reached by then, which do not change
  any more). A schedule that ends while a side is open is a relay still running: \<open>Pending\<close>.
\<close>

section \<open>Definitions\<close>

definition RELAY_BUF_SIZE :: nat where
  "RELAY_BUF_SIZE = 8 * 1024"

record relay =
  side_a :: stream
  side_b :: stream
  a_open :: bool
  b_open :: bool
  up :: u64
  down :: u64
  ticking :: bool
  published :: "(u64 \<times> u64) option"

datatype relay_event = ReadA nat | ReadB nat | Tick

text \<open>
  The body of one arm of the \<open>select!\<close>: read from \<open>src\<close>, shut \<open>dst\<close> down on end of stream (its
  outcome is ignored), otherwise write, flush and report the number of bytes. \<open>None\<close>: not ready.
\<close>

definition relay_arm ::
  "nat \<Rightarrow> stream \<Rightarrow> stream \<Rightarrow> (error_kind, nat option) poll \<times> stream \<times> stream" where
  "relay_arm n src dst =
     (case read_some RELAY_BUF_SIZE n src of
        (Done bs, src') \<Rightarrow>
          if bs = [] then
            (case shutdown_stream dst of
               (Done _, dst') \<Rightarrow> (Done (Some 0), src', dst')
             | (Raise _, dst') \<Rightarrow> (Done (Some 0), src', dst')
             | (Pending, dst') \<Rightarrow> (Pending, src', dst')
             | (Panicked, dst') \<Rightarrow> (Panicked, src', dst'))
          else
            (case bindA (write_all bs) (\<lambda>_. flush_stream) dst of
               (Done _, dst') \<Rightarrow> (Done (Some (length bs)), src', dst')
             | (Raise e, dst') \<Rightarrow> (Raise e, src', dst')
             | (Pending, dst') \<Rightarrow> (Pending, src', dst')
             | (Panicked, dst') \<Rightarrow> (Panicked, src', dst'))
      | (Raise e, src') \<Rightarrow> (Raise e, src', dst)
      | (Pending, src') \<Rightarrow> (Done None, src', dst)
      | (Panicked, src') \<Rightarrow> (Panicked, src', dst))"

fun relay_step :: "relay_event \<Rightarrow> (relay, error_kind, unit) async" where
  "relay_step (ReadA n) r =
     (if \<not> a_open r then (Done (), r)
      else
        case relay_arm n (side_a r) (side_b r) of (res, a, b) \<Rightarrow>
          let r' = r\<lparr>side_a := a, side_b := b\<rparr> in
          case res of
            Done None \<Rightarrow> (Done (), r')
          | Done (Some k) \<Rightarrow>
              (Done (), if k = 0 then r'\<lparr>a_open := False\<rparr> else r'\<lparr>up := up r + of_nat k\<rparr>)
          | Raise e \<Rightarrow> (Raise e, r')
          | Pending \<Rightarrow> (Pending, r')
          | Panicked \<Rightarrow> (Panicked, r'))"
| "relay_step (ReadB n) r =
     (if \<not> b_open r then (Done (), r)
      else
        case relay_arm n (side_b r) (side_a r) of (res, b, a) \<Rightarrow>
          let r' = r\<lparr>side_a := a, side_b := b\<rparr> in
          case res of
            Done None \<Rightarrow> (Done (), r')
          | Done (Some k) \<Rightarrow>
              (Done (), if k = 0 then r'\<lparr>b_open := False\<rparr> else r'\<lparr>down := down r + of_nat k\<rparr>)
          | Raise e \<Rightarrow> (Raise e, r')
          | Pending \<Rightarrow> (Pending, r')
          | Panicked \<Rightarrow> (Panicked, r'))"
| "relay_step Tick r = (Done (), if ticking r then r\<lparr>published := Some (up r, down r)\<rparr> else r)"

fun relay_loop :: "relay_event list \<Rightarrow> (relay, error_kind, unit) async" where
  "relay_loop [] r = (if a_open r \<or> b_open r then Pending else Done (), r)"
| "relay_loop (ev # evs) r =
     (if a_open r \<or> b_open r then bindA (relay_step ev) (\<lambda>_. relay_loop evs) r
      else (Done (), r))"

definition relay_start :: "stream \<Rightarrow> stream \<Rightarrow> bool \<Rightarrow> bool \<Rightarrow> relay" where
  "relay_start a b has_stats has_counters =
     \<lparr>side_a = a, side_b = b, a_open = True, b_open = True, up = 0, down = 0,
      ticking = (has_stats \<and> has_counters), published = None\<rparr>"

definition copy_bidirectional_counted ::
  "relay_event list \<Rightarrow> stream \<Rightarrow> stream \<Rightarrow> bool \<Rightarrow> bool \<Rightarrow> (error_kind, u64 \<times> u64) poll \<times> relay" where
  "copy_bidirectional_counted evs a b has_stats has_counters =
     bindA (relay_loop evs)
       (\<lambda>_ r. (Done (up r, down r),
               if has_counters then r\<lparr>published := Some (up r, down r)\<rparr> else r))
       (relay_start a b has_stats has_counters)"

section \<open>One direction\<close>

text \<open>
  What has happened in one direction: the chunks \<open>cs\<close> written so far are a split of what was read,
  a shutdown can only come at the end, and the count is the number of bytes.
\<close>

definition flow :: "bytes \<Rightarrow> tx_event list \<Rightarrow> bytes \<Rightarrow> tx_event list \<Rightarrow> bool \<Rightarrow> u64 \<Rightarrow> bool" where
  "flow rx0 sent0 rx' sent' is_open n \<longleftrightarrow>
     (\<exists>cs tail. sent' = sent0 @ map Sent cs @ tail \<and> rx0 = concat cs @ rx' \<and>
        tail \<in> {[], [Shut]} \<and> (is_open \<longrightarrow> tail = []) \<and> (\<not> is_open \<longrightarrow> rx' = []) \<and>
        n = of_nat (length (concat cs)))"

lemma relay_arm_read:
  assumes "read_some RELAY_BUF_SIZE n src = (Done bs, s1)"
  shows "bs = [] \<Longrightarrow> shutdown_stream dst = (q, d1) \<Longrightarrow>
      relay_arm n src dst = (case q of Pending \<Rightarrow> Pending | Panicked \<Rightarrow> Panicked | _ \<Rightarrow> Done (Some 0), s1, d1)"
    "bs \<noteq> [] \<Longrightarrow> write_all bs dst = (Done (), d1) \<Longrightarrow> flush_stream d1 = (q, d2) \<Longrightarrow>
      relay_arm n src dst = (case q of Done _ \<Rightarrow> Done (Some (length bs)) | Raise e \<Rightarrow> Raise e
        | Pending \<Rightarrow> Pending | Panicked \<Rightarrow> Panicked, s1, d2)"
    "bs \<noteq> [] \<Longrightarrow> write_all bs dst = (q, d1) \<Longrightarrow> q \<noteq> Done () \<Longrightarrow>
      relay_arm n src dst = (case q of Raise e \<Rightarrow> Raise e | Pending \<Rightarrow> Pending | _ \<Rightarrow> Panicked, s1, d1)"
  using assms by (cases q; simp add: relay_arm_def)+

lemma relay_arm_cases:
  assumes "relay_arm n src dst = (res, src', dst')"
  shows "rx_end src' = rx_end src \<and> sent src' = sent src \<and> rx dst' = rx dst \<and> rx_end dst' = rx_end dst \<and>
    res \<noteq> Panicked \<and>
    (res = Done None \<longrightarrow> src' = src \<and> dst' = dst) \<and>
    (\<forall>k. res = Done (Some k) \<longrightarrow>
       (if k = 0 then rx src = [] \<and> rx src' = [] \<and> rx_end src = RxEof \<and>
          (sent dst' = sent dst \<or> sent dst' = sent dst @ [Shut])
        else \<exists>bs. length bs = k \<and> rx src = bs @ rx src' \<and> sent dst' = sent dst @ [Sent bs]))"
proof -
  obtain p s1 where rd: "read_some RELAY_BUF_SIZE n src = (p, s1)" by (cases "read_some RELAY_BUF_SIZE n src")
  note rframe = read_some_frame [OF rd]
  show ?thesis
  proof (cases p)
    case (Done bs)
    have "0 < RELAY_BUF_SIZE" by (simp add: RELAY_BUF_SIZE_def)
    note rdone = read_some_Done [OF rd [unfolded Done] this] and arm = relay_arm_read [OF rd [unfolded Done], of dst]
    obtain q d1 where sd: "shutdown_stream dst = (q, d1)" by (cases "shutdown_stream dst")
    obtain q' d1' where wr: "write_all bs dst = (q', d1')" by (cases "write_all bs dst")
    obtain q2 d2 where fl: "flush_stream d1' = (q2, d2)" by (cases "flush_stream d1'")
    note wframe = write_all_frame [OF wr] and fframe = flush_frame [OF fl]
    consider (eof) "bs = []" | (written) "bs \<noteq> []" "q' = Done ()" | (fail) "bs \<noteq> []" "q' \<noteq> Done ()" by blast
    then show ?thesis
    proof cases
      case eof
      with rdone have "rx src = []" "rx s1 = []" "rx_end src = RxEof" by auto
      with assms arm(1) [OF eof sd] rframe shutdown_frame [OF sd] show ?thesis by (cases q) auto
    next
      case written
      then have "rx src = bs @ rx s1" "sent d2 = sent dst @ [Sent bs]"
        using conjunct1 [OF rdone] wframe fframe by simp_all
      moreover from assms arm(2) [OF written(1) wr [unfolded written(2)] fl]
      have "res = (case q2 of Done _ \<Rightarrow> Done (Some (length bs)) | Raise e \<Rightarrow> Raise e
          | Pending \<Rightarrow> Pending | Panicked \<Rightarrow> Panicked)" "src' = s1" "dst' = d2" by auto
      ultimately show ?thesis using written(1) rframe wframe fframe by (cases q2) simp_all
    next
      case fail
      with assms arm(3) [OF fail(1) wr fail(2)] rframe wframe show ?thesis by (cases q') auto
    qed
  next
    case Pending
    with rd have "s1 = src" by (cases "rx_end src") (auto simp: read_some_def Let_def split: if_splits)
    with assms Pending rd show ?thesis by (auto simp: relay_arm_def)
  qed (use assms rd rframe in \<open>auto simp: relay_arm_def\<close>)
qed

lemma relay_arm_flow:
  assumes arm: "relay_arm n src dst = (Done (Some k), src', dst')"
    and fl: "flow rx0 sent0 (rx src) (sent dst) True c"
  shows "flow rx0 sent0 (rx src') (sent dst') (k \<noteq> 0) (c + of_nat k)"
proof -
  from fl obtain cs where cs: "sent dst = sent0 @ map Sent cs" "rx0 = concat cs @ rx src"
    "c = of_nat (length (concat cs))"
    by (auto simp: flow_def)
  show ?thesis
  proof (cases "k = 0")
    case True
    with relay_arm_cases [OF arm] have "rx src = []" "rx src' = []"
      "sent dst' = sent dst \<or> sent dst' = sent dst @ [Shut]" by auto
    with cs True show ?thesis by (auto simp: flow_def intro!: exI [of _ cs])
  next
    case False
    with relay_arm_cases [OF arm] obtain bs where "length bs = k" "rx src = bs @ rx src'"
      "sent dst' = sent dst @ [Sent bs]" by auto
    with cs False show ?thesis by (auto simp: flow_def intro!: exI [of _ "cs @ [bs]"])
  qed
qed

definition relay_inv :: "stream \<Rightarrow> stream \<Rightarrow> relay \<Rightarrow> bool" where
  "relay_inv a0 b0 r \<longleftrightarrow>
     flow (rx a0) (sent b0) (rx (side_a r)) (sent (side_b r)) (a_open r) (up r) \<and>
     flow (rx b0) (sent a0) (rx (side_b r)) (sent (side_a r)) (b_open r) (down r) \<and>
     rx_end (side_a r) = rx_end a0 \<and> rx_end (side_b r) = rx_end b0 \<and>
     (\<not> a_open r \<longrightarrow> rx_end a0 = RxEof) \<and> (\<not> b_open r \<longrightarrow> rx_end b0 = RxEof)"

lemma relay_start_inv: "relay_inv a b (relay_start a b hs hc)"
  by (auto simp: relay_inv_def relay_start_def flow_def)

lemma relay_step_inv:
  assumes st: "relay_step ev r = (Done u, r')" and inv: "relay_inv a0 b0 r"
  shows "relay_inv a0 b0 r'"
proof (cases ev)
  case (ReadA n)
  obtain res a b where arm: "relay_arm n (side_a r) (side_b r) = (res, a, b)"
    by (cases "relay_arm n (side_a r) (side_b r)") auto
  note flow_up = relay_arm_flow [of n "side_a r" "side_b r" _ a b "rx a0" "sent b0" "up r"]
  show ?thesis
    using st inv ReadA arm relay_arm_cases [OF arm] flow_up
    by (cases res) (auto simp: relay_inv_def Let_def split: if_splits option.splits)
next
  case (ReadB n)
  obtain res a b where arm: "relay_arm n (side_b r) (side_a r) = (res, b, a)"
    by (cases "relay_arm n (side_b r) (side_a r)") auto
  note flow_down = relay_arm_flow [of n "side_b r" "side_a r" _ b a "rx b0" "sent a0" "down r"]
  show ?thesis
    using st inv ReadB arm relay_arm_cases [OF arm] flow_down
    by (cases res) (auto simp: relay_inv_def Let_def split: if_splits option.splits)
next
  case Tick
  then show ?thesis using st inv by (auto simp: relay_inv_def split: if_splits)
qed

lemma relay_loop_Done:
  assumes "relay_loop evs r = (Done u, r')" "relay_inv a0 b0 r"
  shows "relay_inv a0 b0 r' \<and> \<not> a_open r' \<and> \<not> b_open r'"
  using assms
proof (induction evs arbitrary: r)
  case (Cons ev evs)
  then show ?case
    by (auto simp: bindA_Done_iff split: if_splits intro: relay_step_inv)
qed (auto split: if_splits)

lemma calm_relay_loop [calm_intros]: "calm (relay_loop evs)"
proof (induction evs)
  case Nil
  show ?case by (simp add: calm_def)
next
  case (Cons ev evs)
  have "calm (relay_step ev)"
    unfolding calm_def
  proof
    fix r
    show "fst (relay_step ev r) \<noteq> Panicked"
    proof (cases ev)
      case (ReadA n)
      obtain res a b where arm: "relay_arm n (side_a r) (side_b r) = (res, a, b)"
        by (cases "relay_arm n (side_a r) (side_b r)") auto
      with ReadA relay_arm_cases [OF arm] show ?thesis by (cases res) (auto simp: Let_def split: option.splits)
    next
      case (ReadB n)
      obtain res a b where arm: "relay_arm n (side_b r) (side_a r) = (res, b, a)"
        by (cases "relay_arm n (side_b r) (side_a r)") auto
      with ReadB relay_arm_cases [OF arm] show ?thesis by (cases res) (auto simp: Let_def split: option.splits)
    qed simp
  qed
  from calm_bindA [OF this Cons] show ?case by (simp add: calm_def)
qed

lemma copy_bidirectional_calm: "fst (copy_bidirectional_counted evs a b hs hc) \<noteq> Panicked"
proof -
  have "calm (bindA (relay_loop evs)
      (\<lambda>_ r. (Done (up r, down r), if hc then r\<lparr>published := Some (up r, down r)\<rparr> else r)))"
    by (intro calm_intros) (simp add: calm_def)
  then show ?thesis by (simp add: calm_def copy_bidirectional_counted_def)
qed

section \<open>Relays that do not finish\<close>

text \<open>Even a failing or stalling arm puts nothing on the wire but bytes it read, in order.\<close>

lemma relay_arm_prefix:
  assumes "relay_arm n src dst = (res, src', dst')"
  shows "\<exists>xs. sent dst' = sent dst @ xs \<and> prefix (wire_of xs) (rx src)"
proof -
  obtain p s1 where rd: "read_some RELAY_BUF_SIZE n src = (p, s1)" by (cases "read_some RELAY_BUF_SIZE n src")
  show ?thesis
  proof (cases "\<exists>bs. p = Done bs \<and> bs \<noteq> []")
    case False
    obtain q d1 where sd: "shutdown_stream dst = (q, d1)" by (cases "shutdown_stream dst")
    have "\<exists>xs. sent d1 = sent dst @ xs \<and> wire_of xs = []" using shutdown_frame [OF sd] by auto
    moreover have "dst' = dst \<or> dst' = d1"
      using assms rd sd False by (cases p; cases q) (auto simp: relay_arm_def)
    ultimately show ?thesis by (metis append_Nil2 prefix_order.dual_order.refl wire_of.simps(1) prefix_bot.bot_least)
  next
    case True
    then obtain bs where bs: "p = Done bs" "bs \<noteq> []" by auto
    obtain q d1 where wr: "write_all bs dst = (q, d1)" by (cases "write_all bs dst")
    obtain q2 d2 where fl: "flush_stream d1 = (q2, d2)" by (cases "flush_stream d1")
    have "dst' = d1 \<or> dst' = d2"
      using assms rd bs wr fl by (cases q; cases q2) (auto simp: relay_arm_def)
    moreover from write_all_frame [OF wr] flush_frame [OF fl] obtain m
      where "sent d1 = sent dst @ [Sent (take m bs)]" "sent d2 = sent d1" by auto
    moreover have "prefix (take m bs) (rx src)"
    proof -
      have "rx src = bs @ rx s1"
        using read_some_Done [of RELAY_BUF_SIZE n src bs s1] rd bs by (simp add: RELAY_BUF_SIZE_def)
      then show ?thesis by (metis append.assoc append_take_drop_id prefixI)
    qed
    ultimately show ?thesis by auto
  qed
qed

lemma flow_prefix:
  assumes "flow rx0 sent0 rx1 sent1 is_open c" "sent2 = sent1 @ xs" "prefix (wire_of xs) rx1"
  shows "\<exists>ys. sent2 = sent0 @ ys \<and> prefix (wire_of ys) rx0"
proof -
  from assms(1) obtain cs tail where "sent1 = sent0 @ map Sent cs @ tail" "rx0 = concat cs @ rx1"
    "tail \<in> {[], [Shut]}"
    unfolding flow_def by blast
  moreover from this(3) have "wire_of tail = []" by auto
  ultimately show ?thesis
    using assms(2,3) by (intro exI [of _ "map Sent cs @ tail @ xs"]) simp
qed

lemma flow_closed:
  assumes "flow rx0 sent0 rx1 sent1 False n"
  shows "(\<exists>cs tail. sent1 = sent0 @ map Sent cs @ tail \<and> concat cs = rx0 \<and> tail \<in> {[], [Shut]}) \<and>
    n = of_nat (length rx0)"
proof -
  from assms obtain cs tail where "sent1 = sent0 @ map Sent cs @ tail" "rx0 = concat cs @ rx1"
    "tail \<in> {[], [Shut]}" "rx1 = []" "n = of_nat (length (concat cs))"
    unfolding flow_def by blast
  then show ?thesis by (intro conjI exI [of _ cs] exI [of _ tail]) simp_all
qed

definition relay_safe :: "stream \<Rightarrow> stream \<Rightarrow> relay \<Rightarrow> bool" where
  "relay_safe a0 b0 r \<longleftrightarrow>
     (\<exists>xs. sent (side_b r) = sent b0 @ xs \<and> prefix (wire_of xs) (rx a0)) \<and>
     (\<exists>ys. sent (side_a r) = sent a0 @ ys \<and> prefix (wire_of ys) (rx b0))"

lemma relay_inv_safe: "relay_inv a0 b0 r \<Longrightarrow> relay_safe a0 b0 r"
  using flow_prefix [of "rx a0" "sent b0" "rx (side_a r)" "sent (side_b r)" "a_open r" "up r" _ "[]"]
    flow_prefix [of "rx b0" "sent a0" "rx (side_b r)" "sent (side_a r)" "b_open r" "down r" _ "[]"]
  by (simp add: relay_inv_def relay_safe_def)

lemma relay_step_safe:
  assumes st: "relay_step ev r = (p, r')" and inv: "relay_inv a0 b0 r"
  shows "relay_safe a0 b0 r'"
proof (cases ev)
  case (ReadA n)
  obtain res a b where arm: "relay_arm n (side_a r) (side_b r) = (res, a, b)"
    by (cases "relay_arm n (side_a r) (side_b r)") auto
  have "r' = r \<or> side_a r' = a \<and> side_b r' = b"
    using st ReadA arm by (cases res) (auto simp: Let_def split: if_splits option.splits)
  moreover from relay_arm_prefix [OF arm] obtain xs
    where "sent b = sent (side_b r) @ xs" "prefix (wire_of xs) (rx (side_a r))" by auto
  ultimately show ?thesis
    using relay_inv_safe [OF inv] inv relay_arm_cases [OF arm]
      flow_prefix [of "rx a0" "sent b0" "rx (side_a r)" "sent (side_b r)" "a_open r" "up r" "sent b" xs]
    by (auto simp: relay_safe_def relay_inv_def)
next
  case (ReadB n)
  obtain res a b where arm: "relay_arm n (side_b r) (side_a r) = (res, b, a)"
    by (cases "relay_arm n (side_b r) (side_a r)") auto
  have "r' = r \<or> side_a r' = a \<and> side_b r' = b"
    using st ReadB arm by (cases res) (auto simp: Let_def split: if_splits option.splits)
  moreover from relay_arm_prefix [OF arm] obtain xs
    where "sent a = sent (side_a r) @ xs" "prefix (wire_of xs) (rx (side_b r))" by auto
  ultimately show ?thesis
    using relay_inv_safe [OF inv] inv relay_arm_cases [OF arm]
      flow_prefix [of "rx b0" "sent a0" "rx (side_b r)" "sent (side_a r)" "b_open r" "down r" "sent a" xs]
    by (auto simp: relay_safe_def relay_inv_def)
next
  case Tick
  with st inv relay_inv_safe [OF inv] show ?thesis by (auto simp: relay_safe_def split: if_splits)
qed

lemma relay_loop_safe:
  assumes "relay_loop evs r = (p, r')" "relay_inv a0 b0 r"
  shows "relay_safe a0 b0 r'"
  using assms
proof (induction evs arbitrary: r)
  case Nil
  then show ?case by (auto intro: relay_inv_safe)
next
  case (Cons ev evs)
  obtain q r1 where st: "relay_step ev r = (q, r1)" by (cases "relay_step ev r")
  show ?case
  proof (cases "a_open r \<or> b_open r")
    case True
    then show ?thesis
      using Cons st relay_step_safe [OF st] relay_step_inv [of ev r _ r1 a0 b0]
      by (cases q) auto
  qed (use Cons in \<open>auto intro: relay_inv_safe\<close>)
qed

section \<open>Progress\<close>

definition well_behaved :: "stream \<Rightarrow> bool" where
  "well_behaved s \<longleftrightarrow> rx_end s = RxEof \<and> tx_script s = []"

lemma relay_arm_well_behaved:
  assumes "well_behaved src" "well_behaved dst"
  shows "\<exists>k src' dst'. relay_arm n src dst = (Done (Some k), src', dst') \<and> well_behaved src' \<and>
    well_behaved dst' \<and> rx dst' = rx dst \<and> (k = 0 \<or> length (rx src') < length (rx src))"
proof -
  have tx: "shutdown_stream dst = (Done (), dst\<lparr>sent := sent dst @ [Shut]\<rparr>)"
    "bindA (write_all bs) (\<lambda>_. flush_stream) dst = (Done (), dst\<lparr>sent := sent dst @ [Sent bs]\<rparr>)" for bs
    using assms by (simp_all add: well_behaved_def shutdown_stream_def write_all_def flush_stream_def
        next_tx_def bindA_def)
  show ?thesis
  proof (cases "rx src = []")
    case True
    with assms tx show ?thesis by (auto simp: relay_arm_def read_some_def well_behaved_def)
  next
    case False
    let ?k = "min RELAY_BUF_SIZE (max 1 n)"
    from False have "take ?k (rx src) \<noteq> []" by (simp add: RELAY_BUF_SIZE_def)
    with False assms tx show ?thesis
      by (auto simp: relay_arm_def read_some_def well_behaved_def Let_def RELAY_BUF_SIZE_def)
  qed
qed

fun reads_a :: "relay_event list \<Rightarrow> nat" where
  "reads_a [] = 0"
| "reads_a (ReadA n # evs) = Suc (reads_a evs)"
| "reads_a (_ # evs) = reads_a evs"

fun reads_b :: "relay_event list \<Rightarrow> nat" where
  "reads_b [] = 0"
| "reads_b (ReadB n # evs) = Suc (reads_b evs)"
| "reads_b (_ # evs) = reads_b evs"

lemma relay_loop_progress:
  assumes "well_behaved (side_a r)" "well_behaved (side_b r)"
    and "a_open r \<longrightarrow> length (rx (side_a r)) < reads_a evs"
    and "b_open r \<longrightarrow> length (rx (side_b r)) < reads_b evs"
  shows "\<exists>r'. relay_loop evs r = (Done (), r')"
  using assms
proof (induction evs arbitrary: r)
  case (Cons ev evs)
  show ?case
  proof (cases ev)
    case (ReadA n)
    from relay_arm_well_behaved [OF Cons.prems(1,2), of n] obtain k a b
      where "relay_arm n (side_a r) (side_b r) = (Done (Some k), a, b)" "well_behaved a" "well_behaved b"
        "rx b = rx (side_b r)" "k = 0 \<or> length (rx a) < length (rx (side_a r))" by blast
    with Cons ReadA show ?thesis by (cases "k = 0") (auto simp: bindA_def Let_def)
  next
    case (ReadB n)
    from relay_arm_well_behaved [OF Cons.prems(2,1), of n] obtain k a b
      where "relay_arm n (side_b r) (side_a r) = (Done (Some k), b, a)" "well_behaved a" "well_behaved b"
        "rx a = rx (side_a r)" "k = 0 \<or> length (rx b) < length (rx (side_b r))" by blast
    with Cons ReadB show ?thesis by (cases "k = 0") (auto simp: bindA_def Let_def)
  next
    case Tick
    with Cons show ?thesis by (auto simp: bindA_def)
  qed
qed auto

lemma relay_Done:
  assumes "copy_bidirectional_counted evs a b has_stats has_counters = (Done (u, d), r)"
  shows "(\<exists>cs tail. sent (side_b r) = sent b @ map Sent cs @ tail \<and> concat cs = rx a \<and> tail \<in> {[], [Shut]}) \<and>
    (\<exists>ds tail. sent (side_a r) = sent a @ map Sent ds @ tail \<and> concat ds = rx b \<and> tail \<in> {[], [Shut]}) \<and>
    u = of_nat (length (rx a)) \<and> d = of_nat (length (rx b)) \<and>
    (has_counters \<longrightarrow> published r = Some (u, d))"
proof -
  from assms obtain r1 where "relay_loop evs (relay_start a b has_stats has_counters) = (Done (), r1)"
    and r: "u = up r1" "d = down r1" "r = (if has_counters then r1\<lparr>published := Some (u, d)\<rparr> else r1)"
    by (auto simp: copy_bidirectional_counted_def bindA_Done_iff)
  from relay_loop_Done [OF this(1) relay_start_inv]
  have "flow (rx a) (sent b) (rx (side_a r1)) (sent (side_b r1)) False u"
    "flow (rx b) (sent a) (rx (side_b r1)) (sent (side_a r1)) False d"
    by (auto simp: relay_inv_def r)
  from this [THEN flow_closed] show ?thesis by (simp add: r)
qed

section \<open>Properties\<close>

text \<open>
  C12. A relay that finishes has delivered every byte of each side to the other side, in order and
  unchanged, whatever the interleaving and the sizes of the reads; a side is shut down only after
  its last byte; the byte counts returned are the lengths (modulo \<open>2 ^ 64\<close>), and they are the last
  values published to the connection's row.
\<close>

theorem relay_complete:
  assumes "copy_bidirectional_counted evs a b has_stats has_counters = (Done (u, d), r)"
  shows "(\<exists>cs tail. sent (side_b r) = sent b @ map Sent cs @ tail \<and> concat cs = rx a \<and> tail \<in> {[], [Shut]}) \<and>
    (\<exists>ds tail. sent (side_a r) = sent a @ map Sent ds @ tail \<and> concat ds = rx b \<and> tail \<in> {[], [Shut]}) \<and>
    u = of_nat (length (rx a)) \<and> d = of_nat (length (rx b)) \<and>
    (has_counters \<longrightarrow> published r = Some (u, d))"
  by (rule relay_Done [OF assms])

theorem relay_complete_witness:
  "concat [ascii ''ping''] = ascii ''ping'' \<and>
   (\<exists>r. copy_bidirectional_counted [ReadB 100, ReadA 100, ReadA 100, ReadB 1]
      \<lparr>rx = ascii ''ping'', rx_end = RxEof, tx_script = [], sent = []\<rparr>
      \<lparr>rx = ascii ''po'', rx_end = RxEof, tx_script = [], sent = []\<rparr> True True = (Done (4, 2), r) \<and>
      published r = Some (4, 2))"
proof -
  define a where "a = \<lparr>rx = ascii ''ping'', rx_end = RxEof, tx_script = [], sent = []\<rparr>"
  define b where "b = \<lparr>rx = ascii ''po'', rx_end = RxEof, tx_script = [], sent = []\<rparr>"
  obtain r where run: "copy_bidirectional_counted [ReadB 100, ReadA 100, ReadA 100, ReadB 1] a b True True = (Done (4, 2), r)"
    by (simp add: a_def b_def copy_bidirectional_counted_def bindA_def relay_start_def relay_arm_def
        read_some_def write_all_def flush_stream_def shutdown_stream_def next_tx_def Let_def
        RELAY_BUF_SIZE_def ascii_def)
  with relay_complete [OF run] show ?thesis unfolding a_def b_def by auto
qed

text \<open>
  C13. Whatever happens to a relay (an error on either side, a stalled peer, a schedule that has
  not ended), the bytes put on each side are a prefix of what the other side sent: nothing is
  invented, reordered, duplicated or corrupted.
\<close>

theorem relay_prefix:
  "relay_safe a b (snd (copy_bidirectional_counted evs a b has_stats has_counters))"
proof -
  obtain p r1 where run: "relay_loop evs (relay_start a b has_stats has_counters) = (p, r1)"
    by (cases "relay_loop evs (relay_start a b has_stats has_counters)")
  from relay_loop_safe [OF run relay_start_inv] show ?thesis
    using run by (cases p) (auto simp: copy_bidirectional_counted_def relay_safe_def)
qed

text \<open>
  C14. A relay between two peers that eventually close and take everything written to them
  finishes: once the schedule has given each side as many reads as it has bytes, and one more.
\<close>

theorem relay_finishes:
  assumes "well_behaved a" "well_behaved b"
    and "length (rx a) < reads_a evs" "length (rx b) < reads_b evs"
  shows "\<exists>u d r. copy_bidirectional_counted evs a b has_stats has_counters = (Done (u, d), r)"
  using relay_loop_progress [of "relay_start a b has_stats has_counters" evs] assms
  by (auto simp: relay_start_def copy_bidirectional_counted_def)

theorem relay_finishes_witness:
  "\<exists>u d r. copy_bidirectional_counted [ReadA 1, ReadB 1, ReadB 1, Tick, ReadA 1]
      \<lparr>rx = [7], rx_end = RxEof, tx_script = [], sent = []\<rparr>
      \<lparr>rx = [8], rx_end = RxEof, tx_script = [], sent = []\<rparr> True False = (Done (u, d), r)"
  by (rule relay_finishes) (simp_all add: well_behaved_def)

text \<open>
  C37. The two directions are not independent: while the target does not take the bytes written to
  it, the relay reads nothing more from it and writes nothing to the client, even though the
  target has bytes ready and the client would take them.
\<close>

theorem relay_head_of_line:
  assumes "rx a \<noteq> []" "tx_script b = TxStall k # ts"
  shows "\<exists>r. copy_bidirectional_counted (ReadA n # evs) a b has_stats has_counters = (Pending, r) \<and>
    rx (side_b r) = rx b \<and> sent (side_a r) = sent a"
proof -
  let ?k = "min RELAY_BUF_SIZE (max 1 n)"
  from assms have "take ?k (rx a) \<noteq> []" by (simp add: RELAY_BUF_SIZE_def)
  with assms show ?thesis
    by (auto simp: copy_bidirectional_counted_def bindA_def relay_start_def relay_arm_def
        read_some_def write_all_def next_tx_def Let_def)
qed

theorem relay_head_of_line_witness:
  "\<exists>r. copy_bidirectional_counted (ReadA 1 # replicate 9 (ReadB 1))
      \<lparr>rx = [1], rx_end = RxStall, tx_script = [], sent = []\<rparr>
      \<lparr>rx = [2], rx_end = RxEof, tx_script = [TxStall 0], sent = []\<rparr> True True = (Pending, r) \<and>
    rx (side_b r) = [2]"
  using relay_head_of_line [of "\<lparr>rx = [1], rx_end = RxStall, tx_script = [], sent = []\<rparr>"
      "\<lparr>rx = [2], rx_end = RxEof, tx_script = [TxStall 0], sent = []\<rparr>" 0 "[]" 1 "replicate 9 (ReadB 1)" True True]
  by auto

end
