(* ===== verification/Connect.thy ===== *)
theory Connect
  imports Wire
begin

text \<open>
  \<open>connect_any\<close> of \<open>src/lib.rs\<close>: the staggered race over the addresses of a destination. The
  network is a parameter: \<open>net i a = Some (d, r)\<close> when attempt number \<open>i\<close>, to address \<open>a\<close>,
  completes with \<open>r\<close> after \<open>d\<close> milliseconds, \<open>None\<close> when it never completes (a blackholed
  address). The bounded channel delivers the outcomes in the order in which the attempts
  complete; attempts that complete in the same instant are taken in the order of the list.
\<close>

section \<open>Definitions\<close>

type_synonym 'c network = "nat \<Rightarrow> socket_addr \<Rightarrow> (nat \<times> (error_kind + 'c)) option"

text \<open>Milliseconds between the starts of two successive attempts.\<close>

definition CONNECT_ATTEMPT_DELAY :: nat where
  "CONNECT_ATTEMPT_DELAY = 250"

text \<open>The attempt spawned for one address: its start offset, then the connect.\<close>

definition attempt :: "'c network \<Rightarrow> nat \<Rightarrow> socket_addr \<Rightarrow> (nat \<times> (error_kind + 'c)) option" where
  "attempt net index addr =
     map_option (\<lambda>(d, r). ((if index > 0 then CONNECT_ATTEMPT_DELAY * index else 0) + d, r))
       (net index addr)"

text \<open>What the tasks of the join set put into the channel, with the time of each.\<close>

definition channel :: "'c network \<Rightarrow> socket_addr list \<Rightarrow> (nat \<times> (error_kind + 'c)) list" where
  "channel net addrs =
     sort_key fst (List.map_filter (\<lambda>(i, a). attempt net i a) (enumerate 0 addrs))"

text \<open>
  The receive loop. \<open>closes\<close> is the time at which the last sender is dropped, \<open>None\<close> if some
  attempt never finishes. The result carries the time of the decision; \<open>None\<close> is a loop that
  waits for ever.
\<close>

fun recv_loop ::
  "nat option \<Rightarrow> error_kind option \<Rightarrow> (nat \<times> (error_kind + 'c)) list \<Rightarrow>
   (nat \<times> (error_kind + 'c)) option" where
  "recv_loop closes last_error ((t, Inr stream) # rest) = Some (t, Inr stream)"
| "recv_loop closes last_error ((t, Inl error) # rest) = recv_loop closes (Some error) rest"
| "recv_loop closes last_error [] =
     (case closes of
        Some t \<Rightarrow> Some (t, Inl (case last_error of Some e \<Rightarrow> e | None \<Rightarrow> Ek_AddrNotAvailable))
      | None \<Rightarrow> None)"

definition connect_any :: "'c network \<Rightarrow> socket_addr list \<Rightarrow> (nat \<times> (error_kind + 'c)) option" where
  "connect_any net addrs =
     (let received = channel net addrs;
          closes = (if length received = length addrs then Some (fold (max \<circ> fst) received 0)
                    else None)
      in recv_loop closes None received)"

text \<open>\<open>timeout(time_out, connect_any(addrs))\<close>: \<open>None\<close> when the budget elapses first.\<close>

definition connect_within :: "nat \<Rightarrow> 'c network \<Rightarrow> socket_addr list \<Rightarrow> (error_kind + 'c) option" where
  "connect_within time_out net addrs =
     (case connect_any net addrs of
        Some (t, r) \<Rightarrow> if t \<le> time_out then Some r else None
      | None \<Rightarrow> None)"

section \<open>The race\<close>

text \<open>The loop takes the first success of the channel.\<close>

lemma recv_loop_Inr:
  "recv_loop closes le outs = Some (t, Inr s) \<longleftrightarrow>
     (\<exists>pre rest. outs = pre @ (t, Inr s) # rest \<and> (\<forall>(_, r)\<in>set pre. isl r))"
proof (induction closes le outs rule: recv_loop.induct)
  case (1 closes le t' s' rest)
  show ?case by (auto simp: Cons_eq_append_conv)
next
  case (2 closes le t' e rest)
  then show ?case by (fastforce simp: Cons_eq_append_conv)
qed (auto split: option.splits)

lemma recv_loop_all_fail:
  assumes "\<forall>(_, r)\<in>set outs. isl r"
  shows "recv_loop closes le outs =
    (case closes of None \<Rightarrow> None
     | Some t \<Rightarrow> Some (t, Inl (if outs = [] then (case le of Some e \<Rightarrow> e | None \<Rightarrow> Ek_AddrNotAvailable)
                              else projl (snd (last outs)))))"
  using assms by (induction closes le outs rule: recv_loop.induct) (auto split: option.splits)

lemma set_channel:
  "(t, r) \<in> set (channel net addrs) \<longleftrightarrow>
     (\<exists>i d. i < length addrs \<and> net i (addrs ! i) = Some (d, r) \<and> t = CONNECT_ATTEMPT_DELAY * i + d)"
  by (fastforce simp: channel_def List.map_filter_def attempt_def in_set_enumerate_eq image_iff
      split: option.splits)

lemma sorted_channel: "sorted (map fst (channel net addrs))"
  by (simp add: channel_def)

lemma length_channel:
  "length (channel net addrs) = length addrs \<longleftrightarrow> (\<forall>i < length addrs. net i (addrs ! i) \<noteq> None)"
proof -
  have "(\<forall>x\<in>set (enumerate 0 addrs). (case x of (i, a) \<Rightarrow> attempt net i a) \<noteq> None) \<longleftrightarrow>
      (\<forall>i < length addrs. net i (addrs ! i) \<noteq> None)"
    by (auto simp: attempt_def enumerate_eq_zip set_zip) (metis nth_upt add_0 diff_zero)
  then show ?thesis
    using length_map_filter [of "\<lambda>(i, a). attempt net i a" "enumerate 0 addrs"]
    by (simp add: channel_def)
qed

text \<open>A success of the channel is answered no later than it arrives.\<close>

lemma recv_loop_success:
  assumes "(t, Inr s) \<in> set outs" "sorted (map fst outs)"
  shows "\<exists>t' s'. recv_loop closes le outs = Some (t', Inr s') \<and> t' \<le> t"
  using assms
proof (induction closes le outs rule: recv_loop.induct)
  case (1 closes le t' s' rest)
  then show ?case by (force simp: image_iff)
qed auto

section \<open>Properties\<close>

text \<open>
  C34. A destination with a reachable address is connected to no later than that address allows:
  if attempt \<open>i\<close> would succeed after \<open>d\<close> milliseconds and \<open>250 i + d\<close> is within the budget, the
  connect succeeds, whatever the other addresses do (refuse, fail, or swallow every packet); and
  the connection returned is one that an attempt established, not later than that.
\<close>

theorem connect_reachable:
  assumes "i < length addrs" and "net i (addrs ! i) = Some (d, Inr s)"
    and "CONNECT_ATTEMPT_DELAY * i + d \<le> time_out"
  shows "\<exists>s'. connect_within time_out net addrs = Some (Inr s') \<and>
    (\<exists>j < length addrs. \<exists>d'. net j (addrs ! j) = Some (d', Inr s') \<and>
       CONNECT_ATTEMPT_DELAY * j + d' \<le> CONNECT_ATTEMPT_DELAY * i + d)"
proof -
  let ?outs = "channel net addrs" and ?t = "CONNECT_ATTEMPT_DELAY * i + d"
  have "(?t, Inr s) \<in> set ?outs" using assms by (auto simp: set_channel)
  from recv_loop_success [OF this sorted_channel] obtain t' s'
    where won: "connect_any net addrs = Some (t', Inr s')" and le: "t' \<le> ?t"
    unfolding connect_any_def Let_def by blast
  then have "(t', Inr s') \<in> set ?outs" by (auto simp: connect_any_def Let_def recv_loop_Inr)
  then obtain j d' where "j < length addrs" "net j (addrs ! j) = Some (d', Inr s')"
    "t' = CONNECT_ATTEMPT_DELAY * j + d'"
    by (auto simp: set_channel)
  with won le assms(3) show ?thesis by (auto simp: connect_within_def)
qed

theorem connect_reachable_witness:
  "\<exists>s'. connect_within 30000
      (\<lambda>i a. if i = 1 then Some (20, Inr True) else None)
      [SocketAddrV6 1 80 0 0, SocketAddrV4 1 80] = Some (Inr s')"
proof -
  have "(\<lambda>i (a :: socket_addr). if i = 1 then Some (20 :: nat, Inr True) else None) 1
      ([SocketAddrV6 1 80 0 0, SocketAddrV4 1 80] ! 1) = Some (20, Inr True :: error_kind + bool)"
    by simp
  then show ?thesis
    using connect_reachable [of 1 "[SocketAddrV6 1 80 0 0, SocketAddrV4 1 80]"
        "\<lambda>i a. if i = 1 then Some (20, Inr True) else None" 20 True 30000]
    by (fastforce simp: CONNECT_ATTEMPT_DELAY_def)
qed

text \<open>
  When every attempt completes and none succeeds, \<open>connect_any\<close> ends with the error of an
  attempt that finished last; with no address at all it reports that no address is available.
\<close>

lemma connect_all_fail:
  assumes "\<forall>i < length addrs. \<exists>d e. net i (addrs ! i) = Some (d, Inl e)"
  shows "\<exists>t e. connect_any net addrs = Some (t, Inl e) \<and>
    (if addrs = [] then e = Ek_AddrNotAvailable
     else \<exists>i d. i < length addrs \<and> net i (addrs ! i) = Some (d, Inl e) \<and>
       (\<forall>j d' r. j < length addrs \<and> net j (addrs ! j) = Some (d', r) \<longrightarrow>
          CONNECT_ATTEMPT_DELAY * j + d' \<le> CONNECT_ATTEMPT_DELAY * i + d))"
proof -
  let ?outs = "channel net addrs"
  have len: "length ?outs = length addrs" using assms by (auto simp: length_channel)
  have fail: "isl r" if "(t, r) \<in> set ?outs" for t r
    using that assms by (fastforce simp: set_channel)
  then have "\<forall>(_, r)\<in>set ?outs. isl r" by auto
  then have eq: "\<exists>t. connect_any net addrs = Some (t, Inl (if ?outs = [] then Ek_AddrNotAvailable
      else projl (snd (last ?outs))))"
    using len by (subst connect_any_def) (auto simp: Let_def recv_loop_all_fail)
  show ?thesis
  proof (cases "addrs = []")
    case True
    with eq len show ?thesis by simp
  next
    case False
    with len have ne: "?outs \<noteq> []" by auto
    obtain t r where last: "last ?outs = (t, r)" by (cases "last ?outs")
    then have mem: "(t, r) \<in> set ?outs" using last_in_set [OF ne] by simp
    with fail have "isl r" by blast
    then obtain e where r: "r = Inl e" by (cases r) auto
    from last ne have split: "?outs = butlast ?outs @ [(t, r)]" by (metis append_butlast_last_id)
    have "sorted (map fst (butlast ?outs @ [(t, r)]))" using sorted_channel [of net addrs] split by simp
    then have "\<forall>x\<in>set (butlast ?outs @ [(t, r)]). fst x \<le> t" by (auto simp: sorted_append)
    then have "fst x \<le> t" if "x \<in> set ?outs" for x using that split by metis
    then have "\<forall>j d' r. j < length addrs \<and> net j (addrs ! j) = Some (d', r) \<longrightarrow>
        CONNECT_ATTEMPT_DELAY * j + d' \<le> t"
      by (metis fst_conv set_channel)
    moreover from mem r obtain i d where "i < length addrs" "net i (addrs ! i) = Some (d, Inl e)"
      "t = CONNECT_ATTEMPT_DELAY * i + d"
      by (auto simp: set_channel)
    moreover from eq ne last r obtain t0 where "connect_any net addrs = Some (t0, Inl e)" by auto
    ultimately show ?thesis using False by (intro exI [of _ t0] exI [of _ e]) auto
  qed
qed

end

