(* ===== verification/Commands.thy ===== *)
theory Commands
  imports Udp Relay Connect
begin

text \<open>
  A client connection from the first byte to the last (\<open>src/lib.rs\<close>): \<open>handle_request\<close> with its
  three commands, \<open>handle_bind\<close>, \<open>init\<close>, \<open>handle_client\<close> and \<open>run_client\<close>. The operating system and the
  network are the record \<open>net_env\<close>: the resolver and the clock around it, the outcome of connect
  attempts, of \<open>bind\<close> and \<open>accept\<close>, and the schedules of the relay and the datagram loop.

  Time inside the negotiation is not counted: a client that has not finished within the
  handshake budget is one whose stream stalls at that point (\<open>RxStall\<close>, \<open>TxStall\<close>), so that the
  negotiation is \<open>Pending\<close> and the surrounding \<open>timeout\<close> fires.
\<close>

section \<open>Definitions\<close>

record net_env =
  resolving :: resolution
  connect_net :: "stream network"
  bind_tcp :: "socket_addr \<Rightarrow> error_kind + socket_addr"
  inbound :: "(nat \<times> (error_kind + stream \<times> socket_addr)) option"
  bind_udp :: "socket_addr \<Rightarrow> error_kind + socket_addr"
  relay_events :: "relay_event list"
  udp_events :: "udp_event list"

definition DEFAULT_CONNECT_TIMEOUT :: nat where
  "DEFAULT_CONNECT_TIMEOUT = 30 * 1000"

definition connect_budget :: "conn \<Rightarrow> nat" where
  "connect_budget c = (case timeout c of Some t \<Rightarrow> t | None \<Rightarrow> DEFAULT_CONNECT_TIMEOUT)"

text \<open>
  The relay of a connection, as \<open>CONNECT\<close> and \<open>BIND\<close> run it: progress goes to the counters of the
  client row, totals to the statistics only when the relay ends without an error.
\<close>

definition relay_conn :: "net_env \<Rightarrow> stream \<Rightarrow> (conn, merino_error, nat) async" where
  "relay_conn env peer_end c =
     (case copy_bidirectional_counted (relay_events env) (stream c) peer_end (has_stats c)
             (relay_counters c \<noteq> None) of (res, r) \<Rightarrow>
        let c1 = c\<lparr>stream := side_a r, target := Some (side_b r),
                   shared := (case (relay_counters c, published r) of
                                (Some i, Some (u, d)) \<Rightarrow> store_counters i u d (shared c)
                              | _ \<Rightarrow> shared c)\<rparr>
        in case res of
             Done (s_to_t, t_to_s) \<Rightarrow> (Done (unat t_to_s), note_stats (note_relay s_to_t t_to_s) c1)
           | Raise e \<Rightarrow> if e = Ek_NotConnected then (Done 0, c1) else (Raise (Io e), c1)
           | Pending \<Rightarrow> (Pending, c1)
           | Panicked \<Rightarrow> (Panicked, c1))"

definition handle_connect :: "net_env \<Rightarrow> socks_req \<Rightarrow> (conn, merino_error, nat) async" where
  "handle_connect env req =
     bindA (resolve (resolving env)
              (req_addr_type req) (req_addr req) (req_port req)) (\<lambda>res.
     case res of
       Inl e \<Rightarrow> throw (if e = Ek_InvalidInput then Io e else dns_failure_error)
     | Inr sock_addr \<Rightarrow>
         bindA (get_state connect_budget) (\<lambda>time_out.
         case connect_within time_out (connect_net env) sock_addr of
           None \<Rightarrow> throw connect_timeout_error
         | Some (Inl e) \<Rightarrow> throw (connect_error e)
         | Some (Inr peer_end) \<Rightarrow>
             bindA (io (reply_send (reply_new Success))) (\<lambda>_. relay_conn env peer_end)))"

definition handle_bind :: "net_env \<Rightarrow> socks_req \<Rightarrow> (conn, merino_error, nat) async" where
  "handle_bind env req =
     bindA (get_state (\<lambda>c. bind_tcp env (socket_addr_new (local_interface c) 0))) (\<lambda>bound.
     case bound of
       Inl e \<Rightarrow> throw (Io e)
     | Inr addr \<Rightarrow>
         bindA (io (reply_send (reply_with_addr Success addr))) (\<lambda>_.
         bindA (get_state connect_budget) (\<lambda>time_out.
         case inbound env of
           None \<Rightarrow> throw connect_timeout_error
         | Some (t, res) \<Rightarrow>
             if t > time_out then throw connect_timeout_error
             else
               (case res of
                  Inl e \<Rightarrow> throw (Io e)
                | Inr (peer_end, from_addr) \<Rightarrow>
                    if (case expected_ip (req_addr_type req) (req_addr req) of
                          Some expd \<Rightarrow> expd \<noteq> sock_ip from_addr | None \<Rightarrow> False)
                    then throw (Socks RuleFailure)
                    else
                      bindA (io (reply_send (reply_with_addr Success from_addr))) (\<lambda>_.
                        relay_conn env peer_end)))))"

definition handle_request :: "net_env \<Rightarrow> socks_req \<Rightarrow> (conn, merino_error, nat) async" where
  "handle_request env req =
     bindA (modify (\<lambda>c. note_stats (note_request (client_id c) (req_command req)) c)) (\<lambda>_.
     case req_command req of
       Connect \<Rightarrow> handle_connect env req
     | Bind \<Rightarrow> handle_bind env req
     | UdpAssosiate \<Rightarrow> handle_udp_associate (bind_udp env) (udp_events env) req)"

text \<open>\<open>timeout(self.handshake_timeout, m).await\<close>: an operation that never completes is timed out.\<close>

definition within_handshake :: "(conn, merino_error, 'a) async \<Rightarrow> (conn, merino_error, 'a) async" where
  "within_handshake m c =
     (case m c of
        (Pending, c') \<Rightarrow> (Raise (Socks TtlExpired), note_stats note_handshake_timeout c')
      | r \<Rightarrow> r)"

definition init :: "net_env \<Rightarrow> (conn, merino_error, unit) async" where
  "init env = bindA (within_handshake negotiate) (\<lambda>req. bindA (handle_request env req) (\<lambda>_. ret ()))"

definition handle_client :: "net_env \<Rightarrow> (conn, merino_error, nat) async" where
  "handle_client env = bindA (within_handshake (on_stream from_stream)) (handle_request env)"

text \<open>
  The error path of \<open>run_client\<close>: count, answer unless the client has been answered, shut down. A
  failed write or shutdown is only logged; one that never completes leaves the task waiting.
\<close>

definition report_error :: "merino_error \<Rightarrow> (conn, merino_error, unit) async" where
  "report_error error c =
     (let code = code_of_error error;
          c1 = c\<lparr>shared := (if is_client_disconnect error then note_disconnect (shared c)
                            else note_error (code_byte code) (shared c))\<rparr>
      in case (if \<not> replied c1 then on_stream (reply_send (reply_new code)) c1 else (Done (), c1)) of
           (Pending, c2) \<Rightarrow> (Pending, c2)
         | (Panicked, c2) \<Rightarrow> (Panicked, c2)
         | (_, c2) \<Rightarrow>
             (case client_shutdown c2 of
                (Pending, c3) \<Rightarrow> (Pending, c3)
              | (Panicked, c3) \<Rightarrow> (Panicked, c3)
              | (_, c3) \<Rightarrow> (Done (), c3)))"

text \<open>The body of \<open>run_client\<close> after registration, and the whole, which drops its guard at the end.\<close>

definition serve_client :: "net_env \<Rightarrow> (conn, merino_error, unit) async" where
  "serve_client env c =
     (case init env c of
        (Done _, c') \<Rightarrow> (Done (), c')
      | (Raise error, c') \<Rightarrow> report_error error c'
      | (Pending, c') \<Rightarrow> (Pending, c')
      | (Panicked, c') \<Rightarrow> (Panicked, c'))"

definition run_client :: "net_env \<Rightarrow> nat \<Rightarrow> socket_addr \<Rightarrow> (conn, merino_error, unit) async" where
  "run_client env now client_addr c =
     (case begin_client now client_addr (local_addr c) (shared c) of (guard, st) \<Rightarrow>
        bindA (serve_client env) (\<lambda>_. modify (\<lambda>c. c\<lparr>shared := drop_guard guard (shared c)\<rparr>))
          (c\<lparr>shared := st, client_id := Some (guard_id guard), relay_counters := Some (guard_id guard)\<rparr>))"

end
