(* ===== verification/Footprint.thy ===== *)
theory Footprint
  imports Commands
begin

text \<open>
  What a connection reads and writes of the state all connections share. Between its registration
  and the drop of its guard a connection only writes to the statistics, in single notes, and never
  reads them: its outcome, its answers and the list of its notes are the same whatever other
  connections count meanwhile. On the DNS cache it makes cache steps, if the other connections do,
  and it panics only where an expiry time is not representable. The predicate \<open>keeps\<close> says so of a
  computation; there is one rule for each way the code composes computations.
\<close>

section \<open>Notes\<close>

fun is_note :: "stats_op \<Rightarrow> bool" where
  "is_note (OpBegin now p l) = False"
| "is_note _ = True"

definition run_notes :: "stats_op list \<Rightarrow> stats \<Rightarrow> stats" where
  "run_notes ops = fold (\<lambda>op. snd \<circ> run_op op) ops"

lemma run_notes_simps [simp]:
  "run_notes [] st = st" "run_notes (op # ops) st = run_notes ops (snd (run_op op st))"
  "run_notes (ops @ ops') st = run_notes ops' (run_notes ops st)"
  by (simp_all add: run_notes_def)

lemma is_note_run: "is_note op \<Longrightarrow> run_op op st = (None, snd (run_op op st))"
  by (cases op) simp_all

text \<open>The same as a relation: \<open>run_op\<close> operations other than a registration.\<close>

definition noted :: "stats \<Rightarrow> stats \<Rightarrow> bool" where
  "noted = (\<lambda>s s'. \<exists>op. run_op op s = (None, s'))\<^sup>*\<^sup>*"

lemma noted_notes: "list_all is_note ops \<Longrightarrow> noted st (run_notes ops st)"
  unfolding noted_def
proof (induction ops arbitrary: st)
  case (Cons op ops)
  then have "run_op op st = (None, snd (run_op op st))" by (intro is_note_run) simp
  moreover have "(\<lambda>s s'. \<exists>op. run_op op s = (None, s'))\<^sup>*\<^sup>* (snd (run_op op st)) (run_notes (op # ops) st)"
    using Cons by simp
  ultimately show ?case by (blast intro: converse_rtranclp_into_rtranclp)
qed simp

lemma noted_view: "noted s s' \<Longrightarrow> registry_view s' = registry_view s"
  unfolding noted_def by (induction rule: rtranclp_induct) (auto dest: note_ops_keep)

section \<open>Footprints\<close>

text \<open>
  \<open>fits T d\<close>: expiry times of entries stored up to \<open>T\<close> are representable. \<open>guarantees Q T c p c'\<close> is what a
  computation from \<open>c\<close> to \<open>c'\<close> with outcome \<open>p\<close> promises of the cache if the other connections do their
  part (\<open>Q\<close>), with no claim about panics if \<open>T\<close> is \<open>None\<close>.
\<close>

definition fits :: "nat option \<Rightarrow> dns_cache option \<Rightarrow> bool" where
  "fits T d \<longleftrightarrow> (\<exists>t. T = Some t \<and> (\<forall>lifetime. map_option ttl d = Some lifetime \<longrightarrow> t + lifetime \<le> INSTANT_MAX))"

definition guarantees :: "bool \<Rightarrow> nat option \<Rightarrow> conn \<Rightarrow> ('e, 'a) poll \<Rightarrow> conn \<Rightarrow> bool" where
  "guarantees Q T c p c' \<longleftrightarrow>
     (Q \<longrightarrow> cached (dns_cache c) (dns_cache c') \<and> (fits T (dns_cache c) \<longrightarrow> p \<noteq> Panicked))"

definition runs :: "(conn, 'e, 'a) async \<Rightarrow> conn \<Rightarrow> ('e, 'a) poll \<Rightarrow> conn \<Rightarrow> stats_op list \<Rightarrow> bool" where
  "runs m c p c' ops \<longleftrightarrow>
     list_all is_note ops \<and> (\<forall>st. m (c\<lparr>shared := st\<rparr>) = (p, c'\<lparr>shared := run_notes ops st\<rparr>))"

definition keeps :: "bool \<Rightarrow> nat option \<Rightarrow> (conn, 'e, 'a) async \<Rightarrow> bool" where
  "keeps Q T m \<longleftrightarrow> (\<forall>c. \<exists>p c' ops. runs m c p c' ops \<and> guarantees Q T c p c')"

lemma fits_None [simp]: "\<not> fits None d"
  by (simp add: fits_def)

lemma keepsE:
  assumes "keeps Q T m"
  obtains p c' ops where "runs m c p c' ops" "guarantees Q T c p c'"
  using assms unfolding keeps_def by blast

lemma keepsI:
  assumes "\<And>c. \<exists>p c' ops. runs m c p c' ops \<and> guarantees Q T c p c'"
  shows "keeps Q T m"
  using assms by (simp add: keeps_def)

lemma shared_same [simp]: "(c :: conn)\<lparr>shared := shared c\<rparr> = c"
  by simp

lemma keepsD:
  assumes "keeps Q T m" "m c = (p, c')"
  shows "noted (shared c) (shared c')" "guarantees Q T c p c'"
proof -
  from assms(1) obtain q d ops where r: "runs m c q d ops" "guarantees Q T c q d" by (rule keepsE)
  then have "m (c\<lparr>shared := shared c\<rparr>) = (q, d\<lparr>shared := run_notes ops (shared c)\<rparr>)" by (simp only: runs_def)
  with assms(2) have c': "p = q" "c' = d\<lparr>shared := run_notes ops (shared c)\<rparr>" by simp_all
  show "noted (shared c) (shared c')" using r(1) by (simp add: c' runs_def noted_notes)
  show "guarantees Q T c p c'" using r(2) by (simp add: c' guarantees_def)
qed

lemma keeps_weaken: "keeps Q T m \<Longrightarrow> keeps Q None m"
  unfolding keeps_def guarantees_def by (metis fits_None)

text \<open>
  The general rule for sequencing: what follows may look at the outcome, whatever it is. After a
  panic no more is asked of it than not to read the statistics.
\<close>

lemma keeps_then:
  assumes m: "keeps Q T m" and k: "\<And>p. p \<noteq> Panicked \<Longrightarrow> keeps Q T (k p)" "keeps Q None (k Panicked)"
  shows "keeps Q T (\<lambda>c. case m c of (p, c') \<Rightarrow> k p c')"
proof (rule keepsI)
  fix c
  from m obtain p c1 ops1 where r1: "runs m c p c1 ops1" "guarantees Q T c p c1" by (rule keepsE)
  let ?T = "if p = Panicked then None else T"
  have "keeps Q ?T (k p)" using k by simp
  then obtain q c2 ops2 where r2: "runs (k p) c1 q c2 ops2" "guarantees Q ?T c1 q c2" by (rule keepsE)
  have "runs (\<lambda>c. case m c of (p, c') \<Rightarrow> k p c') c q c2 (ops1 @ ops2)"
    using r1(1) r2(1) by (simp add: runs_def)
  moreover have "guarantees Q T c q c2"
  proof -
    have "fits T (dns_cache c) \<Longrightarrow> cached (dns_cache c) (dns_cache c1) \<Longrightarrow> fits T (dns_cache c1)"
      using cached_ttl by (metis fits_def)
    with r1(2) r2(2) show ?thesis
      unfolding guarantees_def by (auto intro: cached_trans split: if_splits)
  qed
  ultimately show "\<exists>p c' ops. runs (\<lambda>c. case m c of (p, c') \<Rightarrow> k p c') c p c' ops \<and> guarantees Q T c p c'"
    by blast
qed

lemma keeps_const [simp]: "p \<noteq> Panicked \<or> T = None \<Longrightarrow> keeps Q T (\<lambda>c. (p, c))"
  by (rule keepsI) (auto simp: runs_def guarantees_def intro!: exI [of _ p] exI [of _ "[]"])

lemma keeps_bindA [intro]:
  assumes "keeps Q T m" "\<And>x. keeps Q T (f x)"
  shows "keeps Q T (bindA m f)"
proof -
  have "keeps Q T (\<lambda>c. case m c of (p, c') \<Rightarrow>
      (case p of Done x \<Rightarrow> f x | Raise e \<Rightarrow> (\<lambda>c. (Raise e, c)) | Pending \<Rightarrow> (\<lambda>c. (Pending, c)) | Panicked \<Rightarrow> (\<lambda>c. (Panicked, c))) c')"
    by (rule keeps_then [OF assms(1)]) (auto simp: assms(2) split: poll.split)
  moreover have "bindA m f = (\<lambda>c. case m c of (p, c') \<Rightarrow>
      (case p of Done x \<Rightarrow> f x | Raise e \<Rightarrow> (\<lambda>c. (Raise e, c)) | Pending \<Rightarrow> (\<lambda>c. (Pending, c)) | Panicked \<Rightarrow> (\<lambda>c. (Panicked, c))) c')"
    by (auto simp: bindA_def fun_eq_iff split: prod.split poll.split)
  ultimately show ?thesis by simp
qed


lemma keeps_map_error [intro]:
  assumes "keeps Q T m"
  shows "keeps Q T (map_error h m)"
proof -
  have "keeps Q T (\<lambda>c. case m c of (p, c') \<Rightarrow> (\<lambda>c.
      (case p of Done x \<Rightarrow> Done x | Raise e \<Rightarrow> Raise (h e) | Pending \<Rightarrow> Pending | Panicked \<Rightarrow> Panicked, c)) c')"
    by (rule keeps_then [OF assms]) (auto split: poll.split)
  moreover have "map_error h m = (\<lambda>c. case m c of (p, c') \<Rightarrow> (\<lambda>c.
      (case p of Done x \<Rightarrow> Done x | Raise e \<Rightarrow> Raise (h e) | Pending \<Rightarrow> Pending | Panicked \<Rightarrow> Panicked, c)) c')"
    by (auto simp: map_error_def fun_eq_iff split: prod.split poll.split)
  ultimately show ?thesis by simp
qed

lemma keeps_pure [intro!, simp]: "keeps Q T (ret x)" "keeps Q T (throw e)"
  unfolding ret_def [abs_def] throw_def [abs_def] by simp_all

lemma keeps_get_state [intro!]:
  assumes "\<And>c st. g (c\<lparr>shared := st\<rparr>) = g c"
  shows "keeps Q T (get_state g)"
  by (rule keepsI)
    (auto simp: get_state_def runs_def guarantees_def assms intro!: exI [of _ "[]"])

lemma keeps_on_stream [intro]:
  assumes "calm n"
  shows "keeps Q T (on_stream n)"
proof (rule keepsI)
  fix c :: conn
  obtain p s where n: "n (stream c) = (p, s)" by (cases "n (stream c)")
  then have "runs (on_stream n) c p (c\<lparr>stream := s\<rparr>) []" by (simp add: runs_def on_stream_def)
  moreover have "guarantees Q T c p (c\<lparr>stream := s\<rparr>)" using calmD [OF assms, of "stream c" s] n by (auto simp: guarantees_def)
  ultimately show "\<exists>p c' ops. runs (on_stream n) c p c' ops \<and> guarantees Q T c p c'" by blast
qed

lemma keeps_io [intro]: "calm n \<Longrightarrow> keeps Q T (io n)"
  unfolding io_def by blast

text \<open>Updates of the connection: notes, and fields that are not shared.\<close>

lemma keeps_note:
  assumes "\<And>c st. run_op (op c) st = (None, f c st)" "\<And>c st. f (c\<lparr>shared := st\<rparr>) = f c" "\<And>c st. op (c\<lparr>shared := st\<rparr>) = op c"
  shows "keeps Q T (modify (\<lambda>c. note_stats (f c) c))"
proof (rule keepsI)
  fix c
  have "is_note (op c)" using assms(1) [of c "shared c"] by (cases "op c") (auto split: prod.splits)
  then have "runs (modify (\<lambda>c. note_stats (f c) c)) c (Done ()) (note_stats (f c) c) (if has_stats c then [op c] else [])"
    using assms by (simp add: runs_def modify_def note_stats_def)
  moreover have "guarantees Q T c (Done ()) (note_stats (f c) c)" by (simp add: guarantees_def note_stats_def)
  ultimately show "\<exists>p c' ops. runs (modify (\<lambda>c. note_stats (f c) c)) c p c' ops \<and> guarantees Q T c p c'" by blast
qed

lemma keeps_notes [simp]:
  "keeps Q T (modify (note_stats note_auth_failure))" "keeps Q T (modify (note_stats note_handshake_timeout))"
  "keeps Q T (modify (\<lambda>c. note_stats (note_request (client_id c) cmd) c))" "keeps Q T (modify (note_stats (note_relay u d)))"
  "keeps Q T (modify (note_stats (note_udp_datagram n)))" "keeps Q T (modify (note_stats (note_udp_reply n)))"
  using keeps_note [of "\<lambda>_. OpAuthFailure" "\<lambda>_. note_auth_failure"]
    keeps_note [of "\<lambda>_. OpHandshakeTimeout" "\<lambda>_. note_handshake_timeout"]
    keeps_note [of "\<lambda>c. OpRequest (client_id c) cmd" "\<lambda>c. note_request (client_id c) cmd"]
    keeps_note [of "\<lambda>_. OpRelay u d" "\<lambda>_. note_relay u d"]
    keeps_note [of "\<lambda>_. OpUdpDatagram n" "\<lambda>_. note_udp_datagram n"]
    keeps_note [of "\<lambda>_. OpUdpReply n" "\<lambda>_. note_udp_reply n"]
  by simp_all

lemma keeps_op:
  assumes "\<And>st. run_op op st = (None, f st)"
  shows "keeps Q T (modify (\<lambda>c. c\<lparr>shared := f (shared c)\<rparr>))"
proof (rule keepsI)
  fix c
  have "is_note op" using assms [of "shared c"] by (cases op) (auto split: prod.splits)
  then have "runs (modify (\<lambda>c. c\<lparr>shared := f (shared c)\<rparr>)) c (Done ()) c [op]"
    using assms by (simp add: runs_def modify_def)
  moreover have "guarantees Q T c (Done ()) c" by (simp add: guarantees_def)
  ultimately show "\<exists>p c' ops. runs (modify (\<lambda>c. c\<lparr>shared := f (shared c)\<rparr>)) c p c' ops \<and> guarantees Q T c p c'" by blast
qed

lemma keeps_fields [simp]:
  "keeps Q T (modify (\<lambda>c. c\<lparr>replied := r\<rparr>))" "keeps Q T (modify (\<lambda>c. c\<lparr>socks_version := v, auth_nmethods := n\<rparr>))"
  "keeps Q T (modify (send_to bs dest))"
proof -
  have "keeps Q T (modify f)" if "\<And>c st. f (c\<lparr>shared := st\<rparr>) = (f c)\<lparr>shared := st\<rparr>" "\<And>c. dns_cache (f c) = dns_cache c" for f
    by (rule keepsI) (auto simp: runs_def modify_def guarantees_def that intro!: exI [of _ "[]"])
  from this [of "\<lambda>c. c\<lparr>replied := r\<rparr>"] this [of "\<lambda>c. c\<lparr>socks_version := v, auth_nmethods := n\<rparr>"] this [of "send_to bs dest"]
  show "keeps Q T (modify (\<lambda>c. c\<lparr>replied := r\<rparr>))" "keeps Q T (modify (\<lambda>c. c\<lparr>socks_version := v, auth_nmethods := n\<rparr>))"
    "keeps Q T (modify (send_to bs dest))"
    by (simp_all add: send_to_def)
qed

lemma keeps_modify_comp:
  assumes "keeps Q T (modify f :: (conn, 'e, unit) async)" "keeps Q T (modify g :: (conn, 'e, unit) async)"
  shows "keeps Q T (modify (\<lambda>c. g (f c)) :: (conn, 'e, unit) async)"
proof -
  have "bindA (modify f) (\<lambda>_. modify g) = (modify (\<lambda>c. g (f c)) :: (conn, 'e, unit) async)"
    by (simp add: fun_eq_iff bindA_def modify_def)
  with keeps_bindA [OF assms] show ?thesis by simp
qed

section \<open>A connection\<close>

lemma keeps_read_methods [simp]: "keeps Q T (read_methods n ms)"
  by (induction n arbitrary: ms) (auto intro!: keeps_bindA calm_intros)

lemma keeps_negotiate: "keeps Q T negotiate"
proof -
  have "keeps Q T (modify (\<lambda>c. (note_stats note_auth_failure c)\<lparr>replied := True\<rparr>))"
    by (rule keeps_modify_comp) simp_all
  then have refuse: "keeps Q T refuse_login"
    unfolding refuse_login_def by (intro keeps_bindA keeps_pure keeps_io calm_intros)
  have "keeps Q T userpass_auth"
    unfolding userpass_auth_def
    by (intro keeps_bindA keeps_io calm_intros)
      (auto intro!: keeps_bindA refuse calm_intros simp: client_authed_def split: sum.splits)
  then have "keeps Q T auth"
    unfolding auth_def get_avalible_methods_def
    by (intro keeps_bindA keeps_map_error keeps_read_methods)
      (auto intro!: keeps_bindA calm_intros)
  then show ?thesis
    unfolding negotiate_def client_shutdown_def
    by (intro keeps_bindA keeps_io calm_intros) (auto intro!: keeps_bindA keeps_map_error calm_intros)
qed


text \<open>
  Conditions on the resolutions of a connection: those of its \<open>CONNECT\<close> and of its datagrams. A
  resolution is \<open>calm_at t\<close> if the resolver does not panic and no answer comes later than \<open>t\<close>.
\<close>

fun event_ok :: "(resolution \<Rightarrow> bool) \<Rightarrow> udp_event \<Rightarrow> bool" where
  "event_ok P Control \<longleftrightarrow> True"
| "event_ok P (Recv r res) \<longleftrightarrow> P r"

definition env_ok :: "(resolution \<Rightarrow> bool) \<Rightarrow> net_env \<Rightarrow> bool" where
  "env_ok P env \<longleftrightarrow> P (resolving env) \<and> list_all (event_ok P) (udp_events env)"

definition calm_at :: "nat \<Rightarrow> resolution \<Rightarrow> bool" where
  "calm_at t r \<longleftrightarrow> answered_at r \<le> t \<and> (\<forall>name. lookup_host r name \<noteq> Panicked)"

definition well_resolved :: "bool \<Rightarrow> nat option \<Rightarrow> resolution \<Rightarrow> bool" where
  "well_resolved Q T r \<longleftrightarrow> (Q \<longrightarrow> cooperative r \<and> (\<forall>t. T = Some t \<longrightarrow> calm_at t r))"

lemma keeps_resolve:
  assumes "well_resolved Q T r"
  shows "keeps Q T (resolve r ty a p)"
proof (rule keepsI)
  fix c :: conn
  obtain q d where run: "addr_to_socket r ty a p (dns_cache c) = (q, d)" by (rule prod.exhaust)
  define res :: "(merino_error, error_kind + socket_addr list) poll"
    where "res = (case q of Done x \<Rightarrow> Done (Inr x) | Raise e \<Rightarrow> Done (Inl e) | Pending \<Rightarrow> Pending | Panicked \<Rightarrow> Panicked)"
  have "runs (resolve r ty a p) c res (c\<lparr>dns_cache := d\<rparr>) []"
    using run by (auto simp: runs_def resolve_def res_def split: poll.split)
  moreover have "guarantees Q T c res (c\<lparr>dns_cache := d\<rparr>)"
  proof (unfold guarantees_def, intro impI)
    assume Q
    with assms have r: "cooperative r" "\<And>t. T = Some t \<Longrightarrow> calm_at t r" by (auto simp: well_resolved_def)
    note steps = addr_to_socket_steps [OF run r(1)]
    have "res = Panicked \<Longrightarrow> q = Panicked" by (auto simp: res_def split: poll.splits)
    moreover have "q \<noteq> Panicked" if "fits T (dns_cache c)"
      using that steps r(2) by (fastforce simp: fits_def calm_at_def)
    ultimately show "cached (dns_cache c) (dns_cache (c\<lparr>dns_cache := d\<rparr>)) \<and> (fits T (dns_cache c) \<longrightarrow> res \<noteq> Panicked)"
      using steps by auto
  qed
  ultimately show "\<exists>p' c' ops. runs (resolve r ty a p) c p' c' ops \<and> guarantees Q T c p' c'" by blast
qed

lemma keeps_udp_turn:
  assumes "event_ok (well_resolved Q T) ev"
  shows "keeps Q T (udp_turn expd ca ev)"
proof (cases ev)
  case Control
  define next_addr :: "(error_kind, bytes) poll \<Rightarrow> (merino_error, socket_addr option option) poll" where
    "next_addr p = (case p of Done bs \<Rightarrow> Done (if bs = [] then None else Some ca) | Raise _ \<Rightarrow> Done None
       | Pending \<Rightarrow> Done (Some ca) | Panicked \<Rightarrow> Panicked)" for p
  have "keeps Q T (\<lambda>c. case on_stream (read_some 1 1) c of (p, c') \<Rightarrow> (\<lambda>c. (next_addr p, c)) c')"
    by (rule keeps_then) (auto intro!: calm_intros simp: next_addr_def split: poll.split)
  moreover have "udp_turn expd ca Control = (\<lambda>c. case on_stream (read_some 1 1) c of (p, c') \<Rightarrow> (\<lambda>c. (next_addr p, c)) c')"
    by (auto simp: fun_eq_iff next_addr_def split: prod.split poll.split)
  ultimately show ?thesis by (simp add: Control)
next
  case (Recv r res)
  have send: "keeps Q T (modify (\<lambda>c. send_to bs dest (note_stats (note_udp_datagram n) c)))" for bs dest n
    by (rule keeps_modify_comp) simp_all
  have "keeps Q T (udp_forward r d)" for d
    unfolding udp_forward_def using assms Recv
    by (auto intro!: keeps_bindA keeps_resolve send split: sum.splits list.splits)
  moreover have "keeps Q T (udp_reply cl d src)" for cl d src
    unfolding udp_reply_def Let_def by (rule keeps_modify_comp) simp_all
  ultimately have "keeps Q T (bindA (udp_forward r d) (\<lambda>_. ret x))" "keeps Q T (bindA (udp_reply cl d src) (\<lambda>_. ret x))"
    for d cl src and x :: "socket_addr option option"
    by (blast intro!: keeps_bindA keeps_pure)+
  moreover have "udp_turn expd ca (Recv r (Inl e)) = (\<lambda>c. (Done None, c))" for e by (simp add: fun_eq_iff)
  moreover have "udp_turn expd ca (Recv r (Inr (d, src))) =
      (case ca of
         None \<Rightarrow> if admits expd src then bindA (udp_forward r (take 65535 d)) (\<lambda>_. ret (Some (Some src)))
           else (\<lambda>c. (Done (Some None), c))
       | Some client \<Rightarrow> if client = src then bindA (udp_forward r (take 65535 d)) (\<lambda>_. ret (Some (Some src)))
           else bindA (udp_reply client (take 65535 d) src) (\<lambda>_. ret (Some (Some client))))" for d src
    by (auto simp: fun_eq_iff Let_def admits_def split: option.split)
  ultimately show ?thesis
    by (cases res) (simp_all add: Recv split_paired_all split: option.split)
qed

lemma keeps_udp_loop:
  "list_all (event_ok (well_resolved Q T)) evs \<Longrightarrow> keeps Q T (udp_loop expd evs ca)"
proof (induction evs arbitrary: ca)
  case Nil
  have "udp_loop expd [] ca = (\<lambda>c. (Pending, c))" by (simp add: fun_eq_iff)
  then show ?case by simp
next
  case (Cons ev evs)
  have "keeps Q T (bindA (udp_turn expd ca ev)
      (\<lambda>next_addr. case next_addr of None \<Rightarrow> ret () | Some ca' \<Rightarrow> udp_loop expd evs ca'))"
    using Cons by (intro keeps_bindA keeps_udp_turn) (auto split: option.split)
  moreover have "udp_loop expd (ev # evs) ca = bindA (udp_turn expd ca ev)
      (\<lambda>next_addr. case next_addr of None \<Rightarrow> ret () | Some ca' \<Rightarrow> udp_loop expd evs ca')"
    by (simp add: fun_eq_iff)
  ultimately show ?case by simp
qed

lemma keeps_relay_conn: "keeps Q T (relay_conn env t)"
proof (rule keepsI)
  fix c :: conn
  obtain res r where relay: "copy_bidirectional_counted (relay_events env) (stream c) t (has_stats c)
      (relay_counters c \<noteq> None) = (res, r)" by (rule prod.exhaust)
  have calm: "res \<noteq> Panicked"
    using relay copy_bidirectional_calm [of "relay_events env" "stream c" t "has_stats c" "relay_counters c \<noteq> None"]
    by auto
  define stores where "stores = (case (relay_counters c, published r) of
      (Some i, Some (u, d)) \<Rightarrow> [OpStore i u d] | _ \<Rightarrow> [])"
  define totals where "totals = (case res of Done (u, d) \<Rightarrow> if has_stats c then [OpRelay u d] else [] | _ \<Rightarrow> [])"
  define c1 where "c1 = c\<lparr>stream := side_a r, target := Some (side_b r)\<rparr>"
  define p where "p = (case res of Done (u, d) \<Rightarrow> Done (unat d)
      | Raise e \<Rightarrow> if e = Ek_NotConnected then Done 0 else Raise (Io e) | Pending \<Rightarrow> Pending | Panicked \<Rightarrow> Panicked)"
  have "runs (relay_conn env t) c p c1 (stores @ totals)"
    using relay
    by (cases res) (auto simp: runs_def relay_conn_def Let_def note_stats_def stores_def totals_def c1_def p_def
        split: option.splits)
  moreover have "guarantees Q T c p c1"
    using calm by (cases res) (auto simp: guarantees_def c1_def p_def)
  ultimately show "\<exists>p c' ops. runs (relay_conn env t) c p c' ops \<and> guarantees Q T c p c'" by blast
qed


lemma keeps_handle_request:
  assumes "env_ok (well_resolved Q T) env"
  shows "keeps Q T (handle_request env req)"
proof -
  from assms have res: "keeps Q T (resolve (resolving env) ty a p)" for ty a p
    by (intro keeps_resolve) (simp add: env_ok_def)
  from assms have udp: "keeps Q T (udp_loop expd (udp_events env) ca)" for expd ca
    by (intro keeps_udp_loop) (simp add: env_ok_def)
  have budget: "keeps Q T (get_state connect_budget)" by (auto simp: connect_budget_def)
  have local: "keeps Q T (get_state (\<lambda>c. b (socket_addr_new (local_interface c) 0)))" for b :: "socket_addr \<Rightarrow> 'x"
    by (auto simp: local_interface_def)
  have "keeps Q T (handle_connect env req)"
    unfolding handle_connect_def
    by (intro keeps_bindA res)
      (auto intro!: keeps_bindA budget keeps_relay_conn calm_intros split: sum.splits option.splits)
  moreover have "keeps Q T (handle_bind env req)"
    unfolding handle_bind_def
    by (intro keeps_bindA local)
      (auto intro!: keeps_bindA budget keeps_relay_conn calm_intros split: sum.splits option.splits)
  moreover have "keeps Q T (handle_udp_associate b (udp_events env) req)" for b
    unfolding handle_udp_associate_def
    by (intro keeps_bindA local) (auto intro!: keeps_bindA udp calm_intros split: sum.splits)
  ultimately show ?thesis
    unfolding handle_request_def
    by (intro keeps_bindA) (auto split: sock_command.splits)
qed

text \<open>The error path never fails: it waits or it is done.\<close>

definition settle :: "('e, 'a) poll \<Rightarrow> ('f, unit) poll" where
  "settle p = (case p of Pending \<Rightarrow> Pending | Panicked \<Rightarrow> Panicked | _ \<Rightarrow> Done ())"

lemma keeps_report_error: "keeps Q T (report_error e)"
proof -
  define tally where "tally c = c\<lparr>shared := (if is_client_disconnect e then note_disconnect (shared c)
      else note_error (code_byte (code_of_error e)) (shared c))\<rparr>" for c :: conn
  define answer :: "(conn, error_kind, unit) async"
    where "answer c = (if \<not> replied c then on_stream (reply_send (reply_new (code_of_error e))) c else (Done (), c))" for c
  define close :: "(error_kind, unit) poll \<Rightarrow> (conn, merino_error, unit) async"
    where "close p = (case p of Pending \<Rightarrow> (\<lambda>c. (Pending, c)) | Panicked \<Rightarrow> (\<lambda>c. (Panicked, c))
      | _ \<Rightarrow> (\<lambda>c. case client_shutdown c of (q, c') \<Rightarrow> (\<lambda>c. (settle q, c)) c'))" for p
  have "keeps Q T (modify tally :: (conn, merino_error, unit) async)"
    using keeps_op [of OpDisconnect note_disconnect]
      keeps_op [of "OpError (code_byte (code_of_error e))" "note_error (code_byte (code_of_error e))"]
    by (cases "is_client_disconnect e") (simp_all add: tally_def [abs_def])
  moreover have "keeps Q T answer"
  proof -
    have "answer = bindA (get_state replied) (\<lambda>r. if \<not> r then on_stream (reply_send (reply_new (code_of_error e))) else ret ())"
      by (simp add: answer_def fun_eq_iff bindA_def get_state_def ret_def)
    then show ?thesis by (auto intro!: keeps_bindA calm_intros)
  qed
  moreover have "keeps Q U (close p)" if "p \<noteq> Panicked \<or> U = None" for U p
  proof -
    have "keeps Q U (\<lambda>c. case client_shutdown c of (q, c') \<Rightarrow> (\<lambda>c. (settle q :: (merino_error, unit) poll, c)) c')"
      unfolding client_shutdown_def
      by (rule keeps_then) (auto intro!: calm_intros simp: settle_def split: poll.split)
    with that show ?thesis by (cases p) (auto simp: close_def)
  qed
  ultimately have "keeps Q T (bindA (modify tally) (\<lambda>_ c. case answer c of (p, c') \<Rightarrow> close p c'))"
    by (intro keeps_bindA keeps_then) auto
  moreover have "bindA (modify tally) (\<lambda>_ c. case answer c of (p, c') \<Rightarrow> close p c') = report_error e"
    by (auto simp: fun_eq_iff report_error_def Let_def bindA_def modify_def tally_def answer_def close_def settle_def
        split: prod.splits poll.splits)
  ultimately show ?thesis by simp
qed

lemma keeps_within_handshake:
  assumes "keeps Q T m"
  shows "keeps Q T (within_handshake m)"
proof -
  define out where "out p = (case p of
      Pending \<Rightarrow> bindA (modify (note_stats note_handshake_timeout)) (\<lambda>_. throw (Socks TtlExpired))
    | _ \<Rightarrow> (\<lambda>c. (p, c)))" for p :: "(merino_error, 'a) poll"
  have "keeps Q T (\<lambda>c. case m c of (p, c') \<Rightarrow> out p c')"
    by (rule keeps_then [OF assms]) (auto simp: out_def split: poll.split)
  moreover have "(\<lambda>c. case m c of (p, c') \<Rightarrow> out p c') = within_handshake m"
    by (auto simp: fun_eq_iff within_handshake_def out_def bindA_def modify_def throw_def split: prod.splits poll.splits)
  ultimately show ?thesis by simp
qed

lemma keeps_serve_client:
  assumes "env_ok (well_resolved Q T) env"
  shows "keeps Q T (serve_client env)"
proof -
  define out :: "(merino_error, unit) poll \<Rightarrow> (conn, merino_error, unit) async" where
    "out p = (case p of Done _ \<Rightarrow> ret () | Raise e \<Rightarrow> report_error e
       | Pending \<Rightarrow> (\<lambda>c. (Pending, c)) | Panicked \<Rightarrow> (\<lambda>c. (Panicked, c)))" for p
  have "keeps Q T (init env)"
    unfolding init_def
    by (intro keeps_bindA keeps_within_handshake keeps_negotiate keeps_handle_request [OF assms] keeps_pure)
  then have "keeps Q T (\<lambda>c. case init env c of (p, c') \<Rightarrow> out p c')"
    by (rule keeps_then) (auto simp: out_def keeps_report_error split: poll.split)
  moreover have "(\<lambda>c. case init env c of (p, c') \<Rightarrow> out p c') = serve_client env"
    by (auto simp: fun_eq_iff serve_client_def out_def ret_def split: prod.splits poll.splits)
  ultimately show ?thesis by simp
qed

text \<open>With nothing asked of the other connections, and with all of it.\<close>

lemma env_ok_mono: "env_ok P env \<Longrightarrow> (\<And>r. P r \<Longrightarrow> R r) \<Longrightarrow> env_ok R env"
proof -
  assume ok: "env_ok P env" and PR: "\<And>r. P r \<Longrightarrow> R r"
  have "event_ok P ev \<Longrightarrow> event_ok R ev" for ev using PR by (cases ev) simp_all
  with ok PR show "env_ok R env" by (auto simp: env_ok_def elim: list.pred_mono_strong)
qed

lemma env_ok_conj: "env_ok P env \<Longrightarrow> env_ok R env \<Longrightarrow> env_ok (\<lambda>r. P r \<and> R r) env"
proof -
  assume "env_ok P env" "env_ok R env"
  moreover have "event_ok P ev \<Longrightarrow> event_ok R ev \<Longrightarrow> event_ok (\<lambda>r. P r \<and> R r) ev" for ev by (cases ev) simp_all
  ultimately show ?thesis by (auto simp: env_ok_def list_all_iff)
qed

lemma serve_client_footprint: "keeps False None (serve_client env)"
proof (rule keeps_serve_client)
  have "event_ok (\<lambda>_. True) ev" for ev by (cases ev) simp_all
  then have "env_ok (\<lambda>_. True) env" by (simp add: env_ok_def list_all_iff)
  then show "env_ok (well_resolved False None) env" by (rule env_ok_mono) (simp add: well_resolved_def)
qed

lemma serve_client_cooperates: "env_ok cooperative env \<Longrightarrow> keeps True None (serve_client env)"
  by (rule keeps_serve_client) (auto simp: well_resolved_def elim: env_ok_mono)

text \<open>
  Nothing a client sends makes the connection panic, as long as the lifetime of cached names, added to
  the time of any insertion, is a representable instant.
\<close>

lemma run_client_calm:
  assumes "env_ok cooperative env" "env_ok (calm_at t) env" "\<forall>d. dns_cache c = Some d \<longrightarrow> t + ttl d \<le> INSTANT_MAX"
  shows "fst (run_client env now client_addr c) \<noteq> Panicked"
proof -
  obtain g st where b: "begin_client now client_addr (local_addr c) (shared c) = (g, st)"
    by (cases "begin_client now client_addr (local_addr c) (shared c)")
  let ?c = "c\<lparr>shared := st, client_id := Some (guard_id g), relay_counters := Some (guard_id g)\<rparr>"
  obtain p c' where s: "serve_client env ?c = (p, c')" by (rule prod.exhaust)
  have "keeps True (Some t) (serve_client env)"
    by (rule keeps_serve_client [OF env_ok_mono [OF env_ok_conj [OF assms(1,2)]]]) (simp add: well_resolved_def)
  from keepsD(2) [OF this s] have "p \<noteq> Panicked" using assms(3) by (auto simp: guarantees_def fits_def)
  with s show ?thesis
    by (cases p) (auto simp: run_client_def b modify_def)
qed

end
