(* ===== verification/Client.thy ===== *)
theory Client
  imports Footprint
begin

text \<open>
  What a client connection does, on the wire and to the statistics: the error path and its answers,
  \<open>CONNECT\<close> from the request to the end of the relay, \<open>BIND\<close>, and the release of the connection.
\<close>

section \<open>The error path\<close>

text \<open>What \<open>run_client\<close> counts for an error, and the answer it sends.\<close>

definition counted :: "merino_error \<Rightarrow> conn \<Rightarrow> conn" where
  "counted e c =
     c\<lparr>shared := (if is_client_disconnect e then note_disconnect (shared c)
                  else note_error (code_byte (code_of_error e)) (shared c))\<rparr>"

definition failure_events :: "bool \<Rightarrow> response_code \<Rightarrow> tx_event list" where
  "failure_events answered code =
     (if answered then [Shut] else [Sent [5, code_byte code, 0, 1, 0, 0, 0, 0, 0, 0], Shut])"

lemma on_stream_write: "tx_ok 1 (stream c) \<Longrightarrow>
    on_stream (write_all bs) c = (Done (), after (rx (stream c)) [Sent bs] c)"
  by (cases "tx_script (stream c)") (auto simp: on_stream_def write_all_def next_tx_def tx_ok_def after_def)

lemma on_stream_shutdown: "tx_ok 1 (stream c) \<Longrightarrow>
    on_stream shutdown_stream c = (Done (), after (rx (stream c)) [Shut] c)"
  by (cases "tx_script (stream c)") (auto simp: on_stream_def shutdown_stream_def next_tx_def tx_ok_def after_def)

lemma report_error_wire:
  assumes "tx_ok 2 (stream c)"
  shows "report_error e c =
    (Done (), after (rx (stream c)) (failure_events (replied c) (code_of_error e)) (counted e c))"
proof -
  have tx: "tx_ok 1 (stream c)" "tx_ok 1 ((stream c)\<lparr>tx_script := drop 1 (tx_script (stream c))\<rparr>)"
    using assms tx_ok_add [of 1 1 "stream c"] by (simp_all add: numeral_2_eq_2)
  have buf: "buf (reply_new code) = [5, code_byte code, 0, 1, 0, 0, 0, 0, 0, 0]" for code
    using reply_new_bytes [of code] by (simp add: as_bytes_def)
  let ?c = "counted e c"
  have st: "stream ?c = stream c" "replied ?c = replied c" by (simp_all add: counted_def)
  show ?thesis
  proof (cases "replied c")
    case True
    have "client_shutdown ?c = (Done (), after (rx (stream c)) [Shut] ?c)"
      using on_stream_shutdown [of ?c] tx st by (simp add: client_shutdown_def)
    then show ?thesis
      using True by (simp add: report_error_def failure_events_def flip: counted_def)
  next
    case False
    let ?r = "[Sent (buf (reply_new (code_of_error e)))]"
    have "on_stream (reply_send (reply_new (code_of_error e))) ?c = (Done (), after (rx (stream c)) ?r ?c)"
      using on_stream_write [of ?c] tx st by (simp add: reply_send_eq)
    moreover have "client_shutdown (after (rx (stream c)) ?r ?c) = (Done (), after (rx (stream c)) (?r @ [Shut]) ?c)"
      unfolding client_shutdown_def using tx st by (subst on_stream_shutdown) simp_all
    ultimately show ?thesis
      using False st by (simp add: report_error_def failure_events_def buf flip: counted_def)
  qed
qed

lemma serve_client_error:
  assumes "init env c = (Raise e, c1)" "tx_ok 2 (stream c1)"
  shows "serve_client env c =
    (Done (), after (rx (stream c1)) (failure_events (replied c1) (code_of_error e)) (counted e c1))"
  using assms by (simp add: serve_client_def report_error_wire)

lemma init_negotiated:
  "negotiate c = (Done req, c1) \<Longrightarrow> init env c = bindA (handle_request env req) (\<lambda>_. ret ()) c1"
  by (simp add: init_def within_handshake_def bindA_def)

lemma init_negotiation_failed:
  "negotiate c = (Raise e, c1) \<Longrightarrow> init env c = (Raise e, c1)"
  "negotiate c = (Pending, c1) \<Longrightarrow>
     init env c = (Raise (Socks TtlExpired), note_stats note_handshake_timeout c1)"
  by (simp_all add: init_def within_handshake_def bindA_def)

lemma negotiate_frame:
  assumes "negotiate c = (Done req, c1)"
  shows "replied c1 = replied c \<and> dns_cache c1 = dns_cache c \<and> timeout c1 = timeout c \<and>
    has_stats c1 = has_stats c \<and> relay_counters c1 = relay_counters c \<and> shared c1 = shared c"
  using assms by (auto simp: negotiate_Done_iff greeted_def after_def)

text \<open>The code a \<open>CONNECT\<close> that reaches no destination is answered with, \<open>None\<close> when one is reached.\<close>

definition connect_reply :: "net_env \<Rightarrow> conn \<Rightarrow> socks_req \<Rightarrow> response_code option" where
  "connect_reply env c req =
     (case fst (addr_to_socket (resolving env)
                  (req_addr_type req) (req_addr req) (req_port req) (dns_cache c)) of
        Raise e \<Rightarrow> Some (if e = Ek_InvalidInput then Failure else HostUnreachable)
      | Done addrs \<Rightarrow>
          (case connect_within (connect_budget c) (connect_net env) addrs of
             None \<Rightarrow> Some TtlExpired
           | Some (Inl Ek_ConnectionRefused) \<Rightarrow> Some ConnectionRefused
           | Some (Inl Ek_NetworkUnreachable) \<Rightarrow> Some NetworkUnreachable
           | Some (Inl Ek_NetworkDown) \<Rightarrow> Some NetworkUnreachable
           | Some (Inl Ek_HostUnreachable) \<Rightarrow> Some HostUnreachable
           | Some (Inl Ek_AddrNotAvailable) \<Rightarrow> Some HostUnreachable
           | Some (Inl _) \<Rightarrow> Some Failure
           | Some (Inr _) \<Rightarrow> None)
      | _ \<Rightarrow> None)"

lemma connect_reply_note [simp]: "connect_reply env (note_stats f c) req = connect_reply env c req"
proof -
  have eq: "dns_cache (note_stats f c) = dns_cache c" "connect_budget (note_stats f c) = connect_budget c"
    by (simp_all add: note_stats_def connect_budget_def)
  show ?thesis unfolding connect_reply_def eq ..
qed

lemma handle_connect_fails:
  assumes "connect_reply env c req = Some code"
  shows "\<exists>e d. handle_connect env req c = (Raise e, c\<lparr>dns_cache := d\<rparr>) \<and> code_of_error e = code"
proof -
  obtain p d where a: "addr_to_socket (resolving env)
      (req_addr_type req) (req_addr req) (req_port req) (dns_cache c) = (p, d)" by (rule prod.exhaust)
  show ?thesis
  proof (cases p)
    case (Done addrs)
    let ?r = "connect_within (connect_budget c) (connect_net env) addrs"
    have "connect_budget (c\<lparr>dns_cache := d\<rparr>) = connect_budget c" by (simp add: connect_budget_def)
    moreover from assms a Done have "?r = None \<and> code = TtlExpired \<or>
        (\<exists>k. ?r = Some (Inl k) \<and> code_of_error (connect_error k) = code)"
      by (auto simp: connect_reply_def split: option.splits sum.splits error_kind.splits)
    ultimately show ?thesis
      using a Done
      by (auto simp: handle_connect_def bindA_def resolve_def get_state_def throw_def connect_timeout_error_def)
  qed (use assms a in \<open>auto simp: connect_reply_def handle_connect_def bindA_def resolve_def throw_def dns_failure_error_def\<close>)
qed

text \<open>A \<open>CONNECT\<close> that reaches a destination: the success reply, then the relay.\<close>

lemma init_connected:
  assumes "negotiate c = (Done req, c1)" "req_command req = Connect"
    and "addr_to_socket (resolving env)
      (req_addr_type req) (req_addr req) (req_port req) (dns_cache c1) = (Done addrs, d)"
    and "connect_within (connect_budget c1) (connect_net env) addrs = Some (Inr t)"
    and "tx_ok 1 (stream c1)"
  shows "init env c = bindA (relay_conn env t) (\<lambda>_. ret ())
    ((after (rx (stream c1)) [Sent [5, 0, 0, 1, 0, 0, 0, 0, 0, 0]]
        (note_stats (note_request (client_id c1) Connect) c1))\<lparr>dns_cache := d\<rparr>)"
proof -
  let ?c = "note_stats (note_request (client_id c1) Connect) c1"
  have eq: "dns_cache ?c = dns_cache c1" "connect_budget (?c\<lparr>dns_cache := d\<rparr>) = connect_budget c1"
    "stream (?c\<lparr>dns_cache := d\<rparr>) = stream c1"
    by (simp_all add: note_stats_def connect_budget_def)
  have buf: "buf (reply_new Success) = [5, 0, 0, 1, 0, 0, 0, 0, 0, 0]"
    using reply_new_bytes [of Success] by (simp add: as_bytes_def)
  have "io (reply_send (reply_new Success)) (?c\<lparr>dns_cache := d\<rparr>) =
      (Done (), after (rx (stream c1)) [Sent [5, 0, 0, 1, 0, 0, 0, 0, 0, 0]] (?c\<lparr>dns_cache := d\<rparr>))"
    using io_write [of "?c\<lparr>dns_cache := d\<rparr>"] assms(5) eq(3) by (simp add: reply_send_eq buf)
  moreover have "resolve (resolving env)
      (req_addr_type req) (req_addr req) (req_port req) ?c = (Done (Inr addrs), ?c\<lparr>dns_cache := d\<rparr>)"
    using assms(3) eq(1) by (simp add: resolve_def)
  ultimately have "handle_connect env req ?c =
      relay_conn env t (after (rx (stream c1)) [Sent [5, 0, 0, 1, 0, 0, 0, 0, 0, 0]] (?c\<lparr>dns_cache := d\<rparr>))"
    using assms(4) eq(2) by (simp add: handle_connect_def)
  moreover have "after (rx (stream c1)) [Sent [5, 0, 0, 1, 0, 0, 0, 0, 0, 0]] (?c\<lparr>dns_cache := d\<rparr>) =
      (after (rx (stream c1)) [Sent [5, 0, 0, 1, 0, 0, 0, 0, 0, 0]] ?c)\<lparr>dns_cache := d\<rparr>"
    by (simp add: after_def)
  ultimately have "handle_request env req c1 = relay_conn env t
      ((after (rx (stream c1)) [Sent [5, 0, 0, 1, 0, 0, 0, 0, 0, 0]] ?c)\<lparr>dns_cache := d\<rparr>)"
    using assms(2) by (simp add: handle_request_def)
  then show ?thesis using init_negotiated [OF assms(1)] by (simp add: bindA_def)
qed

subsection \<open>The inbound connection of a \<open>BIND\<close>\<close>

lemma io_write_frame:
  assumes "io (write_all bs) c = (p, c')"
  shows "rx (stream c') = rx (stream c)" "target c' = target c" "shared c' = shared c" "connect_budget c' = connect_budget c"
    "\<exists>k. sent (stream c') = sent (stream c) @ [Sent (take k bs)]"
proof -
  obtain q s' where w: "write_all bs (stream c) = (q, s')" by (rule prod.exhaust)
  then have c': "c' = c\<lparr>stream := s'\<rparr>"
    using assms by (auto simp: io_def map_error_def on_stream_def split: poll.splits)
  from write_all_frame [OF w]
  show "rx (stream c') = rx (stream c)" "target c' = target c" "shared c' = shared c" "connect_budget c' = connect_budget c"
    "\<exists>k. sent (stream c') = sent (stream c) @ [Sent (take k bs)]"
    by (auto simp: c' connect_budget_def)
qed

lemma bind_refused:
  assumes "expected_ip (req_addr_type req) (req_addr req) = Some ip" and run: "handle_bind env req c = (p, c')"
    and none: "\<nexists>t s from_addr. inbound env = Some (t, Inr (s, from_addr)) \<and> t \<le> connect_budget c \<and> sock_ip from_addr = ip"
  shows "(\<forall>n. p \<noteq> Done n) \<and> rx (stream c') = rx (stream c) \<and> target c' = target c \<and> shared c' = shared c \<and>
    (sent (stream c') = sent (stream c) \<or>
     (\<exists>addr k. bind_tcp env (socket_addr_new (local_interface c) 0) = Inr addr \<and>
        sent (stream c') = sent (stream c) @ [Sent (take k (as_bytes (reply_with_addr Success addr)))]))"
proof (cases "bind_tcp env (socket_addr_new (local_interface c) 0)")
  case (Inl e)
  with run show ?thesis by (auto simp: handle_bind_def bindA_def get_state_def throw_def)
next
  case (Inr addr)
  obtain q c1 where wr: "io (write_all (buf (reply_with_addr Success addr))) c = (q, c1)" by (rule prod.exhaust)
  note fr = io_write_frame [OF wr]
  have "c' = c1 \<and> (\<forall>n. p \<noteq> Done n)"
    using run wr none assms(1) Inr fr(4)
    by (auto simp: handle_bind_def bindA_def get_state_def throw_def reply_send_eq
        split: poll.splits option.splits sum.splits if_splits)
  with fr Inr show ?thesis by (auto simp: as_bytes_def)
qed

lemma bind_meets:
  assumes "expected_ip (req_addr_type req) (req_addr req) = Some ip" and run: "handle_bind env req c = (p, c')"
  shows "\<forall>addr t s from_addr. bind_tcp env (socket_addr_new (local_interface c) 0) = Inr addr \<longrightarrow> tx_ok 2 (stream c) \<longrightarrow>
      inbound env = Some (t, Inr (s, from_addr)) \<longrightarrow> t \<le> connect_budget c \<longrightarrow>
      (if sock_ip from_addr = ip
       then (p, c') = relay_conn env s (after (rx (stream c))
              [Sent (as_bytes (reply_with_addr Success addr)), Sent (as_bytes (reply_with_addr Success from_addr))] c)
       else p = Raise (Socks RuleFailure))"
proof (intro allI impI)
  fix addr t s from_addr
  assume h: "bind_tcp env (socket_addr_new (local_interface c) 0) = Inr addr" "tx_ok 2 (stream c)"
    "inbound env = Some (t, Inr (s, from_addr))" "t \<le> connect_budget c"
  let ?a = "Sent (buf (reply_with_addr Success addr))" and ?c1 = "after (rx (stream c)) [Sent (buf (reply_with_addr Success addr))] c"
  have tx: "tx_ok 1 (stream c)" "tx_ok 1 (stream ?c1)"
    using h(2) tx_ok_add [of 1 1 "stream c"] by (simp_all add: numeral_2_eq_2)
  note w = io_write [OF tx(1)] io_write [OF tx(2)]
  have b: "connect_budget ?c1 = connect_budget c" by (simp add: connect_budget_def after_def)
  show "if sock_ip from_addr = ip
       then (p, c') = relay_conn env s (after (rx (stream c))
              [Sent (as_bytes (reply_with_addr Success addr)), Sent (as_bytes (reply_with_addr Success from_addr))] c)
       else p = Raise (Socks RuleFailure)"
    using run assms(1) h(1,3,4) b
    by (auto simp: handle_bind_def get_state_def throw_def reply_send_eq as_bytes_def w)
qed

text \<open>An environment for the examples: the destination refuses, nothing else is there.\<close>

definition demo_env :: "stream network \<Rightarrow> relay_event list \<Rightarrow> net_env" where
  "demo_env net evs =
     \<lparr>resolving = unresolved, connect_net = net,
      bind_tcp = Inr, inbound = None, bind_udp = Inr, relay_events = evs, udp_events = []\<rparr>"

section \<open>Properties\<close>

text \<open>
  C15. A connection that ends, on any path, is gone from the statistics: the registry of live clients,
  the number of active connections and the count of its source address are what they were
  before it was registered.
\<close>

theorem run_client_releases:
  assumes run: "run_client env now client_addr c = (Done (), c')"
    and inv: "registry_inv (shared c)" "per_ip_inv (shared c)" "ids_left (shared c)"
  shows "map fst (client_rows (shared c')) = map fst (client_rows (shared c)) \<and>
    active (shared c') = active (shared c) \<and> conns_of_ip (shared c') = conns_of_ip (shared c)"
proof -
  obtain g st where b: "begin_client now client_addr (local_addr c) (shared c) = (g, st)"
    by (cases "begin_client now client_addr (local_addr c) (shared c)")
  let ?c = "c\<lparr>shared := st, client_id := Some (guard_id g), relay_counters := Some (guard_id g)\<rparr>"
  from run b obtain c1 where s: "serve_client env ?c = (Done (), c1)"
    and c': "c' = c1\<lparr>shared := drop_guard g (shared c1)\<rparr>"
    by (auto simp: run_client_def bindA_Done_iff modify_Done_iff)
  have view: "registry_view (shared c1) = registry_view st"
    using noted_view [OF keepsD(1) [OF serve_client_footprint s]] by simp
  note fresh = begin_client_ids(1) [OF inv(1) b] and ids = begin_client_ids(2) [OF inv(1) b]
  have "map fst (client_rows (shared c')) = removeAll (guard_id g) (map fst (client_rows st))"
    using registry_view_eqD(4) [OF view] by (simp add: c' drop_guard_def delete_keys)
  then have "map fst (client_rows (shared c')) = map fst (client_rows (shared c))"
    using ids fresh by simp
  moreover have "active (shared c') = active (shared c)"
    using registry_view_eqD(3) [OF view] b by (auto simp: c' drop_guard_def begin_client_def Let_def)
  moreover have "conns_of_ip (shared c') = conns_of_ip (shared c)"
  proof -
    note p = begin_client_per_ip [OF inv(2,3) b]
    have "per_ip_inv (shared c1)" "conns_of_ip (shared c1) = conns_of_ip st"
      using p registry_view_eqD(1,2) [OF view] by (simp_all add: per_ip_inv_def conns_of_ip_def fun_eq_iff)
    with p drop_guard_per_ip [of "shared c1" g] show ?thesis by (auto simp: c' fun_eq_iff)
  qed
  ultimately show ?thesis by simp
qed

theorem run_client_releases_witness:
  "\<exists>c'. run_client (demo_env (\<lambda>_ _. None) []) 7 (socket_addr_new (IpV4 0x7F000001) 4000)
      (connection (new_no_auth \<lparr>rx = [], rx_end = RxEof, tx_script = [], sent = []\<rparr> None) (stats_new 0 0)) = (Done (), c') \<and>
    client_rows (shared c') = [] \<and> active (shared c') = 0"
proof -
  let ?c = "connection (new_no_auth \<lparr>rx = [], rx_end = RxEof, tx_script = [], sent = []\<rparr> None) (stats_new 0 0)"
  let ?env = "demo_env (\<lambda>_ _. None) []" and ?ip = "socket_addr_new (IpV4 0x7F000001) 4000"
  have st: "shared ?c = stats_new 0 0" by (simp add: connection_def new_no_auth_def sock_client.defs)
  have "\<exists>c'. run_client ?env 7 ?ip ?c = (Done (), c')"
    by (auto simp: run_client_def bindA_def modify_def serve_client_def init_def within_handshake_def negotiate_def
        io_def map_error_def on_stream_def read_exact_def connection_def new_no_auth_def sock_client.defs
        report_error_wire tx_ok_def split: prod.splits)
  then obtain c' where run: "run_client ?env 7 ?ip ?c = (Done (), c')" ..
  have "registry_inv (shared ?c)" "per_ip_inv (shared ?c)" "ids_left (shared ?c)"
    unfolding st by (simp_all add: registry_inv_def per_ip_inv_def ids_left_def stats_new_def)
  from run_client_releases [OF run this] run st show ?thesis by (auto simp: stats_new_def)
qed

text \<open>
  C40. The lifetime is taken from the command line unchecked. With one so long that no insertion fits, a
  client that may send a \<open>CONNECT\<close> for any name that resolves and is not cached makes the server
  panic.
\<close>

theorem long_ttl_panics:
  assumes "negotiate c = (Done req, c1)" "req_command req = Connect" "req_addr_type req = DomainName"
    and "dns_cache c = Some d" "resolving env = r" "cooperative r"
    and "live (others_before r d) (asked_at r) (domain_key (req_addr req) (req_port req)) = None"
    and "lookup_host r (domain_key (req_addr req) (req_port req)) = Done addrs" "addrs \<noteq> []"
    and "answered_at r + ttl d > INSTANT_MAX"
  shows "fst (serve_client env c) = Panicked"
proof -
  let ?k = "domain_key (req_addr req) (req_port req)" and ?c = "note_stats (note_request (client_id c1) Connect) c1"
  obtain d1 where get: "dns_get (asked_at r) ?k (others_before r d) = (None, d1)"
    using dns_get_fst [of "asked_at r" ?k "others_before r d"] assms(7)
    by (cases "dns_get (asked_at r) ?k (others_before r d)") auto
  have "ttl (others_during r d1) = ttl d"
    using dns_get_config(1) [of "asked_at r" ?k "others_before r d"] get cooperative_ttl [OF assms(6)]
    by simp
  then have "dns_insert (answered_at r) ?k addrs (others_during r d1) = None"
    using assms(9,10) by (simp add: dns_insert_panics_iff)
  with get assms(8) have "addr_to_socket r DomainName (req_addr req) (req_port req) (Some d) =
      (Panicked, Some (others_during r d1))"
    by (simp add: addr_to_socket_def)
  moreover have "dns_cache ?c = Some d" using negotiate_frame [OF assms(1)] assms(4) by (simp add: note_stats_def)
  ultimately have "resolve r DomainName (req_addr req) (req_port req) ?c =
      (Panicked, ?c\<lparr>dns_cache := Some (others_during r d1)\<rparr>)"
    by (simp add: resolve_def)
  then have "fst (handle_request env req c1) = Panicked"
    using assms(2,3,5) by (simp add: handle_request_def handle_connect_def)
  then have "fst (init env c) = Panicked"
    by (cases "handle_request env req c1") (simp add: init_negotiated [OF assms(1)])
  then show ?thesis by (cases "init env c") (simp add: serve_client_def)
qed

definition demo_domain_request :: socks_req where
  "demo_domain_request = \<lparr>req_version = 5, req_command = Connect, req_addr_type = DomainName,
     req_addr = ascii ''a.example'', req_port = 80\<rparr>"

definition demo_domain_conn :: "nat \<Rightarrow> conn" where
  "demo_domain_conn lifetime = connection (set_dns_cache (dns_new lifetime 5)
     (new_no_auth \<lparr>rx = greeting_frame 5 [0] @ request_frame 0 demo_domain_request,
        rx_end = RxEof, tx_script = [], sent = []\<rparr> None)) (stats_new 0 0)"

lemma demo_domain_fields [simp]:
  "stream (demo_domain_conn n) = \<lparr>rx = greeting_frame 5 [0] @ request_frame 0 demo_domain_request,
     rx_end = RxEof, tx_script = [], sent = []\<rparr>"
  "auth_methods (demo_domain_conn n) = [0]" "dns_cache (demo_domain_conn n) = Some (dns_new n 5)"
  by (simp_all add: demo_domain_conn_def connection_def new_no_auth_def set_dns_cache_def sock_client.defs)

lemma demo_domain_negotiated:
  "negotiate (demo_domain_conn n) = (Done demo_domain_request,
     greeted SOCKS_VERSION 1 (after [] [Sent [SOCKS_VERSION, 0]] (demo_domain_conn n)))"
proof -
  have "login_ok (demo_domain_conn n) [0] [] [Sent [SOCKS_VERSION, 0]]" by (simp add: login_ok_def)
  then show ?thesis
    unfolding negotiate_Done_iff
    by (intro exI [of _ "[0]"] exI [of _ "[]"] exI [of _ 0] exI [of _ "[Sent [SOCKS_VERSION, 0]]"])
      (simp add: tx_ok_def SOCKS_VERSION_def demo_domain_request_def wf_request_def ascii_def)
qed

theorem long_ttl_panics_witness:
  "fst (serve_client ((demo_env (\<lambda>_ _. None) [])\<lparr>resolving := unresolved\<lparr>lookup_host := (\<lambda>_. Done [SocketAddrV4 1 80])\<rparr>\<rparr>)
      (demo_domain_conn (unat (- 1 :: u64) * 10 ^ 9))) = Panicked"
proof (rule long_ttl_panics [OF demo_domain_negotiated, where addrs = "[SocketAddrV4 1 80]"])
  let ?d = "dns_new (unat (- 1 :: u64) * 10 ^ 9) 5"
  let ?r = "unresolved\<lparr>lookup_host := (\<lambda>_. Done [SocketAddrV4 1 80])\<rparr>"
  show "dns_cache (demo_domain_conn (unat (- 1 :: u64) * 10 ^ 9)) = Some ?d" by (rule demo_domain_fields(3))
  show "resolving ((demo_env (\<lambda>_ _. None) [])\<lparr>resolving := ?r\<rparr>) = ?r" by simp
  show "cooperative ?r" by (simp add: cooperative_def unresolved_def)
  have "unat (- 1 :: u64) = 2 ^ 64 - 1" by (simp add: unsigned_minus_1_eq_mask mask_eq_exp_minus_1)
  then show "answered_at ?r + ttl ?d > INSTANT_MAX" by (simp add: INSTANT_MAX_def dns_new_def)
  show "live (others_before ?r ?d) t k = None" for t k by (simp add: live_def dns_new_def unresolved_def)
qed (simp_all add: demo_domain_request_def)

text \<open>
  C28. A \<open>CONNECT\<close> that reaches no destination is answered once, after the negotiation, with the code
  of its cause: a name that does not resolve and an unreachable host give 4, a refusal 5, an
  unreachable network 3, an exhausted time budget 6, anything else 1; then the stream is shut down.
\<close>

theorem connect_failure_answered:
  assumes "negotiate c = (Done req, c1)" "req_command req = Connect" "\<not> replied c"
    and "connect_reply env c1 req = Some code" "tx_ok 2 (stream c1)"
  shows "\<exists>c'. serve_client env c = (Done (), c') \<and>
    sent (stream c') = sent (stream c1) @ [Sent [5, code_byte code, 0, 1, 0, 0, 0, 0, 0, 0], Shut] \<and>
    target c' = target c1"
proof -
  let ?c = "note_stats (note_request (client_id c1) Connect) c1"
  have "connect_reply env ?c req = Some code" using assms(4) by simp
  from handle_connect_fails [OF this] obtain e d
    where e: "handle_connect env req ?c = (Raise e, ?c\<lparr>dns_cache := d\<rparr>)" "code_of_error e = code" by blast
  have "init env c = (Raise e, ?c\<lparr>dns_cache := d\<rparr>)"
    using init_negotiated [OF assms(1)] assms(2) e(1) by (simp add: handle_request_def)
  moreover have "tx_ok 2 (stream (?c\<lparr>dns_cache := d\<rparr>))" "\<not> replied (?c\<lparr>dns_cache := d\<rparr>)"
    using assms(3,5) negotiate_frame [OF assms(1)] by (simp_all add: note_stats_def)
  ultimately have "serve_client env c =
      (Done (), after (rx (stream c1)) (failure_events False code) (counted e (?c\<lparr>dns_cache := d\<rparr>)))"
    using e(2) by (simp add: serve_client_error) (simp add: note_stats_def)
  then show ?thesis by (simp add: after_def counted_def failure_events_def note_stats_def)
qed

theorem connect_failure_answered_witness:
  "\<exists>c'. serve_client (demo_env (\<lambda>_ _. Some (1, Inl Ek_ConnectionRefused)) []) (demo_conn (ascii ''secret'')) = (Done (), c') \<and>
    sent (stream c') = [Sent [SOCKS_VERSION, 2], Sent [1, 0], Sent [5, 5, 0, 1, 0, 0, 0, 0, 0, 0], Shut]"
proof -
  let ?env = "demo_env (\<lambda>_ _. Some (1, Inl Ek_ConnectionRefused)) []" and ?c = "demo_conn (ascii ''secret'')"
  let ?c1 = "greeted SOCKS_VERSION 2 (after [] [Sent [SOCKS_VERSION, 2], Sent [1, 0]] ?c)"
  have "connect_budget ?c1 = 30000" "\<not> replied ?c"
    by (simp_all add: connect_budget_def demo_conn_def connection_def sock_client_new_def greeted_def after_def
        with_credential_width_def sock_client.defs DEFAULT_CONNECT_TIMEOUT_def)
  moreover from this(1) have "connect_reply ?env ?c1 demo_request = Some ConnectionRefused"
    by (simp add: connect_reply_def demo_request_def demo_env_def connect_within_def connect_any_def channel_def
        attempt_def CONNECT_ATTEMPT_DELAY_def)
  moreover have "req_command demo_request = Connect" by (simp add: demo_request_def)
  moreover have st: "tx_ok 2 (stream ?c1)" "sent (stream ?c1) = [Sent [SOCKS_VERSION, 2], Sent [1, 0]]"
    by (simp_all add: tx_ok_def after_def)
  ultimately obtain c' where "serve_client ?env ?c = (Done (), c')"
    "sent (stream c') = sent (stream ?c1) @ [Sent [5, code_byte ConnectionRefused, 0, 1, 0, 0, 0, 0, 0, 0], Shut]"
    using connect_failure_answered [OF demo_negotiated] by blast
  with st show ?thesis by simp
qed

text \<open>
  A negotiation that does not finish within its budget is answered with \<open>TTL expired\<close> and counted.
\<close>

lemma handshake_timeout_answered:
  assumes "negotiate c = (Pending, c1)" "\<not> replied c1" "tx_ok 2 (stream c1)"
  shows "\<exists>c'. serve_client env c = (Done (), c') \<and>
    sent (stream c') = sent (stream c1) @ [Sent [5, 6, 0, 1, 0, 0, 0, 0, 0, 0], Shut] \<and>
    (has_stats c1 \<longrightarrow> handshake_timeouts (shared c') = handshake_timeouts (shared c1) + 1)"
proof -
  let ?c = "note_stats note_handshake_timeout c1"
  have "tx_ok 2 (stream ?c)" "\<not> replied ?c" using assms by (simp_all add: note_stats_def)
  with serve_client_error [OF init_negotiation_failed(2) [OF assms(1)]] show ?thesis
    by (simp add: failure_events_def after_def counted_def note_stats_def note_handshake_timeout_def note_error_def)
qed

text \<open>
  C10. End to end, a proxied connection is transparent: after a successful \<open>CONNECT\<close> whose relay ends,
  the target has received exactly the bytes the client sent after its request, and the client
  exactly the negotiation answers, one success reply and the bytes of the target, in order.
\<close>

theorem connect_transparent:
  assumes "negotiate c = (Done req, c1)" "req_command req = Connect"
    and "addr_to_socket (resolving env)
      (req_addr_type req) (req_addr req) (req_port req) (dns_cache c1) = (Done addrs, d)"
    and "connect_within (connect_budget c1) (connect_net env) addrs = Some (Inr t)"
    and "tx_ok 1 (stream c1)"
    and "copy_bidirectional_counted (relay_events env)
      (stream (after (rx (stream c1)) [Sent [5, 0, 0, 1, 0, 0, 0, 0, 0, 0]] c1)) t (has_stats c1)
      (relay_counters c1 \<noteq> None) = (Done (u, n), r)"
  shows "\<exists>c' t' cs ds ta tb. init env c = (Done (), c') \<and> target c' = Some t' \<and>
    sent t' = sent t @ map Sent cs @ tb \<and> concat cs = rx (stream c1) \<and>
    sent (stream c') = sent (stream c1) @ [Sent [5, 0, 0, 1, 0, 0, 0, 0, 0, 0]] @ map Sent ds @ ta \<and>
    concat ds = rx t \<and> set (ta @ tb) \<subseteq> {Shut}"
proof -
  let ?c = "(after (rx (stream c1)) [Sent [5, 0, 0, 1, 0, 0, 0, 0, 0, 0]]
        (note_stats (note_request (client_id c1) Connect) c1))\<lparr>dns_cache := d\<rparr>"
  have same: "stream ?c = stream (after (rx (stream c1)) [Sent [5, 0, 0, 1, 0, 0, 0, 0, 0, 0]] c1)"
    "has_stats ?c = has_stats c1" "relay_counters ?c = relay_counters c1"
    by (simp_all add: after_def note_stats_def)
  have run: "init env c = bindA (relay_conn env t) (\<lambda>_. ret ()) ?c"
    by (rule init_connected [OF assms(1-5)])
  obtain m c' where c': "relay_conn env t ?c = (Done m, c')" "stream c' = side_a r" "target c' = Some (side_b r)"
    using assms(6) same unfolding relay_conn_def by (auto simp: Let_def note_stats_def)
  from relay_Done [OF assms(6)] obtain cs ds ta tb where
    "sent (side_b r) = sent t @ map Sent cs @ tb" "concat cs = rx (stream c1)" "tb \<in> {[], [Shut]}"
    "sent (side_a r) = (sent (stream c1) @ [Sent [5, 0, 0, 1, 0, 0, 0, 0, 0, 0]]) @ map Sent ds @ ta"
    "concat ds = rx t" "ta \<in> {[], [Shut]}"
    by (auto simp: after_def)
  moreover have "init env c = (Done (), c')" using run c'(1) by (simp add: bindA_def ret_def)
  ultimately show ?thesis using c'(2,3)
    by (intro exI [of _ c'] exI [of _ "side_b r"] exI [of _ cs] exI [of _ ds] exI [of _ ta] exI [of _ tb]) auto
qed

text \<open>The examples of a \<open>CONNECT\<close> that reaches its target: the state before the relay.\<close>

definition demo_net :: "stream \<Rightarrow> stream network" where
  "demo_net t = (\<lambda>_ _. Some (1, Inr t))"

definition demo_ready :: conn where
  "demo_ready = greeted SOCKS_VERSION 2
     (after [] [Sent [SOCKS_VERSION, 2], Sent [1, 0]] (demo_conn (ascii ''secret'')))"

lemma demo_ready_fields [simp]:
  "has_stats demo_ready = False" "relay_counters demo_ready = None" "tx_ok n (stream demo_ready)"
  "connect_budget demo_ready = 30000" "rx (stream demo_ready) = []"
  "sent (stream demo_ready) = [Sent [SOCKS_VERSION, 2], Sent [1, 0]]"
  "stream (after r es demo_ready) =
     \<lparr>rx = r, rx_end = RxEof, tx_script = [], sent = Sent [SOCKS_VERSION, 2] # Sent [1, 0] # es\<rparr>"
  "req_command demo_request = Connect" "\<not> replied (demo_conn pw)"
  by (simp_all add: demo_ready_def demo_conn_def connection_def sock_client_new_def greeted_def after_def tx_ok_def
      with_credential_width_def sock_client.defs connect_budget_def DEFAULT_CONNECT_TIMEOUT_def demo_request_def)

lemma demo_resolved:
  "\<exists>d. addr_to_socket (resolving (demo_env net evs))
      (req_addr_type demo_request) (req_addr demo_request) (req_port demo_request) (dns_cache demo_ready) =
    (Done [socket_addr_new (IpV4 0x7F000001) 80], d)"
  by (simp add: demo_request_def demo_env_def from_be_bytes_def)

lemma demo_reached:
  "connect_within (connect_budget demo_ready) (connect_net (demo_env (demo_net t) evs)) [a] = Some (Inr t)"
  by (simp add: demo_env_def demo_net_def connect_within_def connect_any_def channel_def attempt_def
      CONNECT_ATTEMPT_DELAY_def)

theorem connect_transparent_witness:
  "\<exists>c' ds ta. init (demo_env (demo_net \<lparr>rx = ascii ''hi'', rx_end = RxEof, tx_script = [], sent = []\<rparr>)
        [ReadB 9, ReadA 9, ReadB 9]) (demo_conn (ascii ''secret'')) = (Done (), c') \<and>
    sent (stream c') = [Sent [5, 2], Sent [1, 0], Sent [5, 0, 0, 1, 0, 0, 0, 0, 0, 0]] @ map Sent ds @ ta \<and>
    concat ds = ascii ''hi'' \<and> set ta \<subseteq> {Shut}"
proof -
  define t where "t = \<lparr>rx = ascii ''hi'', rx_end = RxEof, tx_script = [], sent = []\<rparr>"
  let ?evs = "[ReadB 9, ReadA 9, ReadB 9]"
  let ?env = "demo_env (demo_net t) ?evs"
  have neg: "negotiate (demo_conn (ascii ''secret'')) = (Done demo_request, demo_ready)"
    using demo_negotiated by (simp add: demo_ready_def)
  obtain d where d: "addr_to_socket (resolving ?env)
      (req_addr_type demo_request) (req_addr demo_request) (req_port demo_request) (dns_cache demo_ready) =
    (Done [socket_addr_new (IpV4 0x7F000001) 80], d)" using demo_resolved by blast
  obtain u n r where "copy_bidirectional_counted (relay_events ?env)
      (stream (after (rx (stream demo_ready)) [Sent [5, 0, 0, 1, 0, 0, 0, 0, 0, 0]] demo_ready)) t
      (has_stats demo_ready) (relay_counters demo_ready \<noteq> None) = (Done (u, n), r)"
    by (simp add: t_def demo_env_def copy_bidirectional_counted_def bindA_def relay_start_def relay_arm_def
        read_some_def write_all_def flush_stream_def shutdown_stream_def next_tx_def Let_def
        RELAY_BUF_SIZE_def ascii_def)
  from connect_transparent [OF neg demo_ready_fields(8) d demo_reached demo_ready_fields(3) this] obtain c' ds ta
    where "init ?env (demo_conn (ascii ''secret'')) = (Done (), c')" "concat ds = rx t" "set ta \<subseteq> {Shut}"
      "sent (stream c') = sent (stream demo_ready) @ [Sent [5, 0, 0, 1, 0, 0, 0, 0, 0, 0]] @ map Sent ds @ ta"
    by auto
  then show ?thesis
    by (intro exI [of _ c'] exI [of _ ds] exI [of _ ta]) (simp add: t_def SOCKS_VERSION_def)
qed

text \<open>
  C39. After a successful \<open>CONNECT\<close>, a relay that ends with an I/O error (other than "not connected") is
  treated like a failed request: the ten bytes of a SOCKS failure reply are appended to the data
  already relayed to the client.
\<close>

theorem relay_error_corrupts_stream:
  assumes "negotiate c = (Done req, c1)" "req_command req = Connect" "\<not> replied c"
    and "addr_to_socket (resolving env)
      (req_addr_type req) (req_addr req) (req_port req) (dns_cache c1) = (Done addrs, d)"
    and "connect_within (connect_budget c1) (connect_net env) addrs = Some (Inr t)"
    and "tx_ok 1 (stream c1)"
    and "copy_bidirectional_counted (relay_events env)
      (stream (after (rx (stream c1)) [Sent [5, 0, 0, 1, 0, 0, 0, 0, 0, 0]] c1)) t (has_stats c1)
      (relay_counters c1 \<noteq> None) = (Raise e, r)"
    and "e \<noteq> Ek_NotConnected" "tx_ok 2 (side_a r)"
  shows "\<exists>c'. serve_client env c = (Done (), c') \<and>
    sent (stream c') = sent (side_a r) @ [Sent [5, 1, 0, 1, 0, 0, 0, 0, 0, 0], Shut]"
proof -
  let ?c = "(after (rx (stream c1)) [Sent [5, 0, 0, 1, 0, 0, 0, 0, 0, 0]]
        (note_stats (note_request (client_id c1) Connect) c1))\<lparr>dns_cache := d\<rparr>"
  have same: "stream ?c = stream (after (rx (stream c1)) [Sent [5, 0, 0, 1, 0, 0, 0, 0, 0, 0]] c1)"
    "has_stats ?c = has_stats c1" "relay_counters ?c = relay_counters c1" "\<not> replied ?c"
    using negotiate_frame [OF assms(1)] assms(3) by (simp_all add: after_def note_stats_def)
  obtain c2 where c2: "relay_conn env t ?c = (Raise (Io e), c2)" "stream c2 = side_a r" "replied c2 = replied ?c"
    using assms(7,8) same unfolding relay_conn_def by (auto simp: Let_def)
  have "init env c = (Raise (Io e), c2)"
    using init_connected [OF assms(1,2,4,5,6)] c2(1) by (simp add: bindA_def)
  from serve_client_error [OF this] c2(2,3) same(4) assms(9) show ?thesis
    by (simp add: failure_events_def after_def counted_def)
qed

theorem relay_error_corrupts_stream_witness:
  "\<exists>c'. serve_client (demo_env (demo_net \<lparr>rx = [7], rx_end = RxErr Ek_ConnectionReset, tx_script = [], sent = []\<rparr>)
        [ReadB 9, ReadB 9]) (demo_conn (ascii ''secret'')) = (Done (), c') \<and>
    wire_of (sent (stream c')) = [5, 2, 1, 0] @ [5, 0, 0, 1, 0, 0, 0, 0, 0, 0] @ [7] @ [5, 1, 0, 1, 0, 0, 0, 0, 0, 0]"
proof -
  define t where "t = \<lparr>rx = [7], rx_end = RxErr Ek_ConnectionReset, tx_script = [], sent = []\<rparr>"
  let ?env = "demo_env (demo_net t) [ReadB 9, ReadB 9]"
  have neg: "negotiate (demo_conn (ascii ''secret'')) = (Done demo_request, demo_ready)"
    using demo_negotiated by (simp add: demo_ready_def)
  obtain d where d: "addr_to_socket (resolving ?env)
      (req_addr_type demo_request) (req_addr demo_request) (req_port demo_request) (dns_cache demo_ready) =
    (Done [socket_addr_new (IpV4 0x7F000001) 80], d)" using demo_resolved by blast
  obtain r where r: "copy_bidirectional_counted (relay_events ?env)
      (stream (after (rx (stream demo_ready)) [Sent [5, 0, 0, 1, 0, 0, 0, 0, 0, 0]] demo_ready)) t
      (has_stats demo_ready) (relay_counters demo_ready \<noteq> None) = (Raise Ek_ConnectionReset, r)"
    "tx_ok 2 (side_a r)"
    "sent (side_a r) = [Sent [5, 2], Sent [1, 0], Sent [5, 0, 0, 1, 0, 0, 0, 0, 0, 0], Sent [7]]"
    by (simp add: t_def demo_env_def copy_bidirectional_counted_def bindA_def relay_start_def relay_arm_def
        read_some_def write_all_def flush_stream_def shutdown_stream_def next_tx_def Let_def
        RELAY_BUF_SIZE_def tx_ok_def SOCKS_VERSION_def)
  from relay_error_corrupts_stream [OF neg demo_ready_fields(8,9) d demo_reached demo_ready_fields(3) r(1) _ r(2)]
  obtain c' where "serve_client ?env (demo_conn (ascii ''secret'')) = (Done (), c')"
    "sent (stream c') = sent (side_a r) @ [Sent [5, 1, 0, 1, 0, 0, 0, 0, 0, 0], Shut]" by auto
  then show ?thesis by (intro exI [of _ c']) (simp add: t_def r(3))
qed

text \<open>
  C30. A \<open>BIND\<close> request that names a peer relays for that peer only, whatever comes of it. If no
  connection from the named address arrives within the budget, the handler does not succeed, and all
  it has done is to send (a part of) the first reply: it has read nothing more from the client, kept
  no inbound connection and counted nothing; a connection from elsewhere is refused with a rule
  failure. If the named peer does arrive, the client gets both replies and is relayed to it.
\<close>

theorem bind_peer_checked:
  assumes "expected_ip (req_addr_type req) (req_addr req) = Some ip" and "handle_bind env req c = (p, c')"
  shows "((\<nexists>t s from_addr. inbound env = Some (t, Inr (s, from_addr)) \<and> t \<le> connect_budget c \<and> sock_ip from_addr = ip) \<longrightarrow>
      (\<forall>n. p \<noteq> Done n) \<and> rx (stream c') = rx (stream c) \<and> target c' = target c \<and> shared c' = shared c \<and>
      (sent (stream c') = sent (stream c) \<or>
       (\<exists>addr k. bind_tcp env (socket_addr_new (local_interface c) 0) = Inr addr \<and>
          sent (stream c') = sent (stream c) @ [Sent (take k (as_bytes (reply_with_addr Success addr)))]))) \<and>
    (\<forall>addr t s from_addr. bind_tcp env (socket_addr_new (local_interface c) 0) = Inr addr \<longrightarrow> tx_ok 2 (stream c) \<longrightarrow>
      inbound env = Some (t, Inr (s, from_addr)) \<longrightarrow> t \<le> connect_budget c \<longrightarrow>
      (if sock_ip from_addr = ip
       then (p, c') = relay_conn env s (after (rx (stream c))
              [Sent (as_bytes (reply_with_addr Success addr)), Sent (as_bytes (reply_with_addr Success from_addr))] c)
       else p = Raise (Socks RuleFailure)))"
  using bind_refused [OF assms] bind_meets [OF assms] by blast

theorem bind_peer_checked_witness:
  "\<exists>p c'. handle_bind ((demo_env (\<lambda>_ _. None) [])\<lparr>inbound :=
        Some (5, Inr (\<lparr>rx = [1], rx_end = RxEof, tx_script = [], sent = []\<rparr>, socket_addr_new (IpV4 0x7F000002) 9))\<rparr>)
      demo_request demo_ready = (p, c') \<and> p = Raise (Socks RuleFailure) \<and> target c' = target demo_ready"
proof -
  let ?env = "(demo_env (\<lambda>_ _. None) [])\<lparr>inbound :=
        Some (5, Inr (\<lparr>rx = [1], rx_end = RxEof, tx_script = [], sent = []\<rparr>, socket_addr_new (IpV4 0x7F000002) 9))\<rparr>"
  have ip: "expected_ip (req_addr_type demo_request) (req_addr demo_request) = Some (IpV4 0x7F000001)"
    by (simp add: demo_request_def expected_ip_def from_be_bytes_def)
  obtain p c' where run: "handle_bind ?env demo_request demo_ready = (p, c')" by (rule prod.exhaust)
  from bind_peer_checked [OF ip run] run show ?thesis by (auto simp: demo_env_def)
qed

text \<open>
  A login rejected during negotiation is not answered again by the error path: after the two-byte
  failure only a second shutdown follows. The statistics still count an error reply for it.
\<close>

lemma rejected_login_answered_once:
  assumes "rx (stream c) = greeting_frame SOCKS_VERSION ms @ userpass_frame u @ rest" "length ms < 256"
    and "auth_byte UserPass \<in> set ms" "auth_byte UserPass \<in> set (auth_methods c)" "wf_userpass u"
    and "\<not> (up_version u = 1 \<and> client_authed c (up_username u) (up_password u))"
    and "tx_ok 5 (stream c)"
  shows "\<exists>c'. serve_client env c = (Done (), c') \<and>
    sent (stream c') = sent (stream c) @ [Sent [5, 2], Sent [1, 1], Shut, Shut] \<and>
    errors_by_code (shared c') = bump 1 (errors_by_code (shared c))"
proof -
  let ?c = "(greeted SOCKS_VERSION (of_nat (length ms))
      (after rest [Sent [5, 2], Sent [1, 1], Shut] (note_stats note_auth_failure c)))\<lparr>replied := True\<rparr>"
  have tx: "tx_ok 3 (stream c)" "tx_ok 2 ((stream c)\<lparr>tx_script := drop 3 (tx_script (stream c))\<rparr>)"
    using assms(7) tx_ok_add [of 3 2 "stream c"] by simp_all
  have "negotiate c = (Raise (Socks Failure), ?c)"
    by (rule negotiate_rejected [OF assms(1-6) tx(1)])
  moreover have "tx_ok 2 (stream ?c)" using tx(2) by (simp add: note_stats_after numeral_3_eq_3)
  ultimately show ?thesis
    by (simp add: serve_client_error [OF init_negotiation_failed(1)])
      (simp add: failure_events_def counted_def after_def greeted_def note_stats_def note_error_def note_auth_failure_def)
qed

text \<open>
  A client with no acceptable method, in contrast, is answered again: \<open>replied\<close> is not set, so on a
  stream that still takes writes after its shutdown the ten-byte reply follows the two-byte answer
  (on a TCP stream that write fails, and the failure is only logged).
\<close>

lemma no_methods_answered_twice:
  assumes "rx (stream c) = greeting_frame SOCKS_VERSION ms @ rest" "length ms < 256"
    and "auth_byte UserPass \<notin> set ms \<inter> set (auth_methods c)"
    and "auth_byte NoAuth \<notin> set ms \<inter> set (auth_methods c)" "tx_ok 4 (stream c)" "\<not> replied c"
  shows "\<exists>c'. serve_client env c = (Done (), c') \<and>
    sent (stream c') = sent (stream c) @
      [Sent [5, 255], Shut, Sent [5, 1, 0, 1, 0, 0, 0, 0, 0, 0], Shut]"
proof -
  let ?c = "greeted SOCKS_VERSION (of_nat (length ms))
      (after rest [Sent [5, 255], Shut] (note_stats note_auth_failure c))"
  have tx: "tx_ok 2 (stream c)" "tx_ok 2 ((stream c)\<lparr>tx_script := drop 2 (tx_script (stream c))\<rparr>)"
    using assms(5) tx_ok_add [of 2 2 "stream c"] by simp_all
  have "negotiate c = (Raise (Socks Failure), ?c)"
    by (rule negotiate_no_methods [OF assms(1-4) tx(1)])
  moreover have "tx_ok 2 (stream ?c)"
    using tx(2) by (simp add: note_stats_after flip: numeral_2_eq_2)
  moreover have "\<not> replied ?c" using assms(6) by (simp add: greeted_def after_def note_stats_def)
  ultimately show ?thesis
    by (simp add: serve_client_error [OF init_negotiation_failed(1)])
      (simp add: failure_events_def counted_def after_def greeted_def note_stats_def)
qed

end
