(* ===== verification/Server.thy ===== *)
theory Server
  imports Limiter Client
begin

text \<open>
  The server around the connections: binding (\<open>bind_all\<close>, \<open>bind_listeners\<close>, \<open>bind_listener\<close>), the
  two front ends \<open>Merino\<close> (\<open>src/lib.rs\<close>) and \<open>SocksServer\<close> (\<open>src/actors.rs\<close>) with their setters, and
  the accept loops they share, with the tasks these spawn.

  The socket calls of the operating system are the record \<open>socket_api\<close>, the semaphore of the tokio
  crate the record \<open>semaphore_api\<close>; \<open>semaphore_laws\<close> states what its documentation promises.
  The server as a whole is a step relation: accept loops and connection tasks interleave freely. An
  iteration of an accept loop is two steps, because it waits twice: for a permit and for a
  connection. What follows the wait is one step; it touches the limiter, the counters and the permits
  one after the other, and each of these is only changed under its own lock.
\<close>

section \<open>Binding\<close>

text \<open>A listening socket; \<open>local_addr()\<close> asks the system and may fail.\<close>

record tcp_listener =
  listener_addr :: "error_kind + socket_addr"

record socket_api =
  std_bind :: "socket_addr \<Rightarrow> error_kind + tcp_listener"
  set_nonblocking :: "tcp_listener \<Rightarrow> error_kind + tcp_listener"
  from_std :: "tcp_listener \<Rightarrow> error_kind + tcp_listener"

definition bind_listener :: "socket_api \<Rightarrow> socket_addr \<Rightarrow> error_kind + tcp_listener" where
  "bind_listener api addr =
     bindE (std_bind api addr) (\<lambda>listener. bindE (set_nonblocking api listener) (from_std api))"

fun bind_each ::
  "socket_api \<Rightarrow> socket_addr list \<Rightarrow> tcp_listener list \<Rightarrow> error_kind option \<Rightarrow>
   tcp_listener list \<times> error_kind option" where
  "bind_each api [] bound last_err = (bound, last_err)"
| "bind_each api (addr # addrs) bound last_err =
     (case bind_listener api addr of
        Inr listener \<Rightarrow> bind_each api addrs (bound @ [listener]) last_err
      | Inl e \<Rightarrow> bind_each api addrs bound (Some e))"

definition bind_listeners :: "socket_api \<Rightarrow> socket_addr list \<Rightarrow> error_kind + tcp_listener list" where
  "bind_listeners api addrs =
     (case bind_each api addrs [] None of (bound, last_err) \<Rightarrow>
        if bound \<noteq> [] then Inr bound
        else Inl (case last_err of Some e \<Rightarrow> e | None \<Rightarrow> Ek_AddrNotAvailable))"

text \<open>\<open>filter(|addr| seen.insert(*addr))\<close>: the first occurrence of each address.\<close>

fun unseen :: "'a set \<Rightarrow> 'a list \<Rightarrow> 'a list" where
  "unseen seen [] = []"
| "unseen seen (x # xs) = (if x \<in> seen then unseen seen xs else x # unseen (insert x seen) xs)"

type_synonym host_lookup = "bytes \<Rightarrow> u16 \<Rightarrow> error_kind + socket_addr list"

definition bind_all ::
  "host_lookup \<Rightarrow> socket_api \<Rightarrow> bytes \<Rightarrow> u16 \<Rightarrow> error_kind + tcp_listener list" where
  "bind_all lookup api ip port =
     bindE (lookup ip port) (\<lambda>found.
       let addrs = unseen {} found in
       map_sum (\<lambda>e. if addrs = [] then Ek_AddrNotAvailable else e) id (bind_listeners api addrs))"

section \<open>Configuration\<close>

definition DEFAULT_MAX_CONNECTIONS :: usize where
  "DEFAULT_MAX_CONNECTIONS = 1024"

record merino =
  srv_listeners :: "tcp_listener list"
  srv_users :: "user list"
  srv_auth_methods :: bytes
  srv_timeout :: "nat option"
  max_connections :: usize
  srv_dns_cache :: "dns_cache option"
  per_ip :: "per_ip_limiter option"
  srv_stats :: stats

definition merino_new ::
  "host_lookup \<Rightarrow> socket_api \<Rightarrow> nat \<Rightarrow> nat \<Rightarrow> u16 \<Rightarrow> bytes \<Rightarrow> bytes \<Rightarrow> user list \<Rightarrow> nat option \<Rightarrow>
   error_kind + merino" where
  "merino_new lookup api now unix port ip methods users tmo =
     bindE (bind_all lookup api ip port) (\<lambda>bound.
       Inr \<lparr>srv_listeners = bound, srv_users = users, srv_auth_methods = methods, srv_timeout = tmo,
            max_connections = DEFAULT_MAX_CONNECTIONS, srv_dns_cache = None, per_ip = None,
            srv_stats = stats_new now unix\<rparr>)"

definition merino_set_stats :: "stats \<Rightarrow> merino \<Rightarrow> merino" where
  "merino_set_stats st m = m\<lparr>srv_stats := st\<rparr>"

definition merino_set_max_connections :: "usize \<Rightarrow> merino \<Rightarrow> merino" where
  "merino_set_max_connections n m = m\<lparr>max_connections := max n 1\<rparr>"

definition merino_set_dns_cache :: "nat \<Rightarrow> usize \<Rightarrow> merino \<Rightarrow> merino" where
  "merino_set_dns_cache lifetime cap m =
     m\<lparr>srv_stats := register_dns (srv_stats m), srv_dns_cache := Some (dns_new lifetime (unat cap))\<rparr>"

definition merino_set_max_connections_per_ip :: "usize \<Rightarrow> merino \<Rightarrow> merino" where
  "merino_set_max_connections_per_ip n m =
     m\<lparr>per_ip := (if n > 0 then Some (limiter_new n) else None)\<rparr>"

definition merino_local_addr :: "merino \<Rightarrow> error_kind + socket_addr" where
  "merino_local_addr m =
     (case srv_listeners m of [] \<Rightarrow> Inl Ek_AddrNotAvailable | l # _ \<Rightarrow> listener_addr l)"

text \<open>\<open>iter().map(TcpListener::local_addr).collect()\<close>: the first error, or all addresses.\<close>

fun collect_addrs :: "tcp_listener list \<Rightarrow> error_kind + socket_addr list" where
  "collect_addrs [] = Inr []"
| "collect_addrs (l # ls) = bindE (listener_addr l) (\<lambda>a. bindE (collect_addrs ls) (\<lambda>as. Inr (a # as)))"

definition merino_local_addrs :: "merino \<Rightarrow> error_kind + socket_addr list" where
  "merino_local_addrs m = collect_addrs (srv_listeners m)"

record socks_server =
  act_listeners :: "tcp_listener list"
  bound_addrs :: "socket_addr list"
  act_users :: "user list"
  act_auth_methods :: bytes
  act_timeout :: "nat option"
  act_max_connections :: usize
  act_dns_cache :: "dns_cache option"
  act_per_ip :: "per_ip_limiter option"
  act_stats :: stats

definition socks_bind ::
  "host_lookup \<Rightarrow> socket_api \<Rightarrow> nat \<Rightarrow> nat \<Rightarrow> u16 \<Rightarrow> bytes \<Rightarrow> bytes \<Rightarrow> user list \<Rightarrow> nat option \<Rightarrow>
   error_kind + socks_server" where
  "socks_bind lookup api now unix port ip methods users tmo =
     bindE (bind_all lookup api ip port) (\<lambda>bound.
     bindE (collect_addrs bound) (\<lambda>addrs.
       Inr \<lparr>act_listeners = bound, bound_addrs = addrs, act_users = users, act_auth_methods = methods,
            act_timeout = tmo, act_max_connections = DEFAULT_MAX_CONNECTIONS, act_dns_cache = None,
            act_per_ip = None, act_stats = stats_new now unix\<rparr>))"

definition socks_set_stats :: "stats \<Rightarrow> socks_server \<Rightarrow> socks_server" where
  "socks_set_stats st m = m\<lparr>act_stats := st\<rparr>"

definition socks_set_max_connections :: "usize \<Rightarrow> socks_server \<Rightarrow> socks_server" where
  "socks_set_max_connections n m = m\<lparr>act_max_connections := max n 1\<rparr>"

definition socks_set_dns_cache :: "nat \<Rightarrow> usize \<Rightarrow> socks_server \<Rightarrow> socks_server" where
  "socks_set_dns_cache lifetime cap m =
     m\<lparr>act_stats := register_dns (act_stats m), act_dns_cache := Some (dns_new lifetime (unat cap))\<rparr>"

definition socks_set_max_connections_per_ip :: "usize \<Rightarrow> socks_server \<Rightarrow> socks_server" where
  "socks_set_max_connections_per_ip n m =
     m\<lparr>act_per_ip := (if n > 0 then Some (limiter_new n) else None)\<rparr>"

definition socks_local_addr :: "socks_server \<Rightarrow> socket_addr option" where
  "socks_local_addr m = (case bound_addrs m of [] \<Rightarrow> None | a # _ \<Rightarrow> Some a)"

definition socks_local_addrs :: "socks_server \<Rightarrow> socket_addr list" where
  "socks_local_addrs m = bound_addrs m"

text \<open>The setters of both front ends, as data.\<close>

datatype setting =
    SetStats stats
  | SetMaxConnections usize
  | SetDnsCache nat usize
  | SetMaxConnectionsPerIp usize

fun merino_set :: "setting \<Rightarrow> merino \<Rightarrow> merino" where
  "merino_set (SetStats st) = merino_set_stats st"
| "merino_set (SetMaxConnections n) = merino_set_max_connections n"
| "merino_set (SetDnsCache lifetime cap) = merino_set_dns_cache lifetime cap"
| "merino_set (SetMaxConnectionsPerIp n) = merino_set_max_connections_per_ip n"

fun socks_set :: "setting \<Rightarrow> socks_server \<Rightarrow> socks_server" where
  "socks_set (SetStats st) = socks_set_stats st"
| "socks_set (SetMaxConnections n) = socks_set_max_connections n"
| "socks_set (SetDnsCache lifetime cap) = socks_set_dns_cache lifetime cap"
| "socks_set (SetMaxConnectionsPerIp n) = socks_set_max_connections_per_ip n"

section \<open>Connections as tasks\<close>

text \<open>
  What an accepted connection owns: its permit, its slot when a per-source cap is set, and, while
  \<open>run_client\<close> runs, the guard of its registration. \<open>Ended\<close>: \<open>run_client\<close> is over, what is left is
  dropped (the task drops the slot before the permit, the actor the permit before the slot).

  \<open>run_client\<close> registers with the statistics it is handed. With those of the server the connection is
  \<open>Spawned\<close> and then \<open>Running\<close> with a guard of them; with an instance of its own it is \<open>SpawnedApart\<close>
  and \<open>RunningApart\<close>: the server's statistics never list it, although the client keeps making its
  notes there (\<open>SOCKClient\<close> has a handle of its own).
\<close>

datatype permit = Permit

datatype stats_handle = ServerStats | OwnStats

datatype task_phase =
    Spawned sock_client
  | Running active_guard
  | SpawnedApart sock_client
  | RunningApart
  | Ended

fun start_run :: "stats_handle \<Rightarrow> sock_client \<Rightarrow> task_phase" where
  "start_run ServerStats client = Spawned client"
| "start_run OwnStats client = SpawnedApart client"

fun in_run :: "task_phase \<Rightarrow> bool" where
  "in_run (Running g) \<longleftrightarrow> True"
| "in_run RunningApart \<longleftrightarrow> True"
| "in_run _ \<longleftrightarrow> False"

record task =
  task_peer :: socket_addr
  task_permit :: "permit option"
  task_slot :: "ip_slot option"
  task_phase :: task_phase

type_synonym spawner = "sock_client \<Rightarrow> socket_addr \<Rightarrow> permit \<Rightarrow> ip_slot option \<Rightarrow> task"

text \<open>The closure \<open>Merino::serve\<close> passes to the accept loop: one tokio task per connection.\<close>

definition tokio_spawn :: spawner where
  "tokio_spawn client client_addr permit slot =
     \<lparr>task_peer = client_addr, task_permit = Some permit, task_slot = slot,
      task_phase = start_run ServerStats client\<rparr>"

text \<open>
  The actor of a connection. Its constructor makes statistics of its own; \<open>set_stats\<close> replaces them,
  and \<open>started\<close> hands to \<open>run_client\<close> what is there then. An actor started without a client stops at
  once.
\<close>

record socks_connection =
  sc_client :: "sock_client option"
  sc_peer :: socket_addr
  sc_permit :: "permit option"
  sc_ip_slot :: "ip_slot option"
  sc_stats :: stats_handle

definition socks_connection_new :: "sock_client \<Rightarrow> socket_addr \<Rightarrow> socks_connection" where
  "socks_connection_new client p =
     \<lparr>sc_client = Some client, sc_peer = p, sc_permit = None, sc_ip_slot = None, sc_stats = OwnStats\<rparr>"

definition set_permit :: "permit \<Rightarrow> socks_connection \<Rightarrow> socks_connection" where
  "set_permit p c = c\<lparr>sc_permit := Some p\<rparr>"

definition set_ip_slot :: "ip_slot option \<Rightarrow> socks_connection \<Rightarrow> socks_connection" where
  "set_ip_slot slot c = c\<lparr>sc_ip_slot := slot\<rparr>"

definition connection_set_stats :: "stats_handle \<Rightarrow> socks_connection \<Rightarrow> socks_connection" where
  "connection_set_stats st c = c\<lparr>sc_stats := st\<rparr>"

definition connection_started :: "socks_connection \<Rightarrow> task" where
  "connection_started c =
     \<lparr>task_peer = sc_peer c, task_permit = sc_permit c, task_slot = sc_ip_slot c,
      task_phase = (case sc_client c of Some client \<Rightarrow> start_run (sc_stats c) client | None \<Rightarrow> Ended)\<rparr>"

definition actor_spawn :: spawner where
  "actor_spawn client p permit slot =
     connection_started
       (connection_set_stats ServerStats (set_ip_slot slot (set_permit permit (socks_connection_new client p))))"

section \<open>The accept loops\<close>

text \<open>
  The semaphore: \<open>sem_new\<close> is \<open>None\<close> where the constructor panics (more permits than it supports),
  \<open>sem_acquire\<close> is \<open>None\<close> while the caller has to wait.
\<close>

record 'sem semaphore_api =
  sem_new :: "usize \<Rightarrow> 'sem option"
  sem_acquire :: "'sem \<Rightarrow> 'sem option"
  sem_release :: "'sem \<Rightarrow> 'sem"
  sem_available :: "'sem \<Rightarrow> nat"

definition semaphore_laws :: "'sem semaphore_api \<Rightarrow> bool" where
  "semaphore_laws sem \<longleftrightarrow>
     (\<forall>n f. sem_new sem n = Some f \<longrightarrow> sem_available sem f = unat n) \<and>
     (\<forall>f. sem_acquire sem f = None \<longleftrightarrow> sem_available sem f = 0) \<and>
     (\<forall>f f'. sem_acquire sem f = Some f' \<longrightarrow> sem_available sem f = Suc (sem_available sem f')) \<and>
     (\<forall>f. sem_available sem (sem_release sem f) = Suc (sem_available sem f))"

record server_context =
  ctx_users :: "user list"
  ctx_auth_methods :: bytes
  ctx_timeout :: "nat option"

text \<open>What all loops and connections share, the state of each loop, and the connections.\<close>

datatype loop_phase = Acquiring | Accepting

record 'sem server =
  free :: 'sem
  loops :: "loop_phase list"
  tasks :: "task multiset"
  limiter :: "per_ip_limiter option"
  cache :: "dns_cache option"
  sstats :: stats

datatype accept_result =
    AcceptError error_kind
  | Accepted stream socket_addr "socket_addr option"

definition accepted_client ::
  "server_context \<Rightarrow> dns_cache option \<Rightarrow> stream \<Rightarrow> socket_addr option \<Rightarrow> sock_client" where
  "accepted_client ctx d s l =
     (let client = set_stats (set_local_addr l
            (with_credential_width s (ctx_users ctx) (ctx_auth_methods ctx) (ctx_timeout ctx)
               (credential_width (ctx_users ctx))))
      in case d of Some dc \<Rightarrow> set_dns_cache dc client | None \<Rightarrow> client)"

text \<open>The per-source check: \<open>None\<close> refuses, otherwise the slot, if there is a cap.\<close>

fun admit ::
  "ip_addr \<Rightarrow> per_ip_limiter option \<Rightarrow> ip_slot option option \<times> per_ip_limiter option" where
  "admit ip None = (Some None, None)"
| "admit ip (Some l) =
     (case try_acquire ip l of
        (Some slot, l') \<Rightarrow> (Some (Some slot), Some l')
      | (None, l') \<Rightarrow> (None, Some l'))"

definition release_permit :: "'sem semaphore_api \<Rightarrow> 'sem server \<Rightarrow> 'sem server" where
  "release_permit sem s = s\<lparr>free := sem_release sem (free s)\<rparr>"

text \<open>The rest of an iteration, once \<open>accept\<close> has returned.\<close>

fun on_accept ::
  "'sem semaphore_api \<Rightarrow> server_context \<Rightarrow> spawner \<Rightarrow> accept_result \<Rightarrow> 'sem server \<Rightarrow> 'sem server" where
  "on_accept sem ctx spawn (AcceptError e) s = release_permit sem s"
| "on_accept sem ctx spawn (Accepted st client_addr l) s =
     (case admit (sock_ip client_addr) (limiter s) of
        (None, lim) \<Rightarrow>
          release_permit sem (s\<lparr>limiter := lim, sstats := note_refused_per_ip (sstats s)\<rparr>)
      | (Some slot, lim) \<Rightarrow>
          s\<lparr>limiter := lim, sstats := note_accepted (sstats s),
            tasks := add_mset (spawn (accepted_client ctx (cache s) st l) client_addr Permit slot)
                       (tasks s)\<rparr>)"

inductive server_step ::
  "'sem semaphore_api \<Rightarrow> server_context \<Rightarrow> spawner \<Rightarrow> 'sem server \<Rightarrow> 'sem server \<Rightarrow> bool"
  for sem ctx spawn where
  acquire: "i < length (loops s) \<Longrightarrow> loops s ! i = Acquiring \<Longrightarrow> sem_acquire sem (free s) = Some f \<Longrightarrow>
    server_step sem ctx spawn s (s\<lparr>free := f, loops := (loops s)[i := Accepting]\<rparr>)"
| accept: "i < length (loops s) \<Longrightarrow> loops s ! i = Accepting \<Longrightarrow>
    server_step sem ctx spawn s
      (on_accept sem ctx spawn res (s\<lparr>loops := (loops s)[i := Acquiring]\<rparr>))"
| begin_run: "tasks s = add_mset t ts \<Longrightarrow> task_phase t = Spawned client \<Longrightarrow> ids_left (sstats s) \<Longrightarrow>
    begin_client now (task_peer t) (local_addr client) (sstats s) = (g, st) \<Longrightarrow>
    server_step sem ctx spawn s
      (s\<lparr>sstats := st, tasks := add_mset (t\<lparr>task_phase := Running g\<rparr>) ts\<rparr>)"
| begin_apart: "tasks s = add_mset t ts \<Longrightarrow> task_phase t = SpawnedApart client \<Longrightarrow>
    server_step sem ctx spawn s (s\<lparr>tasks := add_mset (t\<lparr>task_phase := RunningApart\<rparr>) ts\<rparr>)"
| note_run: "t \<in># tasks s \<Longrightarrow> in_run (task_phase t) \<Longrightarrow> run_op op (sstats s) = (None, st) \<Longrightarrow>
    server_step sem ctx spawn s (s\<lparr>sstats := st\<rparr>)"
| cache_run: "t \<in># tasks s \<Longrightarrow> in_run (task_phase t) \<Longrightarrow> cache s = Some d \<Longrightarrow> cache_step d d' \<Longrightarrow>
    server_step sem ctx spawn s (s\<lparr>cache := Some d'\<rparr>)"
| end_run: "tasks s = add_mset t ts \<Longrightarrow> task_phase t = Running g \<Longrightarrow>
    server_step sem ctx spawn s
      (s\<lparr>sstats := drop_guard g (sstats s), tasks := add_mset (t\<lparr>task_phase := Ended\<rparr>) ts\<rparr>)"
| end_apart: "tasks s = add_mset t ts \<Longrightarrow> task_phase t = RunningApart \<Longrightarrow>
    server_step sem ctx spawn s (s\<lparr>tasks := add_mset (t\<lparr>task_phase := Ended\<rparr>) ts\<rparr>)"
| drop_task_slot: "tasks s = add_mset t ts \<Longrightarrow> task_phase t = Ended \<Longrightarrow> task_slot t = Some slot \<Longrightarrow>
    limiter s = Some l \<Longrightarrow>
    server_step sem ctx spawn s
      (s\<lparr>limiter := Some (drop_slot slot l), tasks := add_mset (t\<lparr>task_slot := None\<rparr>) ts\<rparr>)"
| drop_task_permit: "tasks s = add_mset t ts \<Longrightarrow> task_phase t = Ended \<Longrightarrow> task_permit t = Some p \<Longrightarrow>
    server_step sem ctx spawn s
      (release_permit sem (s\<lparr>tasks := add_mset (t\<lparr>task_permit := None\<rparr>) ts\<rparr>))"
| reap: "tasks s = add_mset t ts \<Longrightarrow> task_phase t = Ended \<Longrightarrow> task_slot t = None \<Longrightarrow> task_permit t = None \<Longrightarrow>
    server_step sem ctx spawn s (s\<lparr>tasks := ts\<rparr>)"

definition merino_context :: "merino \<Rightarrow> server_context" where
  "merino_context m =
     \<lparr>ctx_users = srv_users m, ctx_auth_methods = srv_auth_methods m, ctx_timeout = srv_timeout m\<rparr>"

text \<open>\<open>Merino::serve\<close> up to the start of its loops; \<open>None\<close> where building the semaphore panics.\<close>

definition serve :: "'sem semaphore_api \<Rightarrow> merino \<Rightarrow> merino \<times> 'sem server option" where
  "serve sem m =
     (let addrs = List.map_filter (\<lambda>l. case listener_addr l of Inr a \<Rightarrow> Some a | Inl _ \<Rightarrow> None) (srv_listeners m);
          st = note_listeners addrs (srv_stats m)
      in (m\<lparr>srv_stats := st, srv_listeners := []\<rparr>,
          map_option (\<lambda>f. \<lparr>free = f, loops = replicate (length (srv_listeners m)) Acquiring, tasks = {#},
             limiter = per_ip m, cache = srv_dns_cache m, sstats = st\<rparr>)
            (sem_new sem (max_connections m))))"

definition socks_context :: "socks_server \<Rightarrow> server_context" where
  "socks_context m =
     \<lparr>ctx_users = act_users m, ctx_auth_methods = act_auth_methods m, ctx_timeout = act_timeout m\<rparr>"

definition socks_started :: "'sem semaphore_api \<Rightarrow> socks_server \<Rightarrow> socks_server \<times> 'sem server option" where
  "socks_started sem m =
     (case sem_new sem (act_max_connections m) of
        None \<Rightarrow> (m, None)
      | Some f \<Rightarrow>
          (m\<lparr>act_listeners := []\<rparr>,
           Some \<lparr>free = f, loops = replicate (length (act_listeners m)) Acquiring, tasks = {#},
                 limiter = act_per_ip m, cache = act_dns_cache m, sstats = act_stats m\<rparr>))"

section \<open>What the connections own\<close>

primrec opt_mset :: "'a option \<Rightarrow> 'a multiset" where
  "opt_mset None = {#}"
| "opt_mset (Some x) = {#x#}"

primrec phase_guards :: "task_phase \<Rightarrow> active_guard multiset" where
  "phase_guards (Spawned c) = {#}"
| "phase_guards (Running g) = {#g#}"
| "phase_guards (SpawnedApart c) = {#}"
| "phase_guards RunningApart = {#}"
| "phase_guards Ended = {#}"

definition owned_permits :: "'sem server \<Rightarrow> permit multiset" where
  "owned_permits s = (\<Sum>t\<in>#tasks s. opt_mset (task_permit t))"

definition owned_slots :: "'sem server \<Rightarrow> ip_slot multiset" where
  "owned_slots s = (\<Sum>t\<in>#tasks s. opt_mset (task_slot t))"

definition owned_guards :: "'sem server \<Rightarrow> active_guard multiset" where
  "owned_guards s = (\<Sum>t\<in>#tasks s. phase_guards (task_phase t))"

lemmas owned_defs = owned_permits_def owned_slots_def owned_guards_def

text \<open>
  The books of the server: every permit is free, with a waiting loop, or owned by a connection; the
  limiter and the statistics are in a state their own histories reach, with exactly the slots and
  guards the connections own; and a connection that is not over owns its permit and its slot and was
  handed the statistics of the server.
\<close>

fun apart :: "task_phase \<Rightarrow> bool" where
  "apart (SpawnedApart client) \<longleftrightarrow> True"
| "apart RunningApart \<longleftrightarrow> True"
| "apart _ \<longleftrightarrow> False"

definition task_ok :: "bool \<Rightarrow> task \<Rightarrow> bool" where
  "task_ok capped t \<longleftrightarrow>
     \<not> apart (task_phase t) \<and>
     (task_phase t \<noteq> Ended \<longrightarrow> task_permit t \<noteq> None \<and> (capped \<longrightarrow> task_slot t \<noteq> None)) \<and>
     (\<forall>slot. task_slot t = Some slot \<longrightarrow> slot_ip slot = sock_ip (task_peer t)) \<and>
     (\<forall>g. task_phase t = Running g \<longrightarrow> guard_ip g = sock_ip (task_peer t))"

definition permits_conserved :: "'sem semaphore_api \<Rightarrow> nat \<Rightarrow> 'sem server \<Rightarrow> bool" where
  "permits_conserved sem n s \<longleftrightarrow>
     sem_available sem (free s) + count_list (loops s) Accepting + size (owned_permits s) = n"

fun limiter_accounts :: "usize option \<Rightarrow> per_ip_limiter option \<Rightarrow> ip_slot multiset \<Rightarrow> bool" where
  "limiter_accounts None lim slots \<longleftrightarrow> lim = None \<and> slots = {#}"
| "limiter_accounts (Some n) lim slots \<longleftrightarrow> (\<exists>l. lim = Some l \<and> limiter_reach n l slots)"

definition server_inv ::
  "'sem semaphore_api \<Rightarrow> nat \<Rightarrow> usize option \<Rightarrow> nat \<Rightarrow> nat \<Rightarrow> 'sem server \<Rightarrow> bool" where
  "server_inv sem n cap now unix s \<longleftrightarrow>
     permits_conserved sem n s \<and> limiter_accounts cap (limiter s) (owned_slots s) \<and>
     stats_reach now unix (sstats s) (owned_guards s) \<and> (\<forall>t\<in>#tasks s. task_ok (cap \<noteq> None) t)"

lemma count_list_update:
  "i < length xs \<Longrightarrow> xs ! i = x \<Longrightarrow> x \<noteq> y \<Longrightarrow>
     Suc (count_list (xs[i := y]) x) = count_list xs x \<and> count_list (xs[i := y]) y = Suc (count_list xs y)"
  by (induction xs arbitrary: i) (auto split: nat.splits simp: nth_Cons')

lemma laws_simps:
  assumes "semaphore_laws sem"
  shows "sem_available sem (sem_release sem f) = Suc (sem_available sem f)"
    "sem_acquire sem f = Some f' \<Longrightarrow> sem_available sem f = Suc (sem_available sem f')"
    "sem_new sem n = Some f \<Longrightarrow> sem_available sem f = unat n"
    "sem_acquire sem f = None \<longleftrightarrow> sem_available sem f = 0"
  using assms by (auto simp: semaphore_laws_def)

lemma tokio_spawn_fields [simp]:
  "task_peer (tokio_spawn c a p sl) = a" "task_permit (tokio_spawn c a p sl) = Some p"
  "task_slot (tokio_spawn c a p sl) = sl" "task_phase (tokio_spawn c a p sl) = Spawned c"
  by (simp_all add: tokio_spawn_def)

lemma actor_spawn_tokio: "actor_spawn = tokio_spawn"
  by (simp add: fun_eq_iff actor_spawn_def tokio_spawn_def connection_started_def connection_set_stats_def
      set_ip_slot_def set_permit_def socks_connection_new_def)

lemma admit_refused:
  assumes "limiter_accounts cap (limiter s) (owned_slots s)" "admit ip (limiter s) = (None, lim)"
  shows "\<exists>n l l'. cap = Some n \<and> limiter s = Some l \<and> try_acquire ip l = (None, l') \<and> lim = Some l' \<and>
    limiter_reach n l' (owned_slots s)"
proof -
  from assms obtain n l l' where *: "cap = Some n" "limiter s = Some l" "limiter_reach n l (owned_slots s)"
    "try_acquire ip l = (None, l')" "lim = Some l'"
    by (cases cap) (auto split: option.splits prod.splits)
  from slots_reach.refused [OF *(3,4)] * show ?thesis by blast
qed

lemma admit_granted:
  assumes "limiter_accounts cap (limiter s) (owned_slots s)" "admit ip (limiter s) = (Some slot, lim)"
  shows "cap = None \<and> slot = None \<and> lim = None \<or>
    (\<exists>n l'. cap = Some n \<and> slot = Some \<lparr>slot_ip = ip\<rparr> \<and> lim = Some l' \<and>
       limiter_reach n l' (add_mset \<lparr>slot_ip = ip\<rparr> (owned_slots s)))"
proof (cases cap)
  case None
  with assms show ?thesis by auto
next
  case (Some n)
  with assms obtain l l' sl where *: "limiter s = Some l" "limiter_reach n l (owned_slots s)"
    "try_acquire ip l = (Some sl, l')" "lim = Some l'" "slot = Some sl"
    by (auto split: option.splits prod.splits)
  moreover from *(3) have "sl = \<lparr>slot_ip = ip\<rparr>" by (auto simp: try_acquire_def Let_def split: if_splits)
  ultimately show ?thesis using Some slots_reach.granted [OF *(2) TrueI *(3)] by auto
qed

text \<open>After a wait for a connection: the permit of the loop goes back or to the new connection.\<close>

lemma on_accept_inv:
  assumes laws: "semaphore_laws sem" and i: "i < length (loops s)" "loops s ! i = Accepting"
    and inv: "server_inv sem n cap now unix s"
  shows "server_inv sem n cap now unix
    (on_accept sem ctx tokio_spawn res (s\<lparr>loops := (loops s)[i := Acquiring]\<rparr>))"
proof -
  let ?s = "s\<lparr>loops := (loops s)[i := Acquiring]\<rparr>"
  from inv have acc: "limiter_accounts cap (limiter s) (owned_slots s)" by (simp add: server_inv_def)
  from inv have st: "stats_reach now unix (sstats s) (owned_guards s)" by (simp add: server_inv_def)
  have noted: "stats_reach now unix (note_refused_per_ip (sstats s)) (owned_guards s)"
    "stats_reach now unix (note_accepted (sstats s)) (owned_guards s)"
    using slots_reach.refused [OF st, of OpRefusedPerIp] slots_reach.refused [OF st, of OpAccepted] by auto
  have cnt: "Suc (count_list ((loops s)[i := Acquiring]) Accepting) = count_list (loops s) Accepting"
    using count_list_update [OF i, of Acquiring] by simp
  show ?thesis
  proof (cases res)
    case (AcceptError e)
    with inv cnt laws_simps(1) [OF laws] show ?thesis
      by (auto simp: server_inv_def permits_conserved_def owned_defs release_permit_def)
  next
    case (Accepted strm peer l)
    show ?thesis
    proof (cases "admit (sock_ip peer) (limiter s)")
      case (Pair ans lim)
      show ?thesis
      proof (cases ans)
        case None
        with admit_refused [OF acc, of "sock_ip peer" lim] Pair obtain m l' where
          "cap = Some m" "lim = Some l'" "limiter_reach m l' (owned_slots s)" by (auto simp: owned_defs)
        with inv cnt laws_simps(1) [OF laws] Accepted Pair None noted(1) show ?thesis
          by (auto simp: server_inv_def permits_conserved_def owned_defs release_permit_def)
      next
        case (Some slot)
        with admit_granted [OF acc, of "sock_ip peer" slot lim] Pair inv cnt Accepted noted(2) show ?thesis
          by (auto simp: server_inv_def permits_conserved_def owned_defs task_ok_def)
      qed
    qed
  qed
qed

text \<open>The steps of a task that give or take a guard or a slot.\<close>

lemma begin_run_inv:
  assumes t: "tasks s = add_mset t ts" "task_phase t = Spawned client" and ids: "ids_left (sstats s)"
    and b: "begin_client now' (task_peer t) (local_addr client) (sstats s) = (g, st)"
    and inv: "server_inv sem n cap now unix s"
  shows "server_inv sem n cap now unix (s\<lparr>sstats := st, tasks := add_mset (t\<lparr>task_phase := Running g\<rparr>) ts\<rparr>)"
proof -
  from inv have reach: "stats_reach now unix (sstats s) (owned_guards s)" by (simp add: server_inv_def)
  have "run_op (OpBegin now' (task_peer t) (local_addr client)) (sstats s) = (Some g, st)" using b by simp
  from slots_reach.granted [OF reach ids this] have "stats_reach now unix st (add_mset g (owned_guards s))" .
  moreover have "guard_ip g = sock_ip (task_peer t)" using b by (auto simp: begin_client_def Let_def)
  ultimately show ?thesis
    using t inv by (auto simp: server_inv_def permits_conserved_def owned_defs task_ok_def)
qed

lemma end_run_inv:
  assumes t: "tasks s = add_mset t ts" "task_phase t = Running g" and inv: "server_inv sem n cap now unix s"
  shows "server_inv sem n cap now unix
    (s\<lparr>sstats := drop_guard g (sstats s), tasks := add_mset (t\<lparr>task_phase := Ended\<rparr>) ts\<rparr>)"
proof -
  from t inv have "stats_reach now unix (sstats s) (add_mset g (\<Sum>t\<in>#ts. phase_guards (task_phase t)))"
    by (auto simp: server_inv_def owned_defs)
  from slots_reach.dropped [OF this] t inv show ?thesis
    by (auto simp: server_inv_def permits_conserved_def owned_defs task_ok_def)
qed

lemma drop_task_slot_inv:
  assumes t: "tasks s = add_mset t ts" "task_phase t = Ended" "task_slot t = Some slot" "limiter s = Some l"
    and inv: "server_inv sem n cap now unix s"
  shows "server_inv sem n cap now unix
    (s\<lparr>limiter := Some (drop_slot slot l), tasks := add_mset (t\<lparr>task_slot := None\<rparr>) ts\<rparr>)"
proof -
  from t inv obtain m where "cap = Some m" "limiter_reach m l (add_mset slot (\<Sum>t\<in>#ts. opt_mset (task_slot t)))"
    by (cases cap) (auto simp: server_inv_def owned_defs)
  with slots_reach.dropped [OF this(2)] t inv show ?thesis
    by (auto simp: server_inv_def permits_conserved_def owned_defs task_ok_def)
qed

lemma server_step_inv:
  assumes "server_step sem ctx tokio_spawn s s'" "semaphore_laws sem" "server_inv sem n cap now unix s"
  shows "server_inv sem n cap now unix s'"
  using assms
proof (induction rule: server_step.induct)
  case (acquire i s f)
  then show ?case
    using count_list_update [of i "loops s" Acquiring Accepting] laws_simps(2) [of sem "free s" f]
    by (auto simp: server_inv_def permits_conserved_def owned_defs)
next
  case (accept i s res)
  then show ?case by (intro on_accept_inv)
next
  case (begin_run s t ts client now' g st)
  then show ?case by (intro begin_run_inv)
next
  case (begin_apart s t ts client)
  then show ?case
    by (auto simp: server_inv_def permits_conserved_def owned_defs task_ok_def)
next
  case (note_run t s op st)
  then have "stats_reach now unix st (owned_guards s)"
    by (auto simp: server_inv_def intro: slots_reach.refused)
  with note_run show ?case
    by (auto simp: server_inv_def permits_conserved_def owned_defs)
next
  case (cache_run t s d d')
  then show ?case by (auto simp: server_inv_def permits_conserved_def owned_defs)
next
  case (end_run s t ts g)
  then show ?case by (intro end_run_inv)
next
  case (end_apart s t ts)
  then show ?case
    by (auto simp: server_inv_def permits_conserved_def owned_defs task_ok_def)
next
  case (drop_task_slot s t ts slot l)
  then show ?case by (intro drop_task_slot_inv)
next
  case (drop_task_permit s t ts p)
  with laws_simps(1) [of sem "free s"] show ?case
    by (auto simp: server_inv_def permits_conserved_def owned_defs task_ok_def release_permit_def)
next
  case (reap s t ts)
  then show ?case
    by (auto simp: server_inv_def permits_conserved_def owned_defs)
qed

lemma server_steps_inv:
  assumes "(server_step sem ctx tokio_spawn)\<^sup>*\<^sup>* s s'" "semaphore_laws sem" "server_inv sem n cap now unix s"
  shows "server_inv sem n cap now unix s'"
  using assms by (induction rule: rtranclp_induct) (auto intro: server_step_inv)

text \<open>
  The DNS cache of a server only changes by cache steps, and every connection starts as a client
  with the accounts and methods of the server's context.
\<close>

lemma on_accept_cache: "cache (on_accept sem ctx spawn res s) = cache s"
  by (cases res) (auto simp: release_permit_def split: prod.splits option.splits)

lemma server_step_cache: "server_step sem ctx spawn s s' \<Longrightarrow> cached (cache s) (cache s')"
  by (induction rule: server_step.induct) (auto simp: on_accept_cache release_permit_def)

lemma server_steps_cache: "(server_step sem ctx spawn)\<^sup>*\<^sup>* s s' \<Longrightarrow> cached (cache s) (cache s')"
  by (induction rule: rtranclp_induct) (auto intro: cached_trans server_step_cache)

definition clients_ok :: "server_context \<Rightarrow> 'sem server \<Rightarrow> bool" where
  "clients_ok ctx s \<longleftrightarrow>
     (\<forall>t\<in>#tasks s. \<forall>client. task_phase t = Spawned client \<longrightarrow> (\<exists>d st l. client = accepted_client ctx d st l))"

lemma on_accept_clients:
  "clients_ok ctx s \<Longrightarrow> clients_ok ctx (on_accept sem ctx tokio_spawn res s)"
  by (cases res) (auto simp: clients_ok_def release_permit_def split: prod.splits option.splits)

lemma server_step_clients:
  "server_step sem ctx tokio_spawn s s' \<Longrightarrow> clients_ok ctx s \<Longrightarrow> clients_ok ctx s'"
  by (induction rule: server_step.induct)
    (auto intro!: on_accept_clients simp: release_permit_def, auto simp: clients_ok_def)

lemma server_steps_clients:
  "(server_step sem ctx tokio_spawn)\<^sup>*\<^sup>* s s' \<Longrightarrow> clients_ok ctx s \<Longrightarrow> clients_ok ctx s'"
  by (induction rule: rtranclp_induct) (auto intro: server_step_clients)

section \<open>Configured servers\<close>

definition idle_stats :: "stats \<Rightarrow> bool" where
  "idle_stats st \<longleftrightarrow> (\<exists>now unix. stats_reach now unix st {#})"

definition merino_ok :: "merino \<Rightarrow> bool" where
  "merino_ok m \<longleftrightarrow>
     0 < max_connections m \<and> (\<forall>l. per_ip m = Some l \<longrightarrow> (\<exists>n>0. l = limiter_new n)) \<and> idle_stats (srv_stats m) \<and>
     (\<forall>d. srv_dns_cache m = Some d \<longrightarrow> (\<exists>lifetime cap. d = dns_new lifetime cap))"

lemma idle_new [simp]: "idle_stats (stats_new now unix)"
  by (auto simp: idle_stats_def intro: slots_reach.start)

lemma idle_note: "idle_stats st \<Longrightarrow> run_op op st = (None, st') \<Longrightarrow> idle_stats st'"
  by (auto simp: idle_stats_def intro: slots_reach.refused)

lemma merino_new_ok: "merino_new lk api now unix port ip ms us tmo = Inr m \<Longrightarrow> merino_ok m"
  by (auto simp: merino_new_def bindE_Inr_iff merino_ok_def DEFAULT_MAX_CONNECTIONS_def)

lemma merino_set_ok:
  assumes "merino_ok m" "\<And>st. x = SetStats st \<Longrightarrow> idle_stats st"
  shows "merino_ok (merino_set x m)"
  using assms idle_note [of "srv_stats m" OpRegisterDns]
  by (cases x) (auto simp: merino_ok_def merino_set_stats_def merino_set_max_connections_def
      merino_set_dns_cache_def merino_set_max_connections_per_ip_def max_def word_gt_0)

lemma merino_settings_ok:
  "merino_ok m \<Longrightarrow> \<forall>st. SetStats st \<in> set ss \<longrightarrow> idle_stats st \<Longrightarrow> merino_ok (fold merino_set ss m)"
proof (induction ss arbitrary: m)
  case (Cons x ss)
  then have "merino_ok (merino_set x m)" by (intro merino_set_ok) auto
  with Cons show ?case by simp
qed simp

lemma limiter_new_limit: "0 < n \<Longrightarrow> limit (limiter_new n) = n"
  using inc_le [of 0 n] by (simp add: limiter_new_def max_absorb1)

text \<open>A server that starts: no connection, all loops before their first permit.\<close>

lemma started_inv:
  assumes laws: "semaphore_laws sem" and sem: "sem_new sem n = Some f"
    and lim: "\<And>l. lim = Some l \<Longrightarrow> \<exists>k>0. l = limiter_new k" and idle: "idle_stats st"
  shows "\<exists>now unix. server_inv sem (unat n) (map_option limit lim) now unix
    \<lparr>free = f, loops = replicate k Acquiring, tasks = {#}, limiter = lim, cache = d, sstats = st\<rparr>"
proof -
  from idle obtain now unix where "stats_reach now unix st {#}" by (auto simp: idle_stats_def)
  moreover have "limiter_accounts (map_option limit lim) lim {#}"
    using lim by (cases lim) (auto simp: limiter_new_limit intro: slots_reach.start)
  moreover have "sem_available sem f = unat n" by (rule laws_simps(3) [OF laws sem])
  moreover have "count_list (replicate k Acquiring) Accepting = 0" by (induction k) auto
  ultimately show ?thesis
    by (auto simp: server_inv_def permits_conserved_def owned_defs)
qed

lemma serve_inv:
  assumes "merino_ok m" "serve sem m = (m', Some s)" "semaphore_laws sem"
  shows "\<exists>now unix. server_inv sem (unat (max_connections m)) (map_option limit (per_ip m)) now unix s"
proof -
  from assms(1) have "idle_stats (srv_stats m)" by (simp add: merino_ok_def)
  then have "idle_stats (note_listeners as (srv_stats m))" for as by (rule idle_note [where op = "OpListeners as"]) simp
  with assms show ?thesis
    by (auto simp: serve_def Let_def merino_ok_def intro!: started_inv)
qed

text \<open>Connections that are not over, and those that are registered.\<close>

definition live_task :: "task \<Rightarrow> bool" where
  "live_task t \<longleftrightarrow> task_phase t \<noteq> Ended"

definition running :: "task \<Rightarrow> bool" where
  "running t \<longleftrightarrow> in_run (task_phase t)"

lemma live_le_owned:
  assumes "\<forall>t\<in>#T. task_ok capped t"
  shows "size (filter_mset live_task T) \<le> size (\<Sum>t\<in>#T. opt_mset (task_permit t))"
  using assms by (induction T) (auto simp: task_ok_def live_task_def)

lemma live_le_slots:
  assumes "\<forall>t\<in>#T. task_ok True t"
  shows "size (filter_mset (\<lambda>t. live_task t \<and> sock_ip (task_peer t) = ip) T) \<le>
    size (filter_mset (\<lambda>sl. slot_ip sl = ip) (\<Sum>t\<in>#T. opt_mset (task_slot t)))"
  using assms
proof (induction T)
  case (add t T)
  then show ?case by (cases "task_slot t") (auto simp: task_ok_def live_task_def)
qed simp

lemma running_guards:
  assumes "\<forall>t\<in>#T. task_ok capped t"
  shows "size (filter_mset running T) = size (\<Sum>t\<in>#T. phase_guards (task_phase t))"
  using assms
proof (induction T)
  case (add t T)
  then show ?case by (cases "task_phase t") (auto simp: running_def task_ok_def)
qed simp

lemma running_guards_ip:
  assumes "\<forall>t\<in>#T. task_ok capped t"
  shows "size (filter_mset (\<lambda>t. running t \<and> sock_ip (task_peer t) = ip) T) =
    size (filter_mset (\<lambda>g. guard_ip g = ip) (\<Sum>t\<in>#T. phase_guards (task_phase t)))"
  using assms
proof (induction T)
  case (add t T)
  then show ?case by (cases "task_phase t") (auto simp: running_def task_ok_def)
qed simp

lemma server_inv_caps:
  assumes "server_inv sem n cap now unix s"
  shows "size (filter_mset live_task (tasks s)) + count_list (loops s) Accepting \<le> n"
    "cap = Some k \<Longrightarrow> size (filter_mset (\<lambda>t. live_task t \<and> sock_ip (task_peer t) = ip) (tasks s)) \<le> unat (max k 1)"
    "length (client_rows (sstats s)) = size (filter_mset running (tasks s))"
    "conns_of_ip (sstats s) ip = size (filter_mset (\<lambda>t. running t \<and> sock_ip (task_peer t) = ip) (tasks s))"
proof -
  from assms have ok: "\<forall>t\<in>#tasks s. task_ok (cap \<noteq> None) t" and st: "stats_reach now unix (sstats s) (owned_guards s)"
    by (simp_all add: server_inv_def)
  show "size (filter_mset live_task (tasks s)) + count_list (loops s) Accepting \<le> n"
    using live_le_owned [OF ok] assms by (auto simp: server_inv_def permits_conserved_def owned_defs)
  show "size (filter_mset (\<lambda>t. live_task t \<and> sock_ip (task_peer t) = ip) (tasks s)) \<le> unat (max k 1)"
    if "cap = Some k"
  proof -
    from that assms obtain l where l: "limiter_reach k l (owned_slots s)" by (auto simp: server_inv_def)
    from limiter_slots.reach_held [OF l] have "limiter_inv l"
      "slots_held l ip = size (filter_mset (\<lambda>sl. slot_ip sl = ip) (owned_slots s))" by auto
    with slots_held_le_limit [of l ip] limiter_reach_limit [OF l] live_le_slots [of "tasks s" ip] ok that
    show ?thesis by (simp add: owned_defs)
  qed
  show "length (client_rows (sstats s)) = size (filter_mset running (tasks s))"
    using stats_reach_ids(1) [OF st] running_guards [OF ok]
    by (metis length_map owned_guards_def size_image_mset size_mset)
  show "conns_of_ip (sstats s) ip = size (filter_mset (\<lambda>t. running t \<and> sock_ip (task_peer t) = ip) (tasks s))"
    using per_ip_slots.reach_held [OF st stats_new_invs(1,3)] running_guards_ip [OF ok, of ip]
    by (simp add: owned_defs)
qed

lemma configured_reach:
  assumes "semaphore_laws sem" "merino_new lookup api now unix port ip methods users tmo = Inr m0"
    and "\<forall>st. SetStats st \<in> set settings \<longrightarrow> idle_stats st"
    and "serve sem (fold merino_set settings m0) = (m, Some s0)"
    and "(server_step sem (merino_context m) tokio_spawn)\<^sup>*\<^sup>* s0 s"
  shows "\<exists>now unix. server_inv sem (unat (max_connections m)) (map_option limit (per_ip m)) now unix s"
    "0 < max_connections m" "per_ip m = Some l \<Longrightarrow> max (limit l) 1 = limit l"
    "cache s = Some d \<Longrightarrow> \<exists>lifetime cap. srv_dns_cache m = Some (dns_new lifetime cap) \<and>
      cache_step\<^sup>*\<^sup>* (dns_new lifetime cap) d"
proof -
  let ?m = "fold merino_set settings m0"
  have ok: "merino_ok ?m" by (rule merino_settings_ok [OF merino_new_ok [OF assms(2)] assms(3)])
  from assms(4) have m: "max_connections m = max_connections ?m" "per_ip m = per_ip ?m"
    by (auto simp: serve_def Let_def)
  from serve_inv [OF ok assms(4,1)] server_steps_inv [OF assms(5,1)]
  show "\<exists>now unix. server_inv sem (unat (max_connections m)) (map_option limit (per_ip m)) now unix s"
    unfolding m by blast
  show "0 < max_connections m" using ok by (simp add: m merino_ok_def)
  show "max (limit l) 1 = limit l" if "per_ip m = Some l"
    using ok that by (auto simp: m merino_ok_def limiter_new_def)
  show "\<exists>lifetime cap. srv_dns_cache m = Some (dns_new lifetime cap) \<and> cache_step\<^sup>*\<^sup>* (dns_new lifetime cap) d"
    if "cache s = Some d"
  proof -
    from assms(4) have "srv_dns_cache m = srv_dns_cache ?m" "cache s0 = srv_dns_cache ?m"
      by (auto simp: serve_def Let_def)
    with server_steps_cache [OF assms(5)] ok that show ?thesis
      by (cases "srv_dns_cache ?m") (auto simp: cached_def merino_ok_def)
  qed
qed

text \<open>Loops take permits before anyone connects.\<close>

lemma acquire_permits:
  assumes laws: "semaphore_laws sem" and s: "loops s = replicate L Acquiring" "tasks s = {#}"
    "sem_available sem (free s) = n" and k: "k \<le> n" "k \<le> L"
  shows "\<exists>s'. (server_step sem ctx spawn)\<^sup>*\<^sup>* s s' \<and> tasks s' = {#} \<and>
    loops s' = replicate k Accepting @ replicate (L - k) Acquiring \<and> sem_available sem (free s') = n - k"
  using k
proof (induction k)
  case 0
  with s show ?case by auto
next
  case (Suc k)
  then obtain s' where s': "(server_step sem ctx spawn)\<^sup>*\<^sup>* s s'" "tasks s' = {#}"
    "loops s' = replicate k Accepting @ replicate (L - k) Acquiring" "sem_available sem (free s') = n - k" by auto
  from Suc.prems s'(4) obtain f where f: "sem_acquire sem (free s') = Some f"
    using laws_simps(4) [OF laws, of "free s'"] by (cases "sem_acquire sem (free s')") auto
  have L: "L - k = Suc (L - Suc k)" using Suc.prems by simp
  then have "k < length (loops s')" "loops s' ! k = Acquiring"
    "(loops s')[k := Accepting] = replicate (Suc k) Accepting @ replicate (L - Suc k) Acquiring"
    using s'(3) by (simp_all add: nth_append list_update_append replicate_append_same [symmetric] del: replicate.simps)
      (simp add: replicate_append_same)
  with server_step.acquire [OF this(1,2) f, of ctx spawn] s' laws_simps(2) [OF laws f] show ?case
    by (intro exI [of _ "s'\<lparr>free := f, loops := (loops s')[k := Accepting]\<rparr>"])
      (auto intro: rtranclp.rtrancl_into_rtrancl)
qed

section \<open>A connection among the others\<close>

text \<open>What a running connection does to the statistics and the cache are steps of the server.\<close>

lemma noted_steps:
  assumes "noted st st'" "t \<in># tasks s" "task_phase t = Running g" "sstats s = st"
  shows "(server_step sem ctx spawn)\<^sup>*\<^sup>* s (s\<lparr>sstats := st'\<rparr>)"
  using assms(1) unfolding noted_def
proof (induction rule: rtranclp_induct)
  case base
  have "s\<lparr>sstats := st\<rparr> = s" using assms(4) by simp
  then show ?case by simp
next
  case (step u v)
  then obtain op where op: "run_op op (sstats (s\<lparr>sstats := u\<rparr>)) = (None, v)" by auto
  have "server_step sem ctx spawn (s\<lparr>sstats := u\<rparr>) ((s\<lparr>sstats := u\<rparr>)\<lparr>sstats := v\<rparr>)"
    by (rule server_step.note_run [where t = t, OF _ _ op]) (use assms(2,3) in simp_all)
  with step.IH show ?case by simp
qed

lemma cached_steps:
  assumes "cached (cache s) d" "t \<in># tasks s" "task_phase t = Running g"
  shows "(server_step sem ctx spawn)\<^sup>*\<^sup>* s (s\<lparr>cache := d\<rparr>)"
proof (cases "cache s")
  case None
  with assms(1) have "s\<lparr>cache := d\<rparr> = s" by (cases d) (simp_all add: cached_def)
  then show ?thesis by simp
next
  case (Some d0)
  with assms(1) obtain d' where d': "d = Some d'" "cache_step\<^sup>*\<^sup>* d0 d'" by (cases d) (auto simp: cached_def)
  from d'(2) have "(server_step sem ctx spawn)\<^sup>*\<^sup>* s (s\<lparr>cache := Some d'\<rparr>)"
  proof (induction rule: rtranclp_induct)
    case base
    from Some have "s\<lparr>cache := Some d0\<rparr> = s" by simp
    then show ?case by simp
  next
    case (step u v)
    have "server_step sem ctx spawn (s\<lparr>cache := Some u\<rparr>) ((s\<lparr>cache := Some u\<rparr>)\<lparr>cache := Some v\<rparr>)"
      by (rule server_step.cache_run [where t = t, OF _ _ _ step.hyps(2)]) (use assms(2,3) in simp_all)
    with step.IH show ?case by simp
  qed
  with d'(1) show ?thesis by simp
qed

lemma conn_steps:
  assumes "noted (sstats s) st" "cached (cache s) d" "t \<in># tasks s" "task_phase t = Running g"
  shows "(server_step sem ctx spawn)\<^sup>*\<^sup>* s (s\<lparr>sstats := st, cache := d\<rparr>)"
proof -
  have "(server_step sem ctx spawn)\<^sup>*\<^sup>* s (s\<lparr>sstats := st\<rparr>)"
    using assms(1,3,4) by (rule noted_steps) simp
  moreover have "(server_step sem ctx spawn)\<^sup>*\<^sup>* (s\<lparr>sstats := st\<rparr>) ((s\<lparr>sstats := st\<rparr>)\<lparr>cache := d\<rparr>)"
    by (rule cached_steps [where t = t and g = g]) (use assms in simp_all)
  ultimately show ?thesis by simp
qed

lemma connection_fields [simp]:
  "shared (connection c st) = st" "local_addr (connection c st) = local_addr c"
  by (simp_all add: connection_def sock_client.defs)

text \<open>
  The notes \<open>ops\<close> of the running task \<open>t\<close>, in their order, in the midst of other steps of the server:
  those of the accept loops, of other connections, and of the cache.
\<close>

inductive interleaved ::
  "'sem semaphore_api \<Rightarrow> server_context \<Rightarrow> spawner \<Rightarrow> task \<Rightarrow> stats_op list \<Rightarrow> 'sem server \<Rightarrow> 'sem server \<Rightarrow> bool"
  for sem ctx spawn t where
  finished: "interleaved sem ctx spawn t [] s s"
| own: "t \<in># tasks s \<Longrightarrow> interleaved sem ctx spawn t ops (s\<lparr>sstats := snd (run_op op (sstats s))\<rparr>) s' \<Longrightarrow>
    interleaved sem ctx spawn t (op # ops) s s'"
| others: "server_step sem ctx spawn s s1 \<Longrightarrow> t \<in># tasks s1 \<Longrightarrow> interleaved sem ctx spawn t ops s1 s' \<Longrightarrow>
    interleaved sem ctx spawn t ops s s'"

lemma interleaved_steps:
  assumes "interleaved sem ctx spawn t ops s s'" "task_phase t = Running g" "list_all is_note ops"
  shows "(server_step sem ctx spawn)\<^sup>*\<^sup>* s s'"
  using assms
proof (induction rule: interleaved.induct)
  case (own s ops op s')
  then have "run_op op (sstats s) = (None, snd (run_op op (sstats s)))" by (intro is_note_run) simp
  from server_step.note_run [OF own.hyps(1) _ this] own show ?case
    by (auto intro: converse_rtranclp_into_rtranclp)
qed (auto intro: converse_rtranclp_into_rtranclp)

lemma interleaved_alone:
  "t \<in># tasks s \<Longrightarrow> interleaved sem ctx spawn t ops s (s\<lparr>sstats := run_notes ops (sstats s)\<rparr>)"
proof (induction ops arbitrary: s)
  case Nil
  show ?case using interleaved.finished [of sem ctx spawn t s] by simp
next
  case (Cons op ops)
  from Cons.IH [of "s\<lparr>sstats := snd (run_op op (sstats s))\<rparr>"] Cons.prems show ?case
    by (intro interleaved.own) simp_all
qed

section \<open>The two front ends\<close>

definition same_config :: "merino \<Rightarrow> socks_server \<Rightarrow> bool" where
  "same_config m a \<longleftrightarrow>
     srv_listeners m = act_listeners a \<and> collect_addrs (act_listeners a) = Inr (bound_addrs a) \<and>
     srv_users m = act_users a \<and> srv_auth_methods m = act_auth_methods a \<and> srv_timeout m = act_timeout a \<and>
     max_connections m = act_max_connections a \<and> srv_dns_cache m = act_dns_cache a \<and>
     per_ip m = act_per_ip a \<and> srv_stats m = act_stats a"

lemma same_config_set: "same_config m a \<Longrightarrow> same_config (merino_set x m) (socks_set x a)"
  by (cases x) (simp_all add: same_config_def merino_set_stats_def merino_set_max_connections_def
      merino_set_dns_cache_def merino_set_max_connections_per_ip_def socks_set_stats_def
      socks_set_max_connections_def socks_set_dns_cache_def socks_set_max_connections_per_ip_def)

lemma same_config_fold:
  "same_config m a \<Longrightarrow> same_config (fold merino_set settings m) (fold socks_set settings a)"
  by (induction settings arbitrary: m a) (auto intro: same_config_set)

lemma collect_addrs_filter:
  "collect_addrs ls = Inr as \<Longrightarrow>
     List.map_filter (\<lambda>l. case listener_addr l of Inr a \<Rightarrow> Some a | Inl _ \<Rightarrow> None) ls = as"
  by (induction ls arbitrary: as) (auto simp: bindE_Inr_iff List.map_filter_simps)

section \<open>Binding every address\<close>

definition bound_listeners :: "socket_api \<Rightarrow> socket_addr list \<Rightarrow> tcp_listener list" where
  "bound_listeners api = List.map_filter (\<lambda>a. case bind_listener api a of Inr l \<Rightarrow> Some l | Inl _ \<Rightarrow> None)"

lemma bind_each_eq:
  "bind_each api addrs bound e =
     (bound @ bound_listeners api addrs,
      if \<forall>a\<in>set addrs. \<not> isl (bind_listener api a) then e
      else Some (projl (bind_listener api (last (filter (\<lambda>a. isl (bind_listener api a)) addrs)))))"
proof (induction addrs arbitrary: bound e)
  case (Cons a addrs)
  show ?case
  proof (cases "bind_listener api a")
    case (Inl x)
    have "filter (\<lambda>a. isl (bind_listener api a)) addrs = [] \<longleftrightarrow> (\<forall>a\<in>set addrs. \<not> isl (bind_listener api a))"
      by (simp add: filter_empty_conv)
    with Inl Cons show ?thesis by (simp add: bound_listeners_def)
  next
    case (Inr l)
    with Cons show ?thesis by (simp add: bound_listeners_def)
  qed
qed (simp add: bound_listeners_def)

lemma bound_listeners_empty:
  "bound_listeners api addrs = [] \<longleftrightarrow> (\<forall>a\<in>set addrs. isl (bind_listener api a))"
  by (induction addrs) (auto simp: bound_listeners_def List.map_filter_simps split: option.splits sum.splits)

lemma bind_listeners_eq:
  "bind_listeners api addrs =
     (if bound_listeners api addrs \<noteq> [] then Inr (bound_listeners api addrs)
      else Inl (if addrs = [] then Ek_AddrNotAvailable else projl (bind_listener api (last addrs))))"
proof (cases "bound_listeners api addrs = []")
  case True
  then have "filter (\<lambda>a. isl (bind_listener api a)) addrs = addrs"
    by (simp add: bound_listeners_empty filter_id_conv)
  with True bound_listeners_empty [of api addrs] show ?thesis
    by (cases addrs) (auto simp: bind_listeners_def bind_each_eq)
qed (simp add: bind_listeners_def bind_each_eq)

text \<open>Dropping what has been seen keeps the first occurrences, in their order.\<close>

lemma unseen_firsts: "unseen seen xs = filter (\<lambda>x. x \<notin> seen) (rev (remdups (rev xs)))"
proof (induction xs arbitrary: seen rule: rev_induct)
  case (snoc x xs)
  have "unseen seen (xs @ [x]) = unseen seen xs @ (if x \<in> seen \<union> set xs then [] else [x])"
    by (induction xs arbitrary: seen) auto
  with snoc show ?case by auto
qed simp

section \<open>Properties\<close>

text \<open>
  C31. Binding a name binds every address it resolves to, once each and in the order of their first
  occurrences, skipping those that fail; it fails only when resolution fails or no address could be
  bound, and then reports the failure of the last address.
\<close>

theorem bind_all_binds:
  "bind_all lookup api ip port =
     (case lookup ip port of
        Inl e \<Rightarrow> Inl e
      | Inr found \<Rightarrow>
          let firsts = rev (remdups (rev found));
              ls = List.map_filter (\<lambda>a. case bind_listener api a of Inr l \<Rightarrow> Some l | Inl _ \<Rightarrow> None) firsts
          in if ls \<noteq> [] then Inr ls
             else Inl (if found = [] then Ek_AddrNotAvailable else projl (bind_listener api (last firsts))))"
proof -
  have "unseen {} xs = rev (remdups (rev xs))" for xs :: "socket_addr list" by (simp add: unseen_firsts)
  then show ?thesis
    by (auto simp: bind_all_def bind_listeners_eq Let_def bound_listeners_def split: sum.splits)
qed

text \<open>A counting semaphore and a system that binds what it is asked to, for the examples.\<close>

definition counting_semaphore :: "nat semaphore_api" where
  "counting_semaphore =
     \<lparr>sem_new = (\<lambda>n. if n \<le> 0x1FFFFFFFFFFFFFFF then Some (unat n) else None),
      sem_acquire = (\<lambda>f. case f of 0 \<Rightarrow> None | Suc k \<Rightarrow> Some k), sem_release = Suc, sem_available = id\<rparr>"

lemma counting_laws: "semaphore_laws counting_semaphore"
  by (auto simp: semaphore_laws_def counting_semaphore_def split: nat.splits if_splits)

definition demo_sockets :: socket_api where
  "demo_sockets = \<lparr>std_bind = (\<lambda>a. Inr \<lparr>listener_addr = Inr a\<rparr>), set_nonblocking = Inr, from_std = Inr\<rparr>"

definition demo_merino :: merino where
  "demo_merino =
     \<lparr>srv_listeners = [\<lparr>listener_addr = Inr (SocketAddrV4 1 1080)\<rparr>, \<lparr>listener_addr = Inr (SocketAddrV4 2 1080)\<rparr>],
      srv_users = [], srv_auth_methods = [0], srv_timeout = None, max_connections = DEFAULT_MAX_CONNECTIONS,
      srv_dns_cache = None, per_ip = None, srv_stats = stats_new 0 0\<rparr>"

lemma demo_merino_new:
  "merino_new (\<lambda>_ _. Inr [SocketAddrV4 1 1080, SocketAddrV4 2 1080, SocketAddrV4 1 1080]) demo_sockets
     0 0 1080 (ascii ''host'') [0] [] None = Inr demo_merino"
  by (simp add: merino_new_def bind_all_def bind_listeners_def bind_listener_def demo_sockets_def demo_merino_def)

text \<open>The example server with one permit and one connection per source, after its first connection.\<close>

definition demo_settings :: "setting list" where
  "demo_settings = [SetMaxConnections 1, SetMaxConnectionsPerIp 1]"

definition demo_context :: server_context where
  "demo_context = \<lparr>ctx_users = [], ctx_auth_methods = [0], ctx_timeout = None\<rparr>"

definition demo_server :: "nat server" where
  "demo_server =
     \<lparr>free = 1, loops = [Acquiring, Acquiring], tasks = {#}, limiter = Some (limiter_new 1), cache = None,
      sstats = note_listeners [SocketAddrV4 1 1080, SocketAddrV4 2 1080] (stats_new 0 0)\<rparr>"

lemma one_le: "(1 :: usize) \<le> 0x1FFFFFFFFFFFFFFF"
  using inc_le [of 0 "0x1FFFFFFFFFFFFFFF :: usize"] by simp

lemma demo_serve:
  "\<exists>m. serve counting_semaphore (fold merino_set demo_settings demo_merino) = (m, Some demo_server) \<and>
     max_connections m = 1 \<and> per_ip m = Some (limiter_new 1)"
  by (simp add: serve_def Let_def demo_settings_def demo_merino_def demo_server_def merino_set_max_connections_def
      merino_set_max_connections_per_ip_def counting_semaphore_def List.map_filter_simps numeral_2_eq_2 one_le)

lemma demo_accepts:
  "\<exists>s. (server_step counting_semaphore ctx tokio_spawn)\<^sup>*\<^sup>* demo_server s \<and>
     size (tasks s) = 1 \<and> loops s = [Acquiring, Acquiring] \<and> (\<forall>t\<in>#tasks s. live_task t)"
proof -
  let ?st = "\<lparr>rx = [], rx_end = RxEof, tx_script = [], sent = []\<rparr>"
  let ?s1 = "demo_server\<lparr>free := 0, loops := (loops demo_server)[0 := Accepting]\<rparr>"
  let ?s2 = "on_accept counting_semaphore ctx tokio_spawn (Accepted ?st (SocketAddrV4 9 4000) None)
      (?s1\<lparr>loops := (loops ?s1)[0 := Acquiring]\<rparr>)"
  have "server_step counting_semaphore ctx tokio_spawn demo_server ?s1"
    by (rule server_step.acquire) (simp_all add: demo_server_def counting_semaphore_def)
  moreover have "server_step counting_semaphore ctx tokio_spawn ?s1 ?s2"
    by (rule server_step.accept) (simp_all add: demo_server_def)
  ultimately have "(server_step counting_semaphore ctx tokio_spawn)\<^sup>*\<^sup>* demo_server ?s2" by auto
  moreover have "size (tasks ?s2) = 1 \<and> loops ?s2 = [Acquiring, Acquiring] \<and> (\<forall>t\<in>#tasks ?s2. live_task t)"
    by (simp add: demo_server_def try_acquire_def limiter_new_def live_task_def)
  ultimately show ?thesis by blast
qed

text \<open>
  C5. The limits hold whatever connections and accept loops do: in every state a configured server
  reaches, the open connections together with the accept loops that wait for one are at most the
  configured maximum, the open connections of a source at most its cap, the names in the DNS cache at
  most its capacity, and the statistics list exactly the connections that are being served, in
  total and per source.
\<close>

theorem server_caps:
  assumes "semaphore_laws sem" "merino_new lookup api now unix port ip methods users tmo = Inr m0"
    and "\<forall>st. SetStats st \<in> set settings \<longrightarrow> idle_stats st"
    and "serve sem (fold merino_set settings m0) = (m, Some s0)"
    and "(server_step sem (merino_context m) tokio_spawn)\<^sup>*\<^sup>* s0 s"
  shows "size (filter_mset live_task (tasks s)) + count_list (loops s) Accepting \<le> unat (max_connections m) \<and>
    (\<forall>l. per_ip m = Some l \<longrightarrow>
       size (filter_mset (\<lambda>t. live_task t \<and> sock_ip (task_peer t) = ip') (tasks s)) \<le> unat (limit l)) \<and>
    (\<forall>d. cache s = Some d \<longrightarrow> (\<exists>d0. srv_dns_cache m = Some d0 \<and> length (entries d) \<le> max_entries d0)) \<and>
    length (client_rows (sstats s)) = size (filter_mset running (tasks s)) \<and>
    conns_of_ip (sstats s) ip' = size (filter_mset (\<lambda>t. running t \<and> sock_ip (task_peer t) = ip') (tasks s))"
proof -
  note reach = configured_reach [OF assms]
  from reach(1) obtain now' unix'
    where inv: "server_inv sem (unat (max_connections m)) (map_option limit (per_ip m)) now' unix' s" by blast
  have "\<exists>d0. srv_dns_cache m = Some d0 \<and> length (entries d) \<le> max_entries d0" if "cache s = Some d" for d
    using reach(4) [OF that] cache_reach_inv cache_reach_config by (fastforce simp: cache_inv_def dns_new_def)
  with server_inv_caps [OF inv] show ?thesis using reach(3) by fastforce
qed

theorem server_caps_witness:
  "\<exists>s. (server_step counting_semaphore demo_context tokio_spawn)\<^sup>*\<^sup>*
      demo_server s \<and> size (tasks s) = 1 \<and> size (filter_mset live_task (tasks s)) \<le> 1"
proof -
  obtain m where m: "serve counting_semaphore (fold merino_set demo_settings demo_merino) = (m, Some demo_server)"
    "max_connections m = 1" using demo_serve by blast
  obtain s where s: "(server_step counting_semaphore (merino_context m) tokio_spawn)\<^sup>*\<^sup>* demo_server s" "size (tasks s) = 1"
    using demo_accepts by blast
  have idle: "\<forall>st. SetStats st \<in> set demo_settings \<longrightarrow> idle_stats st" by (simp add: demo_settings_def)
  have "merino_context m = demo_context"
    using m(1) by (auto simp: serve_def Let_def demo_settings_def demo_merino_def merino_set_max_connections_def
        merino_set_max_connections_per_ip_def merino_context_def demo_context_def)
  with server_caps [OF counting_laws demo_merino_new idle m(1) s(1), of "IpV4 9"] m(2) s show ?thesis by auto
qed

text \<open>
  C6. \<open>run_client\<close>, with all it does to a client, is a run of a connection task: served from the server's
  statistics and DNS cache, it takes the task from \<open>Spawned\<close> to \<open>Ended\<close> in steps of the server that end
  with the statistics and the cache \<open>run_client\<close> leaves behind, whatever steps the other connections
  make on the cache while it waits. What holds in every reachable state of
  the server so holds with complete connections in place of their steps.
\<close>

theorem run_client_simulated:
  assumes t: "tasks s = add_mset t ts" "task_phase t = Spawned client" and ids: "ids_left (sstats s)"
    and others: "env_ok cooperative env"
    and run: "run_client env now (task_peer t) ((connection client (sstats s))\<lparr>dns_cache := cache s\<rparr>) = (Done (), c')"
  shows "(server_step sem ctx spawn)\<^sup>*\<^sup>* s
    (s\<lparr>sstats := shared c', cache := dns_cache c', tasks := add_mset (t\<lparr>task_phase := Ended\<rparr>) ts\<rparr>)"
proof -
  let ?c = "(connection client (sstats s))\<lparr>dns_cache := cache s\<rparr>"
  obtain g st where b: "begin_client now (task_peer t) (local_addr client) (sstats s) = (g, st)"
    by (cases "begin_client now (task_peer t) (local_addr client) (sstats s)")
  from run b obtain c1 where c1: "serve_client env (?c\<lparr>shared := st, client_id := Some (guard_id g),
      relay_counters := Some (guard_id g)\<rparr>) = (Done (), c1)"
    and c': "shared c' = drop_guard g (shared c1)" "dns_cache c' = dns_cache c1"
    by (auto simp: run_client_def bindA_Done_iff modify_Done_iff)
  let ?t = "t\<lparr>task_phase := Running g\<rparr>"
  let ?s1 = "s\<lparr>sstats := st, tasks := add_mset ?t ts\<rparr>"
  let ?s2 = "s\<lparr>sstats := shared c1, cache := dns_cache c1, tasks := add_mset ?t ts\<rparr>"
  have "server_step sem ctx spawn s ?s1" by (rule server_step.begin_run [OF t ids b])
  moreover have "noted (sstats ?s1) (shared c1)" "cached (cache ?s1) (dns_cache c1)"
    using keepsD [OF serve_client_cooperates [OF others] c1] by (simp_all add: guarantees_def)
  then have "(server_step sem ctx spawn)\<^sup>*\<^sup>* ?s1 (?s1\<lparr>sstats := shared c1, cache := dns_cache c1\<rparr>)"
    by (rule conn_steps [where t = ?t and g = g]) simp_all
  moreover have "?s1\<lparr>sstats := shared c1, cache := dns_cache c1\<rparr> = ?s2" by simp
  moreover have "server_step sem ctx spawn ?s2
      (?s2\<lparr>sstats := drop_guard g (sstats ?s2), tasks := add_mset (?t\<lparr>task_phase := Ended\<rparr>) ts\<rparr>)"
    by (rule server_step.end_run) simp_all
  moreover have "?s2\<lparr>sstats := drop_guard g (sstats ?s2), tasks := add_mset (?t\<lparr>task_phase := Ended\<rparr>) ts\<rparr> =
      s\<lparr>sstats := shared c', cache := dns_cache c', tasks := add_mset (t\<lparr>task_phase := Ended\<rparr>) ts\<rparr>" by (simp add: c')
  ultimately show ?thesis
    by (metis (no_types, lifting) converse_rtranclp_into_rtranclp rtranclp.rtrancl_into_rtrancl)
qed

theorem run_client_simulated_witness:
  "\<exists>st d. (server_step counting_semaphore demo_context tokio_spawn)\<^sup>*\<^sup>*
      (demo_server\<lparr>tasks := {#tokio_spawn (new_no_auth \<lparr>rx = [], rx_end = RxEof, tx_script = [], sent = []\<rparr> None)
          (SocketAddrV4 9 4000) Permit None#}\<rparr>)
      (demo_server\<lparr>sstats := st, cache := d, tasks := {#\<lparr>task_peer = SocketAddrV4 9 4000, task_permit = Some Permit,
          task_slot = None, task_phase = Ended\<rparr>#}\<rparr>)"
proof -
  let ?cl = "new_no_auth \<lparr>rx = [], rx_end = RxEof, tx_script = [], sent = []\<rparr> None"
  let ?s = "demo_server\<lparr>tasks := {#tokio_spawn ?cl (SocketAddrV4 9 4000) Permit None#}\<rparr>"
  let ?t = "tokio_spawn ?cl (SocketAddrV4 9 4000) Permit None"
  have "\<exists>c'. run_client (demo_env (\<lambda>_ _. None) []) 7 (task_peer ?t)
      ((connection ?cl (sstats ?s))\<lparr>dns_cache := cache ?s\<rparr>) = (Done (), c')"
    by (auto simp: run_client_def bindA_def modify_def serve_client_def init_def within_handshake_def negotiate_def
        io_def map_error_def on_stream_def read_exact_def connection_def new_no_auth_def sock_client.defs
        report_error_wire tx_ok_def split: prod.splits)
  then obtain c' where run: "run_client (demo_env (\<lambda>_ _. None) []) 7 (task_peer ?t)
      ((connection ?cl (sstats ?s))\<lparr>dns_cache := cache ?s\<rparr>) = (Done (), c')" ..
  have "tasks ?s = add_mset ?t {#}" "task_phase ?t = Spawned ?cl" "ids_left (sstats ?s)"
    "env_ok cooperative (demo_env (\<lambda>_ _. None) [])"
    by (simp_all add: demo_server_def ids_left_def note_listeners_def stats_new_def)
      (simp add: env_ok_def demo_env_def unresolved_def cooperative_def)
  from run_client_simulated [OF this run, of counting_semaphore demo_context tokio_spawn] show ?thesis
    by (auto simp: tokio_spawn_def)
qed

text \<open>
  C7. A connection may run in the midst of the others. Its registration fixes its notes on the
  statistics once and for all: the connection ends in the same way, with the same stream, and makes
  the same notes in the same order whatever the statistics are by then. However those notes are
  interleaved with steps of the server, its accept loops and other connections, up to the drop of
  the guard, the whole is a run of the server.
\<close>

theorem run_client_interleaves:
  assumes t: "tasks s = add_mset t ts" "task_phase t = Spawned client" and ids: "ids_left (sstats s)"
    and b: "begin_client now (task_peer t) (local_addr client) (sstats s) = (g, st)"
    and t': "t' = t\<lparr>task_phase := Running g\<rparr>"
    and c: "c = (connection client st)\<lparr>dns_cache := d, client_id := Some (guard_id g), relay_counters := Some (guard_id g)\<rparr>"
  shows "\<exists>p c' ops. (\<forall>st. serve_client env (c\<lparr>shared := st\<rparr>) = (p, c'\<lparr>shared := run_notes ops st\<rparr>)) \<and>
    (\<forall>s' ts'. interleaved sem ctx spawn t' ops (s\<lparr>sstats := st, tasks := add_mset t' ts\<rparr>) s' \<and> tasks s' = add_mset t' ts' \<longrightarrow>
      (server_step sem ctx spawn)\<^sup>*\<^sup>* s
        (s'\<lparr>sstats := drop_guard g (sstats s'), tasks := add_mset (t'\<lparr>task_phase := Ended\<rparr>) ts'\<rparr>))"
proof -
  from serve_client_footprint [of env] obtain p c' ops where ops: "runs (serve_client env) c p c' ops" by (rule keepsE)
  let ?s = "s\<lparr>sstats := st, tasks := add_mset t' ts\<rparr>"
  have "(server_step sem ctx spawn)\<^sup>*\<^sup>* s
      (s'\<lparr>sstats := drop_guard g (sstats s'), tasks := add_mset (t'\<lparr>task_phase := Ended\<rparr>) ts'\<rparr>)"
    if il: "interleaved sem ctx spawn t' ops ?s s'" and s': "tasks s' = add_mset t' ts'" for s' ts'
  proof -
    have running: "task_phase t' = Running g" by (simp add: t')
    have "server_step sem ctx spawn s ?s" unfolding t' by (rule server_step.begin_run [OF t ids b])
    moreover have "(server_step sem ctx spawn)\<^sup>*\<^sup>* ?s s'"
      using interleaved_steps [OF il running] ops by (simp add: runs_def)
    moreover have "server_step sem ctx spawn s'
        (s'\<lparr>sstats := drop_guard g (sstats s'), tasks := add_mset (t'\<lparr>task_phase := Ended\<rparr>) ts'\<rparr>)"
      by (rule server_step.end_run [OF s' running])
    ultimately show ?thesis by (meson converse_rtranclp_into_rtranclp rtranclp.rtrancl_into_rtrancl)
  qed
  with ops show ?thesis unfolding runs_def by blast
qed

theorem run_client_interleaves_witness:
  "\<exists>st. (server_step counting_semaphore demo_context tokio_spawn)\<^sup>*\<^sup>*
      (demo_server\<lparr>tasks := {#tokio_spawn (new_no_auth \<lparr>rx = [], rx_end = RxEof, tx_script = [], sent = []\<rparr> None)
          (SocketAddrV4 9 4000) Permit None#}\<rparr>)
      (demo_server\<lparr>sstats := st, tasks := {#\<lparr>task_peer = SocketAddrV4 9 4000, task_permit = Some Permit,
          task_slot = None, task_phase = Ended\<rparr>#}\<rparr>)"
proof -
  let ?cl = "new_no_auth \<lparr>rx = [], rx_end = RxEof, tx_script = [], sent = []\<rparr> None"
  let ?t = "tokio_spawn ?cl (SocketAddrV4 9 4000) Permit None"
  let ?s = "demo_server\<lparr>tasks := {#?t#}\<rparr>"
  obtain g st where b: "begin_client 7 (task_peer ?t) (local_addr ?cl) (sstats ?s) = (g, st)" by (rule prod.exhaust)
  let ?t' = "?t\<lparr>task_phase := Running g\<rparr>"
  have "tasks ?s = add_mset ?t {#}" "task_phase ?t = Spawned ?cl" "ids_left (sstats ?s)"
    by (simp_all add: demo_server_def ids_left_def note_listeners_def stats_new_def)
  from run_client_interleaves [OF this b refl refl, of "demo_env (\<lambda>_ _. None) []" None counting_semaphore demo_context tokio_spawn]
  obtain ops where "\<forall>s' ts'. interleaved counting_semaphore demo_context tokio_spawn ?t' ops
        (?s\<lparr>sstats := st, tasks := add_mset ?t' {#}\<rparr>) s' \<and> tasks s' = add_mset ?t' ts' \<longrightarrow>
      (server_step counting_semaphore demo_context tokio_spawn)\<^sup>*\<^sup>* ?s
        (s'\<lparr>sstats := drop_guard g (sstats s'), tasks := add_mset (?t'\<lparr>task_phase := Ended\<rparr>) ts'\<rparr>)" by blast
  from this [rule_format, OF conjI [OF interleaved_alone]] show ?thesis
    by (simp add: tokio_spawn_def) blast
qed

text \<open>
  C20. The accept loops do not lock up: while fewer connections than the maximum hold a permit (which
  is so when there is none, since the maximum is never zero), some loop waits in \<open>accept\<close> or every
  loop that waits for a permit can get one.
\<close>

theorem accept_loops_progress:
  assumes "semaphore_laws sem" "merino_new lookup api now unix port ip methods users tmo = Inr m0"
    and "\<forall>st. SetStats st \<in> set settings \<longrightarrow> idle_stats st"
    and "serve sem (fold merino_set settings m0) = (m, Some s0)"
    and "(server_step sem (merino_context m) tokio_spawn)\<^sup>*\<^sup>* s0 s"
  shows "0 < max_connections m \<and>
    (size (owned_permits s) < unat (max_connections m) \<longrightarrow>
       Accepting \<in> set (loops s) \<or> sem_acquire sem (free s) \<noteq> None)"
proof -
  note reach = configured_reach [OF assms]
  have "sem_available sem (free s) + count_list (loops s) Accepting + size (owned_permits s) = unat (max_connections m)"
    using reach(1) by (auto simp: server_inv_def permits_conserved_def)
  moreover have "Accepting \<in> set (loops s)" if "count_list (loops s) Accepting \<noteq> 0"
    using that by (metis count_notin)
  ultimately show ?thesis
    using reach(2) laws_simps(4) [OF assms(1), of "free s"] by force
qed

theorem accept_loops_progress_witness:
  "sem_acquire counting_semaphore (free demo_server) \<noteq> None"
proof -
  obtain m where m: "serve counting_semaphore (fold merino_set demo_settings demo_merino) = (m, Some demo_server)"
    "max_connections m = 1" using demo_serve by blast
  have idle: "\<forall>st. SetStats st \<in> set demo_settings \<longrightarrow> idle_stats st" by (simp add: demo_settings_def)
  have "size (owned_permits demo_server) = 0" "Accepting \<notin> set (loops demo_server)"
    by (simp_all add: owned_permits_def demo_server_def)
  with accept_loops_progress [OF counting_laws demo_merino_new idle m(1), of demo_server] m(2) show ?thesis by auto
qed

text \<open>
  C38. A loop that waits for a connection keeps its permit. With more listeners than permitted
  connections the server therefore reaches, with no connection open, a state in which the listeners
  beyond the maximum are not served: nothing can happen before one of the others accepts.
\<close>

theorem idle_loops_starve_listeners:
  assumes laws: "semaphore_laws sem" and started: "serve sem m = (m', Some s0)"
    and few: "unat (max_connections m) < length (srv_listeners m)"
  shows "\<exists>s. (server_step sem ctx spawn)\<^sup>*\<^sup>* s0 s \<and> tasks s = {#} \<and>
    loops s = replicate (unat (max_connections m)) Accepting @
      replicate (length (srv_listeners m) - unat (max_connections m)) Acquiring \<and>
    (\<forall>s'. server_step sem ctx spawn s s' \<longrightarrow>
       (\<exists>i < unat (max_connections m). loops s' = (loops s)[i := Acquiring]))"
proof -
  let ?n = "unat (max_connections m)" and ?L = "length (srv_listeners m)"
  from started have "loops s0 = replicate ?L Acquiring" "tasks s0 = {#}" "sem_available sem (free s0) = ?n"
    using laws_simps(3) [OF laws] by (auto simp: serve_def Let_def)
  from acquire_permits [OF laws this, of ?n ctx spawn] few obtain s where s: "(server_step sem ctx spawn)\<^sup>*\<^sup>* s0 s"
    "tasks s = {#}" "loops s = replicate ?n Accepting @ replicate (?L - ?n) Acquiring" "sem_available sem (free s) = 0"
    by auto
  from s(4) have none: "sem_acquire sem (free s) = None" by (simp add: laws_simps(4) [OF laws])
  have only: "i < ?n" if "loops s ! i = Accepting" "i < length (loops s)" for i
    using that s(3) by (auto simp: nth_append split: if_splits)
  have "\<exists>i < ?n. loops s' = (loops s)[i := Acquiring]" if "server_step sem ctx spawn s s'" for s'
    using that
  proof cases
    case (accept i res)
    have "loops (on_accept sem ctx spawn res t) = loops t" for t
      by (cases res) (auto simp: release_permit_def split: prod.splits option.splits)
    with accept only [of i] show ?thesis by auto
  qed (use s(2) none in auto)
  with s show ?thesis by blast
qed

theorem idle_loops_starve_listeners_witness:
  "\<exists>s. (server_step counting_semaphore demo_context tokio_spawn)\<^sup>*\<^sup>* demo_server s \<and> tasks s = {#} \<and>
     loops s = [Accepting, Acquiring]"
proof -
  obtain m where m: "serve counting_semaphore (fold merino_set demo_settings demo_merino) = (m, Some demo_server)"
    using demo_serve by blast
  have n: "max_connections (fold merino_set demo_settings demo_merino) = 1"
    "length (srv_listeners (fold merino_set demo_settings demo_merino)) = 2"
    by (simp_all add: demo_settings_def demo_merino_def merino_set_max_connections_def
        merino_set_max_connections_per_ip_def)
  with idle_loops_starve_listeners [OF counting_laws m, of demo_context tokio_spawn] show ?thesis by auto
qed

text \<open>
  C32. The two front ends are the same server: given the same arguments and settings they start with
  the same shared state (but for the listener addresses, which \<open>Merino\<close> enters into the statistics
  itself), hand the same context to the accept loops and run a connection as the same task, which
  owns the permit and the slot it was given and registers with the statistics of the server.
\<close>

theorem front_ends_agree:
  assumes "merino_new lookup api now unix port ip methods users tmo = Inr m"
    and "socks_bind lookup api now unix port ip methods users tmo = Inr a"
  shows "snd (serve sem (fold merino_set settings m)) =
      map_option (\<lambda>s. s\<lparr>sstats := note_listeners (socks_local_addrs (fold socks_set settings a)) (sstats s)\<rparr>)
        (snd (socks_started sem (fold socks_set settings a))) \<and>
    merino_context (fold merino_set settings m) = socks_context (fold socks_set settings a) \<and>
    tokio_spawn = actor_spawn \<and>
    actor_spawn client client_addr permit slot =
      \<lparr>task_peer = client_addr, task_permit = Some permit, task_slot = slot, task_phase = Spawned client\<rparr>"
proof -
  have "same_config m a" using assms by (auto simp: same_config_def merino_new_def socks_bind_def bindE_Inr_iff)
  from same_config_fold [OF this] show ?thesis
    by (auto simp: same_config_def serve_def socks_started_def Let_def socks_local_addrs_def merino_context_def
        socks_context_def actor_spawn_tokio tokio_spawn_def collect_addrs_filter split: option.splits)
qed

theorem front_ends_agree_witness:
  "\<exists>a. socks_bind (\<lambda>_ _. Inr [SocketAddrV4 1 1080, SocketAddrV4 2 1080, SocketAddrV4 1 1080]) demo_sockets
      0 0 1080 (ascii ''host'') [0] [] None = Inr a \<and>
    snd (serve counting_semaphore (fold merino_set demo_settings demo_merino)) =
      map_option (\<lambda>s. s\<lparr>sstats := note_listeners (socks_local_addrs (fold socks_set demo_settings a)) (sstats s)\<rparr>)
        (snd (socks_started counting_semaphore (fold socks_set demo_settings a)))"
proof -
  obtain a where a: "socks_bind (\<lambda>_ _. Inr [SocketAddrV4 1 1080, SocketAddrV4 2 1080, SocketAddrV4 1 1080]) demo_sockets
      0 0 1080 (ascii ''host'') [0] [] None = Inr a"
    by (simp add: socks_bind_def bind_all_def bind_listeners_def bind_listener_def demo_sockets_def)
  with front_ends_agree [OF demo_merino_new a, of counting_semaphore demo_settings] show ?thesis by blast
qed

end
