(* ===== verification/Http.thy ===== *)
theory Http
  imports Server
begin

text \<open>
  The statistics service of \<open>src/stats/http.rs\<close>: reading and parsing a request head, the token
  check, the routes, conditional responses, and the accept loop with its own connection budget.

  Text is UTF-8 as bytes; the string methods of the standard library that the parser uses
  (\<open>lines\<close>, \<open>split_whitespace\<close>, \<open>trim\<close>, \<open>split_once\<close>, \<open>eq_ignore_ascii_case\<close>) are defined first. A
  white-space character is recognised by its encoding. Parameters, in \<open>http_env\<close>: the JSON
  serializer (the \<open>serde_json\<close> crate; \<open>None\<close> is its error), the hash of \<open>DefaultHasher\<close> (whose
  algorithm the standard library leaves unspecified), the dashboard page, and the number of bytes
  the transport hands over at each read.
\<close>

section \<open>Strings\<close>

text \<open>The length in bytes of the \<open>White_Space\<close> character a text starts with, 0 if it starts with another.\<close>

definition ws_len :: "bytes \<Rightarrow> nat" where
  "ws_len bs =
     (case bs of
        [] \<Rightarrow> 0
      | b # r \<Rightarrow>
          if 9 \<le> b \<and> b \<le> 13 \<or> b = 32 then 1
          else if b = 0xC2 \<and> take 1 r \<in> {[0x85], [0xA0]} then 2
          else if b = 0xE1 \<and> take 2 r = [0x9A, 0x80] then 3
          else if b = 0xE2 \<and>
            (take 2 r \<in> {[0x80, 0xA8], [0x80, 0xA9], [0x80, 0xAF], [0x81, 0x9F]} \<or>
             (\<exists>c \<in> {0x80, 0x81, 0x82, 0x83, 0x84, 0x85, 0x86, 0x87, 0x88, 0x89, 0x8A}. take 2 r = [0x80, c]))
          then 3
          else if b = 0xE3 \<and> take 2 r = [0x80, 0x80] then 3
          else 0)"

lemma ws_len_Nil [simp]: "ws_len [] = 0"
  by (simp add: ws_len_def)

function trim_start :: "bytes \<Rightarrow> bytes" where
  "trim_start bs = (if ws_len bs = 0 then bs else trim_start (drop (ws_len bs) bs))"
  by auto
termination
proof (relation "measure length")
  fix bs :: bytes
  assume "ws_len bs \<noteq> 0"
  then show "(drop (ws_len bs) bs, bs) \<in> measure length" by (cases bs) auto
qed simp

declare trim_start.simps [simp del]

fun trim_end :: "bytes \<Rightarrow> bytes" where
  "trim_end [] = []"
| "trim_end (b # bs) = (if trim_start (b # bs) = [] then [] else b # trim_end bs)"

definition trim :: "bytes \<Rightarrow> bytes" where
  "trim bs = trim_end (trim_start bs)"

text \<open>The bytes up to the next white space (or the end).\<close>

fun word_prefix :: "bytes \<Rightarrow> bytes" where
  "word_prefix [] = []"
| "word_prefix (b # bs) = (if ws_len (b # bs) \<noteq> 0 then [] else b # word_prefix bs)"

lemma length_word_prefix: "length (word_prefix bs) \<le> length bs"
  by (induction bs) auto

lemma length_trim_start: "length (trim_start bs) \<le> length bs"
proof (induction bs rule: trim_start.induct)
  case (1 bs)
  then show ?case by (subst trim_start.simps) auto
qed

lemma trim_start_stop: "ws_len (trim_start bs) = 0"
proof (induction bs rule: trim_start.induct)
  case (1 bs)
  then show ?case by (subst trim_start.simps) auto
qed

function split_whitespace :: "bytes \<Rightarrow> bytes list" where
  "split_whitespace bs =
     (let r = trim_start bs in
      if r = [] then [] else word_prefix r # split_whitespace (drop (length (word_prefix r)) r))"
  by auto
termination
proof (relation "measure length")
  fix bs r :: bytes
  assume r: "r = trim_start bs" and "r \<noteq> []"
  then have "ws_len r = 0" "length r \<le> length bs"
    by (simp_all add: trim_start_stop length_trim_start)
  moreover from this(1) \<open>r \<noteq> []\<close> have "0 < length (word_prefix r)" by (cases r) simp_all
  moreover have "length (word_prefix r) \<le> length r" by (rule length_word_prefix)
  ultimately show "(drop (length (word_prefix r)) r, bs) \<in> measure length"
    by (simp del: length_greater_0_conv)
qed simp

declare split_whitespace.simps [simp del]

definition split_once :: "u8 \<Rightarrow> bytes \<Rightarrow> (bytes \<times> bytes) option" where
  "split_once sep bs =
     (case dropWhile (\<lambda>b. b \<noteq> sep) bs of
        [] \<Rightarrow> None
      | _ # after_sep \<Rightarrow> Some (takeWhile (\<lambda>b. b \<noteq> sep) bs, after_sep))"

text \<open>\<open>str::lines\<close>: a line ends in \<open>\n\<close> or \<open>\r\n\<close>; the last one may end without.\<close>

definition strip_cr :: "bytes \<Rightarrow> bytes" where
  "strip_cr l = (if l \<noteq> [] \<and> last l = 13 then butlast l else l)"

fun lines_from :: "bytes \<Rightarrow> bytes \<Rightarrow> bytes list" where
  "lines_from line [] = (if line = [] then [] else [line])"
| "lines_from line (b # bs) =
     (if b = 10 then strip_cr line # lines_from [] bs else lines_from (line @ [b]) bs)"

definition text_lines :: "bytes \<Rightarrow> bytes list" where
  "text_lines = lines_from []"

definition lower :: "u8 \<Rightarrow> u8" where
  "lower b = (if 0x41 \<le> b \<and> b \<le> 0x5A then b + 0x20 else b)"

definition eq_ignore_ascii_case :: "bytes \<Rightarrow> bytes \<Rightarrow> bool" where
  "eq_ignore_ascii_case a b \<longleftrightarrow> map lower a = map lower b"

definition crlf :: bytes where
  "crlf = [13, 10]"

text \<open>The position of the first occurrence of a pattern.\<close>

fun find_at :: "bytes \<Rightarrow> bytes \<Rightarrow> nat option" where
  "find_at pat [] = (if pat = [] then Some 0 else None)"
| "find_at pat (b # bs) =
     (if take (length pat) (b # bs) = pat then Some 0 else map_option Suc (find_at pat bs))"

section \<open>Requests\<close>

definition MAX_STATS_SOCKETS :: usize where
  "MAX_STATS_SOCKETS = 64"

definition MAX_HEAD :: nat where
  "MAX_HEAD = 8192"

record parsed_head =
  req_method :: bytes
  path :: bytes
  bearer :: "bytes option"
  if_none_match :: "bytes option"

record http_env =
  json_stats :: "snapshot \<Rightarrow> bytes option"
  json_clients :: "client_view list \<Rightarrow> bytes option"
  body_hash :: "bytes \<Rightarrow> u64"
  dashboard_html :: bytes
  read_sizes :: "nat \<Rightarrow> nat"

definition has_header_end :: "bytes \<Rightarrow> bool" where
  "has_header_end got \<longleftrightarrow> find_at (crlf @ crlf) got \<noteq> None"

definition header_bytes :: "bytes \<Rightarrow> bytes" where
  "header_bytes got =
     (case find_at (crlf @ crlf) got of Some end_pos \<Rightarrow> take end_pos got | None \<Rightarrow> got)"

fun parse_headers :: "bytes list \<Rightarrow> parsed_head \<Rightarrow> parsed_head" where
  "parse_headers [] req = req"
| "parse_headers (line # lines) req =
     (case split_once 0x3A line of
        None \<Rightarrow> parse_headers lines req
      | Some (name, value) \<Rightarrow>
          if eq_ignore_ascii_case (trim name) (ascii ''authorization'') then
            (case split_once 0x20 (trim value) of
               Some (scheme, credential) \<Rightarrow>
                 if eq_ignore_ascii_case scheme (ascii ''bearer'')
                 then parse_headers lines (req\<lparr>bearer := Some (trim credential)\<rparr>)
                 else parse_headers lines req
             | None \<Rightarrow> parse_headers lines req)
          else if eq_ignore_ascii_case (trim name) (ascii ''if-none-match'')
          then parse_headers lines (req\<lparr>if_none_match := Some (trim value)\<rparr>)
          else parse_headers lines req)"

definition parse_head :: "bytes \<Rightarrow> parsed_head option" where
  "parse_head got =
     (let text = header_bytes got in
      if \<not> valid_utf8 text then None
      else
        (case text_lines text of
           [] \<Rightarrow> None
         | request_line # lines \<Rightarrow>
             (case split_whitespace request_line of
                m # t # _ \<Rightarrow>
                  Some (parse_headers lines
                    \<lparr>req_method = m, path = takeWhile (\<lambda>b. b \<noteq> 0x3F) t, bearer = None, if_none_match = None\<rparr>)
              | _ \<Rightarrow> None)))"

text \<open>The loop of \<open>read_head\<close>; \<open>k\<close> counts its reads.\<close>

function read_head_loop ::
  "(nat \<Rightarrow> nat) \<Rightarrow> nat \<Rightarrow> bytes \<Rightarrow> (stream, error_kind, bytes option) async" where
  "read_head_loop sizes k got s =
     (case read_some 512 (sizes k) s of
        (Done data, s') \<Rightarrow>
          if data = [] then (Done (if got = [] then None else Some got), s')
          else if has_header_end (got @ data) then (Done (Some (got @ data)), s')
          else if length (got @ data) > MAX_HEAD then (Done None, s')
          else read_head_loop sizes (Suc k) (got @ data) s'
      | (Raise e, s') \<Rightarrow> (Raise e, s')
      | (Pending, s') \<Rightarrow> (Pending, s')
      | (Panicked, s') \<Rightarrow> (Panicked, s'))"
  by pat_completeness auto
termination
  by (relation "measure (\<lambda>(_, _, _, s). length (rx s))")
    (auto simp: read_some_def Let_def split: if_splits rx_end.splits)

declare read_head_loop.simps [simp del]

definition read_head :: "(nat \<Rightarrow> nat) \<Rightarrow> (stream, error_kind, bytes option) async" where
  "read_head sizes = read_head_loop sizes 0 []"

section \<open>Responses\<close>

definition response_head :: "bytes \<Rightarrow> bytes \<Rightarrow> nat \<Rightarrow> (bytes \<times> bytes) list \<Rightarrow> bytes" where
  "response_head status content_type len headers =
     ascii ''HTTP/1.1 '' @ status @ crlf @ ascii ''Content-Type: '' @ content_type @ crlf @
     ascii ''Content-Length: '' @ decimal len @ crlf @ ascii ''Connection: close'' @ crlf @
     concat (map (\<lambda>(name, value). name @ ascii '': '' @ value @ crlf) headers) @ crlf"

definition respond ::
  "bytes \<Rightarrow> bytes \<Rightarrow> bytes \<Rightarrow> (bytes \<times> bytes) list \<Rightarrow> (stream, error_kind, unit) async" where
  "respond status content_type body headers =
     bindA (write_all (response_head status content_type (length body) headers)) (\<lambda>_.
     bindA (write_all body) (\<lambda>_. shutdown_stream))"

definition plain :: "string \<Rightarrow> string \<Rightarrow> (bytes \<times> bytes) list \<Rightarrow> (stream, error_kind, unit) async" where
  "plain status body headers = respond (ascii status) (ascii ''text/plain'') (ascii body @ [10]) headers"

definition etag_of :: "http_env \<Rightarrow> bytes \<Rightarrow> bytes" where
  "etag_of env body =
     (let h = hex (unat (body_hash env body)) in [0x22] @ replicate (16 - length h) 0x30 @ h @ [0x22])"

definition serve_json :: "http_env \<Rightarrow> parsed_head \<Rightarrow> bytes option \<Rightarrow> (stream, error_kind, unit) async" where
  "serve_json env request serialized =
     (let body = (case serialized of Some b \<Rightarrow> b | None \<Rightarrow> ascii ''{}''); etag = etag_of env body in
      if if_none_match request = Some etag
      then respond (ascii ''304 Not Modified'') (ascii ''application/json'') [] [(ascii ''ETag'', etag)]
      else respond (ascii ''200 OK'') (ascii ''application/json'') body
             [(ascii ''ETag'', etag), (ascii ''Cache-Control'', ascii ''no-store'')])"

definition route ::
  "http_env \<Rightarrow> nat \<Rightarrow> dns_cache \<Rightarrow> stats \<Rightarrow> parsed_head \<Rightarrow> (stream, error_kind, unit) async" where
  "route env now d st request =
     (if path request = ascii ''/'' then
        respond (ascii ''200 OK'') (ascii ''text/html; charset=utf-8'') (dashboard_html env) []
      else if path request = ascii ''/stats'' then serve_json env request (json_stats env (stats_snapshot now d st))
      else if path request = ascii ''/clients'' then serve_json env request (json_clients env (clients_view now st))
      else if path request = ascii ''/healthz'' then
        respond (ascii ''200 OK'') (ascii ''text/plain'')
          (ascii ''ok uptime_secs='' @ decimal (sv_uptime_secs (sn_server (stats_snapshot now d st))) @ [10]) []
      else plain ''404 Not Found'' ''not found'' [])"

definition handle_conn ::
  "http_env \<Rightarrow> nat \<Rightarrow> dns_cache \<Rightarrow> stats \<Rightarrow> bytes option \<Rightarrow> (stream, error_kind, unit) async" where
  "handle_conn env now d st token =
     bindA (read_head (read_sizes env)) (\<lambda>read.
     case read of
       None \<Rightarrow> plain ''400 Bad Request'' ''bad request'' []
     | Some head \<Rightarrow>
         (case parse_head head of
            None \<Rightarrow> plain ''400 Bad Request'' ''bad request'' []
          | Some request \<Rightarrow>
              if req_method request \<noteq> ascii ''GET'' then
                plain ''405 Method Not Allowed'' ''method not allowed'' [(ascii ''Allow'', ascii ''GET'')]
              else if (case token of
                         Some expected \<Rightarrow>
                           \<not> (case bearer request of Some given \<Rightarrow> ct_eq_token expected given | None \<Rightarrow> False)
                       | None \<Rightarrow> False)
              then plain ''401 Unauthorized'' ''unauthorized'' []
              else route env now d st request))"

text \<open>
  The accept loop: a budget of its own, one permit per connection; the task of a connection ends
  when \<open>handle_conn\<close> does or when its time is over.
\<close>

definition stats_connection ::
  "http_env \<Rightarrow> nat \<Rightarrow> dns_cache \<Rightarrow> stats \<Rightarrow> bytes option \<Rightarrow> (stream, error_kind, unit) async" where
  "stats_connection env now d st token s =
     (case handle_conn env now d st token s of
        (Panicked, s') \<Rightarrow> (Panicked, s')
      | (_, s') \<Rightarrow> (Done (), s'))"

record 'sem stats_service =
  svc_free :: 'sem
  svc_loop :: loop_phase
  svc_open :: nat

inductive serve_stats_step :: "'sem semaphore_api \<Rightarrow> 'sem stats_service \<Rightarrow> 'sem stats_service \<Rightarrow> bool"
  for sem where
  svc_acquire: "svc_loop s = Acquiring \<Longrightarrow> sem_acquire sem (svc_free s) = Some f \<Longrightarrow>
    serve_stats_step sem s (s\<lparr>svc_free := f, svc_loop := Accepting\<rparr>)"
| svc_accept: "svc_loop s = Accepting \<Longrightarrow>
    serve_stats_step sem s (s\<lparr>svc_loop := Acquiring, svc_open := Suc (svc_open s)\<rparr>)"
| svc_accept_error: "svc_loop s = Accepting \<Longrightarrow>
    serve_stats_step sem s (s\<lparr>svc_loop := Acquiring, svc_free := sem_release sem (svc_free s)\<rparr>)"
| svc_close: "svc_open s = Suc n \<Longrightarrow>
    serve_stats_step sem s (s\<lparr>svc_open := n, svc_free := sem_release sem (svc_free s)\<rparr>)"

definition serve_stats_start :: "'sem semaphore_api \<Rightarrow> 'sem stats_service option" where
  "serve_stats_start sem =
     map_option (\<lambda>f. \<lparr>svc_free = f, svc_loop = Acquiring, svc_open = 0\<rparr>) (sem_new sem MAX_STATS_SOCKETS)"

section \<open>Reading a head\<close>

lemma find_at_bound: "find_at pat h = Some i \<Longrightarrow> i + length pat \<le> length h"
proof (induction h arbitrary: i)
  case (Cons b bs)
  show ?case
  proof (cases "take (length pat) (b # bs) = pat")
    case True
    with Cons.prems show ?thesis by (metis add_0 find_at.simps(2) length_take min.cobounded1 option.sel)
  next
    case False
    with Cons show ?thesis by auto
  qed
qed (simp split: if_splits)

lemma find_at_append: "find_at pat h = Some i \<Longrightarrow> find_at pat (h @ r) = Some i"
proof (induction h arbitrary: i)
  case Nil
  then show ?case by (cases r) (auto split: if_splits)
next
  case (Cons b bs)
  have "take (length pat) ((b # bs) @ r) = take (length pat) (b # bs)"
    using find_at_bound [OF Cons.prems] by (simp only: take_append) simp
  with Cons show ?case by (auto split: if_splits)
qed

lemma header_end_append:
  assumes "has_header_end h"
  shows "has_header_end (h @ r)" "header_bytes (h @ r) = header_bytes h"
proof -
  from assms obtain i where i: "find_at (crlf @ crlf) h = Some i" by (auto simp: has_header_end_def)
  with find_at_append [OF i, of r] find_at_bound [OF i]
  show "has_header_end (h @ r)" "header_bytes (h @ r) = header_bytes h"
    by (simp_all add: has_header_end_def header_bytes_def)
qed

lemma read_head_step:
  assumes "read_some 512 (sizes k) s = (p, s1)"
  shows "read_head_loop sizes k got s =
     (case p of
        Done data \<Rightarrow>
          if data = [] then (Done (if got = [] then None else Some got), s1)
          else if has_header_end (got @ data) then (Done (Some (got @ data)), s1)
          else if length (got @ data) > MAX_HEAD then (Done None, s1)
          else read_head_loop sizes (Suc k) (got @ data) s1
      | Raise e \<Rightarrow> (Raise e, s1)
      | Pending \<Rightarrow> (Pending, s1)
      | Panicked \<Rightarrow> (Panicked, s1))"
  using assms by (subst read_head_loop.simps) simp

lemma calm_read_head [calm_intros]: "calm (read_head sizes)"
proof -
  have "fst (read_head_loop sizes k got s) \<noteq> Panicked" for k got s
  proof (induction sizes k got s rule: read_head_loop.induct)
    case (1 sizes k got s)
    obtain p s1 where rd: "read_some 512 (sizes k) s = (p, s1)" by (cases "read_some 512 (sizes k) s")
    from read_some_frame [OF rd] 1 rd show ?case
      by (cases p) (simp_all add: read_head_step [of sizes k s p s1, OF rd])
  qed
  then show ?thesis by (simp add: calm_def read_head_def)
qed

text \<open>
  A head that the loop returns is what the stream delivered, bounded, and complete or followed by
  the end of the stream.
\<close>

lemma read_head_loop_Some:
  assumes "read_head_loop sizes k got s = (Done (Some head), s')" "length got \<le> MAX_HEAD"
  shows "length head \<le> MAX_HEAD + 512 \<and> got @ rx s = head @ rx s' \<and> sent s' = sent s \<and> tx_script s' = tx_script s \<and>
    (has_header_end head \<or> rx s' = [] \<and> rx_end s = RxEof)"
  using assms
proof (induction "length (rx s)" arbitrary: k got s rule: less_induct)
  case less
  obtain p s1 where rd: "read_some 512 (sizes k) s = (p, s1)" by (cases "read_some 512 (sizes k) s")
  note run = less.prems(1) [unfolded read_head_step [of sizes k s p s1, OF rd]] and fr = read_some_frame [OF rd]
  show ?case
  proof (cases p)
    case (Done data)
    have "0 < (512 :: nat)" by simp
    note d = read_some_Done [OF rd [unfolded Done] this]
    have len: "length data \<le> 512"
      using rd Done by (auto simp: read_some_def Let_def split: if_splits rx_end.splits)
    have rx: "rx s = data @ rx s1" by (rule conjunct1 [OF d])
    have eof: "data = [] \<Longrightarrow> rx s1 = [] \<and> rx_end s = RxEof" using d by (metis append_is_Nil_conv)
    consider "data = []" | "data \<noteq> []" "has_header_end (got @ data)"
      | "data \<noteq> []" "\<not> has_header_end (got @ data)" "length (got @ data) > MAX_HEAD"
      | "data \<noteq> []" "\<not> has_header_end (got @ data)" "length (got @ data) \<le> MAX_HEAD" by force
    then show ?thesis
    proof cases
      case 1
      with run Done have "head = got" "s' = s1" by (simp_all split: if_splits)
      with 1 eof fr rx less.prems(2) show ?thesis by simp
    next
      case 2
      with run Done have "head = got @ data" "s' = s1" by simp_all
      with 2 fr rx len less.prems(2) show ?thesis by simp
    next
      case 3
      with run Done show ?thesis by simp
    next
      case 4
      with run Done have run1: "read_head_loop sizes (Suc k) (got @ data) s1 = (Done (Some head), s')" by simp
      have "length (rx s1) < length (rx s)" using rx 4(1) by simp
      from less.hyps [OF this run1 4(3)] show ?thesis unfolding rx using fr by simp
    qed
  qed (use run in simp_all)
qed

text \<open>A head of admissible length is read to its end, however the transport cuts it.\<close>

lemma read_head_loop_complete:
  assumes "got @ rx s = h @ rest" "has_header_end h" "length h \<le> MAX_HEAD" "\<not> has_header_end got"
  shows "\<exists>head s'. read_head_loop sizes k got s = (Done (Some head), s') \<and> header_bytes head = header_bytes h"
  using assms
proof (induction "length (rx s)" arbitrary: k got s rule: less_induct)
  case less
  have "length got < length h"
  proof (rule ccontr)
    assume "\<not> length got < length h"
    with less.prems(1) have "got = h @ drop (length h) got"
      by (metis append_eq_append_conv_if append_take_drop_id linorder_not_less)
    with header_end_append(1) [OF less.prems(2)] less.prems(4) show False by metis
  qed
  with less.prems(1) have ne: "rx s \<noteq> []" by (metis append_Nil2 length_append not_add_less1)
  define data where "data = take (min 512 (max 1 (sizes k))) (rx s)"
  define s1 where "s1 = s\<lparr>rx := drop (min 512 (max 1 (sizes k))) (rx s)\<rparr>"
  have rd: "read_some 512 (sizes k) s = (Done data, s1)"
    using ne by (simp add: read_some_def Let_def data_def s1_def)
  have data: "data \<noteq> []" "rx s = data @ rx s1" using ne by (simp_all add: data_def s1_def)
  show ?case
  proof (cases "has_header_end (got @ data)")
    case True
    have "header_bytes (got @ data) = header_bytes h"
      using header_end_append(2) [OF True, of "rx s1"] header_end_append(2) [OF less.prems(2), of rest]
        less.prems(1) data(2) by simp
    with True data(1) show ?thesis by (simp add: read_head_step [of sizes k s "Done data" s1, OF rd])
  next
    case False
    have "length (got @ data) \<le> MAX_HEAD"
    proof (rule ccontr)
      assume "\<not> length (got @ data) \<le> MAX_HEAD"
      with less.prems(3) have "length h \<le> length (got @ data)" by simp
      moreover have "(got @ data) @ rx s1 = h @ rest" using less.prems(1) data(2) by simp
      ultimately have "got @ data = h @ drop (length h) (got @ data)"
        by (metis append_eq_append_conv_if append_take_drop_id)
      with header_end_append(1) [OF less.prems(2)] False show False by metis
    qed
    moreover have "length (rx s1) < length (rx s)" using data by simp
    ultimately show ?thesis
      using less.hyps [of s1 "got @ data" "Suc k"] less.prems(1-3) data False
      by (simp add: read_head_step [of sizes k s "Done data" s1, OF rd])
  qed
qed

lemma read_head_complete:
  assumes "rx s = h @ rest" "has_header_end h" "length h \<le> MAX_HEAD"
  shows "\<exists>head s'. read_head sizes s = (Done (Some head), s') \<and> header_bytes head = header_bytes h \<and>
    sent s' = sent s \<and> tx_script s' = tx_script s"
proof -
  have "\<not> has_header_end []" by (simp add: has_header_end_def crlf_def)
  then obtain head s' where "read_head sizes s = (Done (Some head), s')" "header_bytes head = header_bytes h"
    using read_head_loop_complete [of "[]" s h rest sizes 0] assms by (auto simp: read_head_def)
  with read_head_loop_Some [of sizes 0 "[]" s head s'] show ?thesis by (auto simp: read_head_def)
qed

lemma parse_head_cong: "header_bytes a = header_bytes b \<Longrightarrow> parse_head a = parse_head b"
  by (simp add: parse_head_def)

section \<open>Responses\<close>

lemma respond_sends:
  assumes "tx_ok 3 s"
  shows "\<exists>s'. respond status ct body hs s = (Done (), s') \<and>
    sent s' = sent s @ [Sent (response_head status ct (length body) hs), Sent body, Shut]"
proof -
  have "tx_script s = [] \<or> tx_script s = [TxOk] \<or> tx_script s = [TxOk, TxOk] \<or> (\<exists>r. tx_script s = TxOk # TxOk # TxOk # r)"
    using assms by (cases "tx_script s" rule: remdups_adj.cases; cases "tl (tl (tx_script s))")
      (auto simp: tx_ok_def numeral_3_eq_3)
  then show ?thesis
    by (elim disjE exE) (simp_all add: respond_def bindA_def write_all_def shutdown_stream_def next_tx_def)
qed

text \<open>
  The refusal a request without the token gets, from what was read of it alone: it cannot be parsed,
  its method is not \<open>GET\<close>, or it lacks the token.
\<close>

definition refusal_of :: "bytes option \<Rightarrow> string \<times> string \<times> (bytes \<times> bytes) list" where
  "refusal_of got =
     (case Option.bind got parse_head of
        None \<Rightarrow> (''400 Bad Request'', ''bad request'', [])
      | Some req \<Rightarrow>
          if req_method req \<noteq> ascii ''GET''
          then (''405 Method Not Allowed'', ''method not allowed'', [(ascii ''Allow'', ascii ''GET'')])
          else (''401 Unauthorized'', ''unauthorized'', []))"

section \<open>Parsing ASCII requests\<close>

definition ascii_ws :: "u8 \<Rightarrow> bool" where
  "ascii_ws b \<longleftrightarrow> 9 \<le> b \<and> b \<le> 13 \<or> b = 32"

definition visible :: "u8 \<Rightarrow> bool" where
  "visible b \<longleftrightarrow> 0x21 \<le> b \<and> b \<le> 0x7E"

lemma visible_facts: "visible b \<Longrightarrow> b < 0x80 \<and> \<not> ascii_ws b \<and> b \<noteq> 13 \<and> b \<noteq> 10 \<and> b \<noteq> 32"
  by (auto simp: visible_def ascii_ws_def word_le_nat_alt word_less_nat_alt)

lemma ws_len_ascii: "b < 0x80 \<Longrightarrow> ws_len (b # r) = (if ascii_ws b then 1 else 0)"
  by (auto simp: ws_len_def ascii_ws_def)

lemma trim_start_ascii: "\<forall>b\<in>set bs. b < 0x80 \<Longrightarrow> trim_start bs = dropWhile ascii_ws bs"
proof (induction bs)
  case Nil
  show ?case by (subst trim_start.simps) simp
next
  case (Cons b bs)
  then show ?case by (subst trim_start.simps) (simp add: ws_len_ascii)
qed

lemma word_prefix_ascii: "\<forall>b\<in>set bs. b < 0x80 \<Longrightarrow> word_prefix bs = takeWhile (\<lambda>b. \<not> ascii_ws b) bs"
  by (induction bs) (auto simp: ws_len_ascii)

lemma trim_end_ascii:
  "\<forall>b\<in>set bs. b < 0x80 \<Longrightarrow> bs \<noteq> [] \<longrightarrow> \<not> ascii_ws (last bs) \<Longrightarrow> trim_end bs = bs"
proof (induction bs)
  case (Cons b bs)
  have "last (b # bs) \<in> set (b # bs)" by (rule last_in_set) simp
  moreover have "\<not> ascii_ws (last (b # bs))" using Cons.prems(2) by blast
  ultimately have "dropWhile ascii_ws (b # bs) \<noteq> []" unfolding dropWhile_eq_Nil_conv by blast
  with Cons trim_start_ascii [of "b # bs"] show ?case by (cases "bs = []") auto
qed simp

lemma trim_visible:
  assumes "\<forall>b\<in>set bs. b < 0x80" "bs \<noteq> []" "visible (hd bs)" "visible (last bs)"
  shows "trim bs = bs"
proof -
  have "dropWhile ascii_ws bs = bs" using assms(2,3) visible_facts by (cases bs) auto
  with assms show ?thesis by (simp add: trim_def trim_start_ascii trim_end_ascii visible_facts)
qed

lemma split_whitespace_word:
  assumes "\<forall>b\<in>set w. visible b" "w \<noteq> []" "\<forall>b\<in>set r. b < 0x80"
  shows "split_whitespace (w @ 32 # r) = w # split_whitespace (32 # r)"
proof -
  have w: "\<forall>b\<in>set w. b < 0x80 \<and> \<not> ascii_ws b" using assms(1) visible_facts by blast
  have sp: "ascii_ws 32" by (simp add: ascii_ws_def)
  have "dropWhile ascii_ws (w @ 32 # r) = w @ 32 # r" using w assms(2) by (cases w) auto
  moreover have "takeWhile (\<lambda>b. \<not> ascii_ws b) (w @ 32 # r) = w" using w sp by (simp add: takeWhile_append2)
  moreover have all: "\<forall>b\<in>set (w @ 32 # r). b < 0x80" using w assms(3) by auto
  ultimately have "trim_start (w @ 32 # r) = w @ 32 # r" "word_prefix (w @ 32 # r) = w"
    by (simp_all only: trim_start_ascii [OF all] word_prefix_ascii [OF all])
  then show ?thesis by (subst split_whitespace.simps) simp
qed

lemma split_whitespace_space:
  assumes "\<forall>b\<in>set r. b < 0x80"
  shows "split_whitespace (32 # r) = split_whitespace r"
proof -
  have "trim_start (32 # r) = trim_start r"
    using assms by (simp add: trim_start_ascii) (simp add: ascii_ws_def)
  then show ?thesis by (subst (1 2) split_whitespace.simps) simp
qed

lemma split_once_at: "sep \<notin> set a \<Longrightarrow> split_once sep (a @ sep # b) = Some (a, b)"
  by (induction a) (auto simp: split_once_def split: list.splits)

lemma lines_from_line:
  "10 \<notin> set xs \<Longrightarrow> lines_from acc (xs @ 10 # ys) = strip_cr (acc @ xs) # lines_from [] ys"
  "10 \<notin> set xs \<Longrightarrow> lines_from acc xs = (if acc @ xs = [] then [] else [acc @ xs])"
  by (induction xs arbitrary: acc) auto

lemma find_end_skip:
  "13 \<notin> set xs \<Longrightarrow> find_at (crlf @ crlf) (xs @ ys) = map_option ((+) (length xs)) (find_at (crlf @ crlf) ys)"
proof (induction xs)
  case Nil
  show ?case by (cases "find_at (crlf @ crlf) ys") simp_all
next
  case (Cons x xs)
  then show ?case by (cases "find_at (crlf @ crlf) ys") (simp_all add: crlf_def)
qed

text \<open>A head ends at its first empty line, and its lines are what stands between the line ends.\<close>

lemma find_header_lines:
  assumes "\<forall>l\<in>set ls. l \<noteq> [] \<and> 13 \<notin> set l" "ls \<noteq> []"
  shows "find_at (crlf @ crlf) (concat (map (\<lambda>l. l @ crlf) ls) @ crlf @ body) =
    Some (length (concat (map (\<lambda>l. l @ crlf) ls)) - 2)"
  using assms
proof (induction ls)
  case (Cons l ls)
  let ?rest = "concat (map (\<lambda>l. l @ crlf) ls) @ crlf @ body"
  have l: "13 \<notin> set l" using Cons.prems by simp
  show ?case
  proof (cases ls)
    case Nil
    then show ?thesis
      using find_end_skip [OF l, of "crlf @ crlf @ body"] by (simp add: crlf_def)
  next
    case (Cons k ks)
    with Cons.prems obtain b bs where "?rest = b # bs" "b \<noteq> 13" by (cases k) auto
    moreover from Cons Cons.IH Cons.prems have "find_at (crlf @ crlf) ?rest = Some (length (concat (map (\<lambda>l. l @ crlf) ls)) - 2)"
      by simp
    moreover have "2 \<le> length (concat (map (\<lambda>l. l @ crlf) ls))" by (simp add: Cons crlf_def)
    ultimately show ?thesis
      using find_end_skip [OF l, of "crlf @ ?rest"] by (auto simp: crlf_def)
  qed
qed simp

lemma header_lines:
  assumes ls: "\<forall>l\<in>set ls. l \<noteq> [] \<and> 13 \<notin> set l \<and> 10 \<notin> set l" "ls \<noteq> []"
  shows "has_header_end (concat (map (\<lambda>l. l @ crlf) ls) @ crlf)"
    "text_lines (header_bytes (concat (map (\<lambda>l. l @ crlf) ls) @ crlf)) = ls"
    "set (header_bytes (concat (map (\<lambda>l. l @ crlf) ls) @ crlf)) \<subseteq> {13, 10} \<union> \<Union> (set ` set ls)"
proof -
  let ?c = "\<lambda>ls. concat (map (\<lambda>l. l @ crlf) ls)"
  have end_at: "find_at (crlf @ crlf) (?c ls @ crlf) = Some (length (?c ls) - 2)"
    using find_header_lines [of ls "[]"] ls by simp
  then show "has_header_end (?c ls @ crlf)" by (simp add: has_header_end_def)
  have bytes: "header_bytes (?c ls @ crlf) = take (length (?c ls) - 2) (?c ls)"
    using end_at by (simp add: header_bytes_def)
  show "set (header_bytes (?c ls @ crlf)) \<subseteq> {13, 10} \<union> \<Union> (set ` set ls)"
    unfolding bytes by (rule subset_trans [OF set_take_subset]) (auto simp: crlf_def)
  have "lines_from [] (take (length (?c ls) - 2) (?c ls)) = ls"
    using ls
  proof (induction ls rule: induct_list012)
    case (2 l)
    then show ?case by (simp add: crlf_def lines_from_line(2))
  next
    case (3 l k ls)
    let ?r = "take (length (?c (k # ls)) - 2) (?c (k # ls))"
    have "take (length (?c (l # k # ls)) - 2) (?c (l # k # ls)) = (l @ [13]) @ 10 # ?r"
      by (simp add: crlf_def)
    moreover have "lines_from [] ((l @ [13]) @ 10 # ?r) = strip_cr ([] @ l @ [13]) # lines_from [] ?r"
      by (rule lines_from_line(1)) (use "3.prems" in simp)
    moreover have "lines_from [] ?r = k # ls" by (rule "3.IH"(2)) (use "3.prems" in simp_all)
    ultimately show ?case by (simp only: append_Nil) (simp add: strip_cr_def)
  qed simp
  then show "text_lines (header_bytes (?c ls @ crlf)) = ls" unfolding bytes by (simp add: text_lines_def)
qed

text \<open>
  A \<open>GET\<close> as clients send it: a target and any headers, each with a name of visible characters and a
  value of printable ones that neither starts nor ends with a blank.
\<close>

fun header_line :: "bytes \<times> bytes \<Rightarrow> bytes" where
  "header_line (name, value) = name @ ascii '': '' @ value"

fun wf_header :: "bytes \<times> bytes \<Rightarrow> bool" where
  "wf_header (name, value) \<longleftrightarrow>
     name \<noteq> [] \<and> (\<forall>b\<in>set name. visible b \<and> b \<noteq> 0x3A) \<and> (\<forall>b\<in>set value. visible b \<or> b = 0x20) \<and>
     (value \<noteq> [] \<longrightarrow> hd value \<noteq> 0x20 \<and> last value \<noteq> 0x20)"

definition http_get :: "bytes \<Rightarrow> (bytes \<times> bytes) list \<Rightarrow> bytes" where
  "http_get uri hs =
     concat (map (\<lambda>l. l @ crlf) ((ascii ''GET '' @ uri @ ascii '' HTTP/1.1'') # map header_line hs)) @ crlf"

text \<open>The values of the headers of a name, which is not case-sensitive, in their order.\<close>

definition header_values :: "bytes \<Rightarrow> (bytes \<times> bytes) list \<Rightarrow> bytes list" where
  "header_values name hs = map snd (filter (\<lambda>(n, _). eq_ignore_ascii_case n name) hs)"

lemma header_values_simps [simp]:
  "header_values name [] = []"
  "header_values name ((n, v) # hs) =
     (if eq_ignore_ascii_case n name then v # header_values name hs else header_values name hs)"
  by (simp_all add: header_values_def)

lemma wf_header_line:
  assumes "wf_header h"
  shows "header_line h \<noteq> []" "13 \<notin> set (header_line h)" "10 \<notin> set (header_line h)" "\<forall>b\<in>set (header_line h). b < 0x80"
proof -
  obtain n v where h: "h = (n, v)" by (cases h)
  have "\<forall>b\<in>set (header_line h). visible b \<or> b = 0x20"
    using assms by (auto simp: h ascii_def visible_def)
  then show "13 \<notin> set (header_line h)" "10 \<notin> set (header_line h)" "\<forall>b\<in>set (header_line h). b < 0x80"
    using visible_facts by fastforce+
  show "header_line h \<noteq> []" using assms by (simp add: h)
qed

lemma request_line_words:
  assumes "\<forall>b\<in>set p. visible b" "p \<noteq> []"
  shows "split_whitespace (ascii ''GET '' @ p @ ascii '' HTTP/1.1'') =
    ascii ''GET'' # p # split_whitespace (32 # ascii ''HTTP/1.1'')"
proof -
  have pa: "\<forall>b\<in>set p. b < 0x80" using assms(1) visible_facts by blast
  have a: "ascii ''GET '' @ p @ ascii '' HTTP/1.1'' = ascii ''GET'' @ 32 # (p @ 32 # ascii ''HTTP/1.1'')"
    by (simp add: ascii_def)
  have "split_whitespace (ascii ''GET'' @ 32 # (p @ 32 # ascii ''HTTP/1.1'')) =
      ascii ''GET'' # split_whitespace (32 # p @ 32 # ascii ''HTTP/1.1'')"
    by (rule split_whitespace_word) (use pa in \<open>auto simp: ascii_def visible_def\<close>)
  also have "split_whitespace (32 # p @ 32 # ascii ''HTTP/1.1'') = split_whitespace (p @ 32 # ascii ''HTTP/1.1'')"
    by (rule split_whitespace_space) (use pa in \<open>auto simp: ascii_def\<close>)
  also have "\<dots> = p # split_whitespace (32 # ascii ''HTTP/1.1'')"
    by (rule split_whitespace_word) (use assms in \<open>auto simp: ascii_def\<close>)
  finally show ?thesis unfolding a .
qed

text \<open>The credential an \<open>Authorization\<close> value presents, if its scheme is the bearer scheme.\<close>

definition credential :: "bytes \<Rightarrow> bytes option" where
  "credential value =
     (case split_once 0x20 value of
        Some (scheme, given) \<Rightarrow> if eq_ignore_ascii_case scheme (ascii ''bearer'') then Some (trim given) else None
      | None \<Rightarrow> None)"

lemma credential_bearer:
  assumes "eq_ignore_ascii_case scheme (ascii ''bearer'')" "\<forall>b\<in>set tok. visible b" "tok \<noteq> []"
  shows "credential (scheme @ 0x20 # tok) = Some tok"
proof -
  have "map lower scheme = map lower (ascii ''bearer'')" using assms(1) by (simp add: eq_ignore_ascii_case_def)
  moreover have "0x20 \<in> set scheme \<Longrightarrow> 0x20 \<in> set (map lower scheme)" by (force simp: lower_def image_iff)
  ultimately have "0x20 \<notin> set scheme" by (auto simp: ascii_def lower_def)
  moreover have "trim tok = tok" using assms(2,3) visible_facts by (intro trim_visible) auto
  ultimately show ?thesis using split_once_at [of "0x20" scheme tok] assms(1) by (simp add: credential_def)
qed

lemma parse_header_line:
  assumes "wf_header (n, v)"
  shows "parse_headers (header_line (n, v) # ls) r = parse_headers ls
    (if eq_ignore_ascii_case n (ascii ''authorization'')
     then (case credential v of Some c \<Rightarrow> r\<lparr>bearer := Some c\<rparr> | None \<Rightarrow> r)
     else if eq_ignore_ascii_case n (ascii ''if-none-match'') then r\<lparr>if_none_match := Some v\<rparr> else r)"
proof -
  have v: "\<forall>b\<in>set (0x20 # v). b < 0x80" using assms visible_facts by auto
  have "header_line (n, v) = n @ 0x3A # 0x20 # v" by (simp add: ascii_def)
  moreover have "split_once 0x3A (n @ 0x3A # 0x20 # v) = Some (n, 0x20 # v)"
    by (rule split_once_at) (use assms in auto)
  moreover have "trim n = n" using assms visible_facts by (intro trim_visible) auto
  moreover have "trim (0x20 # v) = v"
  proof (cases "v = []")
    case True
    with v show ?thesis by (simp add: trim_def trim_start_ascii ascii_ws_def)
  next
    case False
    then have "visible (hd v)" "visible (last v)" using assms hd_in_set [of v] last_in_set [of v] by auto
    moreover from this False have "trim_start (0x20 # v) = v"
      unfolding trim_start_ascii [OF v] using visible_facts by (cases v) (auto simp: ascii_ws_def)
    ultimately show ?thesis using v visible_facts by (simp add: trim_def trim_end_ascii)
  qed
  ultimately show ?thesis by (simp add: credential_def split: option.splits)
qed

lemma parse_headers_values:
  assumes "\<forall>h\<in>set hs. wf_header h"
  shows "parse_headers (map header_line hs) r =
    r\<lparr>bearer := fold (\<lambda>v b. case credential v of Some c \<Rightarrow> Some c | None \<Rightarrow> b)
        (header_values (ascii ''authorization'') hs) (bearer r),
      if_none_match := (let vs = header_values (ascii ''if-none-match'') hs in
        if vs = [] then if_none_match r else Some (last vs))\<rparr>"
  using assms
proof (induction hs arbitrary: r)
  case (Cons h hs)
  obtain n v where h: "h = (n, v)" by (cases h)
  have "\<not> eq_ignore_ascii_case n (ascii ''if-none-match'')" if "eq_ignore_ascii_case n (ascii ''authorization'')"
    using that by (auto simp: eq_ignore_ascii_case_def ascii_def lower_def)
  moreover have "wf_header (n, v)" "\<forall>h\<in>set hs. wf_header h" using Cons.prems by (simp_all add: h)
  ultimately show ?case
    unfolding h list.map(2) parse_header_line [OF \<open>wf_header (n, v)\<close>] Cons.IH [OF \<open>\<forall>h\<in>set hs. wf_header h\<close>]
    by (simp add: Let_def split: option.splits)
qed simp

lemma parse_http_get:
  assumes t: "\<forall>b\<in>set uri. visible b" "uri \<noteq> []" and hs: "\<forall>h\<in>set hs. wf_header h"
  shows "has_header_end (http_get uri hs)"
    "parse_head (http_get uri hs) =
       Some (parse_headers (map header_line hs)
         \<lparr>req_method = ascii ''GET'', path = takeWhile (\<lambda>b. b \<noteq> 0x3F) uri, bearer = None, if_none_match = None\<rparr>)"
proof -
  let ?a = "ascii ''GET '' @ uri @ ascii '' HTTP/1.1''"
  have "\<forall>b\<in>set uri. b < 0x80" "13 \<notin> set uri" "10 \<notin> set uri" using t(1) visible_facts by blast+
  then have a: "\<forall>b\<in>set ?a. b < 0x80" "13 \<notin> set ?a" "10 \<notin> set ?a" by (simp_all add: ascii_def)
  have ls: "\<forall>l\<in>set (?a # map header_line hs). l \<noteq> [] \<and> 13 \<notin> set l \<and> 10 \<notin> set l"
    using a hs wf_header_line by (auto simp: t(2))
  note head = header_lines [OF ls, folded http_get_def]
  from head(1) show "has_header_end (http_get uri hs)" by simp
  have "\<forall>b\<in>{13, 10} \<union> \<Union> (set ` set (?a # map header_line hs)). b < 0x80"
    using a(1) hs wf_header_line(4) by auto
  with head(3) have "\<forall>b\<in>set (header_bytes (http_get uri hs)). b < 0x80" by blast
  then have "valid_utf8 (header_bytes (http_get uri hs))" by (rule valid_utf8_ascii)
  then show "parse_head (http_get uri hs) =
       Some (parse_headers (map header_line hs)
         \<lparr>req_method = ascii ''GET'', path = takeWhile (\<lambda>b. b \<noteq> 0x3F) uri, bearer = None, if_none_match = None\<rparr>)"
    using head(2) request_line_words [OF t] by (simp add: parse_head_def Let_def)
qed

section \<open>The connection budget\<close>

text \<open>No request makes the service panic.\<close>

lemma calm_respond [calm_intros]: "calm (respond status content_type body headers)"
  unfolding respond_def by (intro calm_intros)

lemma stats_connection_calm: "fst (stats_connection env now d st token s) \<noteq> Panicked"
proof -
  have "calm (route env now d st request)" for request
    by (simp add: route_def serve_json_def plain_def Let_def calm_intros)
  then have "calm (handle_conn env now d st token)"
    unfolding handle_conn_def plain_def
    by (intro calm_bindA calm_read_head) (auto intro!: calm_intros split: option.splits)
  from calmD [OF this] show ?thesis
    by (auto simp: stats_connection_def split: prod.splits poll.splits)
qed

lemma serve_stats_budget:
  assumes "(serve_stats_step sem)\<^sup>*\<^sup>* s0 s" "serve_stats_start sem = Some s0" "semaphore_laws sem"
  shows "sem_available sem (svc_free s) + svc_open s + (if svc_loop s = Accepting then 1 else 0) = unat MAX_STATS_SOCKETS"
  using assms(1)
proof induction
  case base
  then show ?case using assms(2) laws_simps(3) [OF assms(3)] by (auto simp: serve_stats_start_def)
next
  case (step s s')
  from step(2,3) show ?case
    by cases (auto simp: laws_simps(1) [OF assms(3)] dest!: laws_simps(2) [OF assms(3)] split: if_splits)
qed

section \<open>Properties\<close>

text \<open>An environment for the examples: a fixed rendering, bytes handed over seven at a time.\<close>

definition demo_http :: http_env where
  "demo_http = \<lparr>json_stats = (\<lambda>_. Some (ascii ''stats'')), json_clients = (\<lambda>_. None), body_hash = (\<lambda>_. 0xFF),
     dashboard_html = [], read_sizes = (\<lambda>_. 7)\<rparr>"

text \<open>
  C18. With a token configured, a request that does not present exactly this token as its bearer
  credential is answered with a fixed refusal, and which one depends on the request alone: nothing
  of the time, the statistics, the cache or the dashboard can show in the answer.
\<close>

theorem stats_need_token:
  assumes "\<forall>head req. fst (read_head (read_sizes env) s) = Done (Some head) \<longrightarrow> parse_head head = Some req \<longrightarrow>
    bearer req \<noteq> Some tok"
  shows "handle_conn env now d st (Some tok) s =
    bindA (read_head (read_sizes env)) (\<lambda>got. case refusal_of got of (status, msg, headers) \<Rightarrow> plain status msg headers) s"
proof -
  obtain r s1 where rd: "read_head (read_sizes env) s = (r, s1)" by (cases "read_head (read_sizes env) s")
  show ?thesis
  proof (cases r)
    case (Done x)
    with rd assms show ?thesis
      by (cases x) (auto simp: handle_conn_def refusal_of_def ct_eq_token_iff split: option.splits)
  qed (auto simp: handle_conn_def rd)
qed

text \<open>The requests of the examples, with the host first and a scheme in lower case.\<close>

definition demo_headers :: "bytes \<Rightarrow> (bytes \<times> bytes) list" where
  "demo_headers tok =
     [(ascii ''Host'', ascii ''merino:9090''), (ascii ''Accept'', ascii ''application/json, */*''),
      (ascii ''AUTHORIZATION'', ascii ''bearer '' @ tok)]"

lemma demo_headers_wf:
  assumes "\<forall>b\<in>set tok. visible b" "tok \<noteq> []"
  shows "\<forall>h\<in>set (demo_headers tok). wf_header h"
    "header_values (ascii ''authorization'') (demo_headers tok) = [ascii ''bearer'' @ 0x20 # tok]"
    "header_values (ascii ''if-none-match'') (demo_headers tok) = []"
  using assms visible_facts last_in_set [of tok]
  by (auto simp: demo_headers_def ascii_def visible_def eq_ignore_ascii_case_def lower_def)

theorem stats_need_token_witness:
  "\<exists>s'. handle_conn demo_http 0 (dns_new 0 0) (stats_new 0 0) (Some (ascii ''secret''))
      \<lparr>rx = http_get (ascii ''/stats'') (demo_headers (ascii ''guess'')), rx_end = RxEof, tx_script = [], sent = []\<rparr> = (Done (), s') \<and>
    take 12 (wire_of (sent s')) = ascii ''HTTP/1.1 401''"
proof -
  let ?get = "http_get (ascii ''/stats'') (demo_headers (ascii ''guess''))"
  let ?s = "\<lparr>rx = ?get, rx_end = RxEof, tx_script = [], sent = []\<rparr>"
  have vis: "\<forall>b\<in>set (ascii ''/stats''). visible b" "\<forall>b\<in>set (ascii ''guess''). visible b" "ascii ''/stats'' \<noteq> []" "ascii ''guess'' \<noteq> []"
    by (simp_all add: ascii_def visible_def)
  note wf = demo_headers_wf [OF vis(2,4)]
  have "credential (ascii ''bearer'' @ 0x20 # ascii ''guess'') = Some (ascii ''guess'')"
    by (rule credential_bearer [OF _ vis(2,4)]) (simp add: eq_ignore_ascii_case_def)
  note req = parse_http_get [OF vis(1,3) wf(1)] parse_headers_values [OF wf(1)] wf(2,3) this
  have "length ?get \<le> MAX_HEAD"
    by (simp add: http_get_def demo_headers_def ascii_def crlf_def MAX_HEAD_def)
  then obtain head s1 where rd: "read_head (read_sizes demo_http) ?s = (Done (Some head), s1)"
    "header_bytes head = header_bytes ?get" "sent s1 = []" "tx_script s1 = []"
    using read_head_complete [of ?s ?get "[]" "read_sizes demo_http"] req(1) by auto
  have parsed: "\<exists>r. parse_head head = Some r \<and> req_method r = ascii ''GET'' \<and> bearer r = Some (ascii ''guess'')"
    using parse_head_cong [OF rd(2)] req by simp
  then have "refusal_of (Some head) = (''401 Unauthorized'', ''unauthorized'', [])" by (auto simp: refusal_of_def)
  moreover have "bearer r \<noteq> Some (ascii ''secret'')" if "parse_head head = Some r" for r
    using that parsed by (auto simp: ascii_def)
  ultimately have "handle_conn demo_http 0 (dns_new 0 0) (stats_new 0 0) (Some (ascii ''secret'')) ?s =
      plain ''401 Unauthorized'' ''unauthorized'' [] s1"
    using stats_need_token [of demo_http ?s "ascii ''secret''" 0 "dns_new 0 0" "stats_new 0 0"] rd(1) by simp
  moreover have "tx_ok 3 s1" using rd(4) by (simp add: tx_ok_def)
  ultimately show ?thesis
    using respond_sends [of s1 "ascii ''401 Unauthorized''" "ascii ''text/plain''" "ascii ''unauthorized'' @ [10]" "[]"] rd(3)
    by (auto simp: plain_def response_head_def ascii_def)
qed

text \<open>
  C19. A \<open>GET\<close> of the statistics with the right token is served, whatever other headers and query it
  has, in whatever order and case, and however the transport cuts it into reads: the answer
  is the serialized snapshot, with its length and entity tag, or, when the entity tag is the one
  the request names in its (last) \<open>If-None-Match\<close>, a 304 with the tag and no body; then the
  connection is closed.
\<close>

theorem authorised_get_served:
  assumes "rx s = http_get uri hs @ rest" "length (http_get uri hs) \<le> MAX_HEAD" "tx_ok 3 s"
    and "\<forall>b\<in>set uri. visible b" "takeWhile (\<lambda>b. b \<noteq> 0x3F) uri = ascii ''/stats''" "\<forall>h\<in>set hs. wf_header h"
    and "header_values (ascii ''authorization'') hs = [scheme @ 0x20 # tok]"
    and "eq_ignore_ascii_case scheme (ascii ''bearer'')" "\<forall>b\<in>set tok. visible b" "tok \<noteq> []"
    and "json_stats env (stats_snapshot now d st) = Some body"
  shows "\<exists>s'. handle_conn env now d st (Some tok) s = (Done (), s') \<and>
    sent s' = sent s @
      (let known = header_values (ascii ''if-none-match'') hs in
       if known \<noteq> [] \<and> last known = etag_of env body
       then [Sent (response_head (ascii ''304 Not Modified'') (ascii ''application/json'') 0
               [(ascii ''ETag'', etag_of env body)]), Sent [], Shut]
       else [Sent (response_head (ascii ''200 OK'') (ascii ''application/json'') (length body)
               [(ascii ''ETag'', etag_of env body), (ascii ''Cache-Control'', ascii ''no-store'')]), Sent body, Shut])"
proof -
  let ?known = "header_values (ascii ''if-none-match'') hs"
  define r where "r = \<lparr>req_method = ascii ''GET'', path = ascii ''/stats'', bearer = Some tok,
    if_none_match = (if ?known = [] then None else Some (last ?known))\<rparr>"
  have "uri \<noteq> []" using assms(5) by (auto simp: ascii_def)
  note req = parse_http_get [OF assms(4) this assms(6)]
  obtain head s1 where rd: "read_head (read_sizes env) s = (Done (Some head), s1)" "sent s1 = sent s"
    "header_bytes head = header_bytes (http_get uri hs)" "tx_script s1 = tx_script s"
    using read_head_complete [OF assms(1) req(1) assms(2)] by blast
  have "parse_head head = Some r"
    using parse_head_cong [OF rd(3)] req(2) parse_headers_values [OF assms(6)] assms(5,7) credential_bearer [OF assms(8-10)]
    by (simp add: r_def Let_def)
  then have "handle_conn env now d st (Some tok) s = route env now d st r s1"
    by (simp add: handle_conn_def rd(1) ct_eq_token_iff r_def)
  also have "\<dots> = serve_json env r (Some body) s1"
    by (simp add: route_def assms(11) r_def) (simp add: ascii_def)
  finally have run: "handle_conn env now d st (Some tok) s = serve_json env r (Some body) s1" .
  have "tx_ok 3 s1" using assms(3) rd(4) by (simp add: tx_ok_def)
  note sends = respond_sends [OF this, of _ _ "[]"] respond_sends [OF this]
  show ?thesis using sends rd(2) unfolding run by (auto simp: serve_json_def Let_def r_def)
qed

text \<open>The examples: a request with a query, and one that names the tag of what the server has.\<close>

theorem authorised_get_served_witness:
  "\<exists>s' s''. handle_conn demo_http 0 (dns_new 0 0) (stats_new 0 0) (Some (ascii ''t0k3n''))
      \<lparr>rx = http_get (ascii ''/stats?now'') (demo_headers (ascii ''t0k3n'')), rx_end = RxStall, tx_script = [], sent = []\<rparr> = (Done (), s') \<and>
    last (butlast (sent s')) = Sent (ascii ''stats'') \<and>
    handle_conn demo_http 0 (dns_new 0 0) (stats_new 0 0) (Some (ascii ''t0k3n''))
      \<lparr>rx = http_get (ascii ''/stats'') ((ascii ''If-None-Match'', etag_of demo_http (ascii ''stats'')) # demo_headers (ascii ''t0k3n'')),
       rx_end = RxStall, tx_script = [], sent = []\<rparr> = (Done (), s'') \<and>
    last (butlast (sent s'')) = Sent []"
proof -
  let ?tok = "ascii ''t0k3n''"
  let ?s = "\<lambda>t hs. \<lparr>rx = http_get t hs, rx_end = RxStall, tx_script = [], sent = []\<rparr>"
  let ?tag = "(ascii ''If-None-Match'', etag_of demo_http (ascii ''stats''))"
  have tok: "\<forall>b\<in>set ?tok. visible b" "?tok \<noteq> []" by (simp_all add: ascii_def visible_def)
  note wf = demo_headers_wf [OF tok]
  have bearer: "eq_ignore_ascii_case (ascii ''bearer'') (ascii ''bearer'')" by (simp add: eq_ignore_ascii_case_def)
  have body: "json_stats demo_http (stats_snapshot 0 (dns_new 0 0) (stats_new 0 0)) = Some (ascii ''stats'')"
    by (simp add: demo_http_def)
  have tag: "etag_of demo_http (ascii ''stats'') = ascii (''\"00000000000000ff\"'')"
    by (simp add: etag_of_def demo_http_def ascii_def hex.simps hex_digit_def) (simp add: numeral_eq_Suc)
  then have tagged: "\<forall>h\<in>set (?tag # demo_headers ?tok). wf_header h"
    "header_values (ascii ''authorization'') (?tag # demo_headers ?tok) = [ascii ''bearer'' @ 0x20 # ?tok]"
    "header_values (ascii ''if-none-match'') (?tag # demo_headers ?tok) = [etag_of demo_http (ascii ''stats'')]"
    using wf by (auto simp: ascii_def visible_def eq_ignore_ascii_case_def lower_def)
  have len: "length (http_get (ascii ''/stats?now'') (demo_headers ?tok)) \<le> MAX_HEAD"
    "length (http_get (ascii ''/stats'') (?tag # demo_headers ?tok)) \<le> MAX_HEAD"
    unfolding tag by (simp_all add: http_get_def demo_headers_def ascii_def crlf_def MAX_HEAD_def)
  have vis: "\<forall>b\<in>set (ascii ''/stats?now''). visible b" "takeWhile (\<lambda>b. b \<noteq> 0x3F) (ascii ''/stats?now'') = ascii ''/stats''"
    "\<forall>b\<in>set (ascii ''/stats''). visible b" "takeWhile (\<lambda>b. b \<noteq> 0x3F) (ascii ''/stats'') = ascii ''/stats''"
    by (simp_all add: ascii_def visible_def)
  from authorised_get_served [of "?s (ascii ''/stats?now'') (demo_headers ?tok)" _ _ "[]", OF _ len(1) _ vis(1,2) wf(1,2) bearer tok body]
    authorised_get_served [of "?s (ascii ''/stats'') (?tag # demo_headers ?tok)" _ _ "[]", OF _ len(2) _ vis(3,4) tagged(1,2) bearer tok body]
  show ?thesis unfolding wf(3) tagged(3) by (auto simp: tx_ok_def)
qed

text \<open>
  C33. What is read of a request is bounded: a head that is accepted is a prefix of the stream, at most
  one read longer than \<open>MAX_HEAD\<close>, and ends the header or the stream.
\<close>

theorem request_head_bounded:
  assumes "read_head sizes s = (Done (Some head), s')"
  shows "length head \<le> 8192 + 512 \<and> rx s = head @ rx s' \<and> (has_header_end head \<or> rx s' = [] \<and> rx_end s = RxEof)"
  using read_head_loop_Some [of sizes 0 "[]" s head s'] assms by (simp add: read_head_def MAX_HEAD_def)

theorem request_head_bounded_witness:
  "\<exists>head s'. read_head (\<lambda>_. 7) \<lparr>rx = [71, 69, 84], rx_end = RxEof, tx_script = [], sent = []\<rparr> = (Done (Some head), s') \<and>
    length head \<le> 8704"
proof -
  let ?s = "\<lparr>rx = [71, 69, 84], rx_end = RxEof, tx_script = [], sent = []\<rparr>"
  obtain head s' where rd: "read_head (\<lambda>_. 7) ?s = (Done (Some head), s')"
    by (simp add: read_head_def read_head_loop.simps read_some_def has_header_end_def crlf_def MAX_HEAD_def)
  from request_head_bounded [OF rd] rd show ?thesis by auto
qed

text \<open>
  The statistics service serves at most 64 connections at a time, whatever its clients do, and
  gets every permit back.
\<close>

lemma stats_service_bounded:
  assumes "semaphore_laws sem" "serve_stats_start sem = Some s0" "(serve_stats_step sem)\<^sup>*\<^sup>* s0 s"
  shows "svc_open s \<le> 64 \<and> (svc_open s = 0 \<longrightarrow> svc_loop s = Acquiring \<longrightarrow> sem_available sem (svc_free s) = 64)"
  using serve_stats_budget [OF assms(3,2,1)] by (auto simp: MAX_STATS_SOCKETS_def split: if_splits)

end
