(* ===== verification/Startup.thy ===== *)
theory Startup
  imports Http
begin

text \<open>
  The program's entry point, \<open>src/main.rs\<close>: the options, the log filter, the address of the
  statistics service, \<open>main\<close> from the parsed options to the started program, and the program that
  then runs: the server actor, the task of the statistics service and the signal handlers, as the
  step relation \<open>program_step\<close>. The command line parser, the logger and the actor system are not part
  of the repository; the file system, the CSV reader, sockets and name resolution are parameters, in
  \<open>startup_env\<close>. \<open>Box<dyn Error>\<close> is \<open>load_error\<close>: an I/O error or one of the CSV reader. Of the
  log output the warnings of \<open>main\<close> are kept.
\<close>

section \<open>Definitions\<close>

record 'path opt =
  opt_port :: u16
  opt_ip :: bytes
  allow_insecure :: bool
  no_auth :: bool
  users_path :: "'path option"
  opt_max_connections :: usize
  dns_cache_ttl :: u64
  opt_max_connections_per_ip :: usize
  dns_cache_entries :: usize
  stats_addr :: "bytes option"
  stats_token :: "bytes option"
  verbosity :: u8
  quiet :: bool

text \<open>The defaults the argument attributes declare.\<close>

definition DEFAULT_DNS_CACHE_ENTRIES :: usize where
  "DEFAULT_DNS_CACHE_ENTRIES = 1024"

definition default_opt :: "'path opt" where
  "default_opt =
     \<lparr>opt_port = 1080, opt_ip = ascii ''127.0.0.1'', allow_insecure = False, no_auth = False, users_path = None,
      opt_max_connections = DEFAULT_MAX_CONNECTIONS, dns_cache_ttl = 0, opt_max_connections_per_ip = 0,
      dns_cache_entries = DEFAULT_DNS_CACHE_ENTRIES, stats_addr = None, stats_token = None, verbosity = 0,
      quiet = False\<rparr>"

record ('path, 'f, 'e) startup_env =
  open_file :: "'path \<Rightarrow> error_kind + 'f"
  file_mode :: "'f \<Rightarrow> error_kind + u32"
  csv_records :: "'f \<Rightarrow> ('e + user) list"
  host_addrs :: host_lookup
  to_socket_addrs :: "bytes \<Rightarrow> error_kind + socket_addr list"
  sockets :: socket_api
  tokio_bind :: "socket_addr \<Rightarrow> error_kind + tcp_listener"
  rust_log :: "bytes option"

datatype warning = LogOverridden bytes | DefaultsToNoAuth | StatsExposed

definition log_level_for :: "u8 \<Rightarrow> bytes" where
  "log_level_for v =
     (if v = 1 then ascii ''merino=DEBUG'' else if v = 2 then ascii ''merino=TRACE'' else ascii ''merino=INFO'')"

text \<open>The filter the logger is set up with; \<open>None\<close>: no logger at all.\<close>

definition log_filter :: "('path, 'f, 'e) startup_env \<Rightarrow> 'path opt \<Rightarrow> bytes option" where
  "log_filter env opt =
     (if quiet opt then None
      else Some (case rust_log env of Some filter_spec \<Rightarrow> filter_spec | None \<Rightarrow> log_level_for (verbosity opt)))"

definition resolve_stats_addr :: "('path, 'f, 'e) startup_env \<Rightarrow> bytes \<Rightarrow> error_kind + socket_addr" where
  "resolve_stats_addr env addr =
     bindE (to_socket_addrs env addr) (\<lambda>addrs.
       case addrs of a # _ \<Rightarrow> Inr a | [] \<Rightarrow> Inl Ek_AddrNotAvailable)"

text \<open>\<open>main\<close> up to starting the actor: the configured server, the address and the token of the service.\<close>

definition main_setup ::
  "('path, 'f, 'e) startup_env \<Rightarrow> nat \<Rightarrow> nat \<Rightarrow> 'path opt \<Rightarrow>
   'e load_error + socks_server \<times> socket_addr option \<times> bytes option" where
  "main_setup env now unix opt =
     (let methods = select_auth_methods (no_auth opt) (users_path opt) in
      bindE (case users_path opt of
               Some users_file \<Rightarrow>
                 load_users (open_file env users_file) (file_mode env) (csv_records env) (allow_insecure opt)
             | None \<Rightarrow> Inr []) (\<lambda>users.
      bindE (map_sum LoadIo id
               (socks_bind (host_addrs env) (sockets env) now unix (opt_port opt) (opt_ip opt) methods users None)) (\<lambda>bound.
      let server = socks_set_max_connections_per_ip (opt_max_connections_per_ip opt)
                     (socks_set_max_connections (opt_max_connections opt) bound) in
      bindE (case stats_addr opt of
               Some a \<Rightarrow> map_sum LoadIo Some (resolve_stats_addr env a)
             | None \<Rightarrow> Inr None) (\<lambda>addr.
      let st = note_listeners (socks_local_addrs server) (stats_new now unix);
          shared_server = socks_set_stats st server
      in Inr (if dns_cache_ttl opt > 0
              then socks_set_dns_cache (unat (dns_cache_ttl opt) * 10 ^ 9) (dns_cache_entries opt) shared_server
              else shared_server, addr, stats_token opt)))))"

text \<open>The warnings before the server is set up; \<open>is_loopback\<close> is that of the standard library.\<close>

definition setup_warnings :: "('path, 'f, 'e) startup_env \<Rightarrow> 'path opt \<Rightarrow> warning list" where
  "setup_warnings env opt =
     (case rust_log env of
        Some filter_spec \<Rightarrow> if verbosity opt \<noteq> 0 then [LogOverridden filter_spec] else []
      | None \<Rightarrow> []) @
     (if \<not> no_auth opt \<and> users_path opt = None then [DefaultsToNoAuth] else [])"

primrec is_loopback :: "ip_addr \<Rightarrow> bool" where
  "is_loopback (IpV4 a) \<longleftrightarrow> drop_bit 24 a = 127"
| "is_loopback (IpV6 a) \<longleftrightarrow> a = 1"

text \<open>
  The program after \<open>main\<close> has started the actor and spawned the tasks. The actor runs \<open>started\<close>, and the
  service its first statements, when they are first scheduled: until then the proxy is the configured
  actor (\<open>Inl\<close>) and the service has no state. A panic aborts the released program.
\<close>

datatype status = Up | Stopped | Aborted

record 'sem stats_task =
  task_listener :: tcp_listener
  task_token :: "bytes option"
  task_service :: "'sem stats_service option"

record 'sem program =
  prog_status :: status
  prog_proxy :: "socks_server + server_context \<times> 'sem server"
  prog_stats :: "'sem stats_task option"

definition main_start ::
  "('path, 'f, 'e) startup_env \<Rightarrow> nat \<Rightarrow> nat \<Rightarrow> 'path opt \<Rightarrow> 'e load_error + 'sem program \<times> warning list" where
  "main_start env now unix opt =
     bindE (main_setup env now unix opt) (\<lambda>(server, addr, token).
     let started = \<lparr>prog_status = Up, prog_proxy = Inl server, prog_stats = None\<rparr> in
     case addr of
       None \<Rightarrow> Inr (started, setup_warnings env opt)
     | Some a \<Rightarrow>
         bindE (map_sum LoadIo id (tokio_bind env a)) (\<lambda>listener.
           Inr (started\<lparr>prog_stats := Some \<lparr>task_listener = listener, task_token = token, task_service = None\<rparr>\<rparr>,
                setup_warnings env opt @
                  (if \<not> is_loopback (sock_ip a) \<and> token = None then [StatsExposed] else []))))"

text \<open>
  The running program. A connection panics when \<open>run_client\<close> does, on any environment whose clock stays
  within \<open>T\<close> and any state its shared parts may be in by then; likewise one of the statistics service. Ctrl-C and \<open>SIGTERM\<close> stop the actor system.
\<close>

inductive program_step :: "'sem semaphore_api \<Rightarrow> nat \<Rightarrow> 'sem program \<Rightarrow> 'sem program \<Rightarrow> bool"
  for sem T where
  actor_starts: "prog_status p = Up \<Longrightarrow> prog_proxy p = Inl server \<Longrightarrow>
    socks_started sem server = (server', Some s) \<Longrightarrow>
    program_step sem T p (p\<lparr>prog_proxy := Inr (socks_context server, s)\<rparr>)"
| actor_panics: "prog_status p = Up \<Longrightarrow> prog_proxy p = Inl server \<Longrightarrow>
    socks_started sem server = (server', None) \<Longrightarrow>
    program_step sem T p (p\<lparr>prog_status := Aborted\<rparr>)"
| proxy_runs: "prog_status p = Up \<Longrightarrow> prog_proxy p = Inr (ctx, s) \<Longrightarrow> server_step sem ctx actor_spawn s s' \<Longrightarrow>
    program_step sem T p (p\<lparr>prog_proxy := Inr (ctx, s')\<rparr>)"
| client_panics: "prog_status p = Up \<Longrightarrow> prog_proxy p = Inr (ctx, s) \<Longrightarrow>
    t \<in># tasks s \<Longrightarrow> task_phase t = Spawned client \<Longrightarrow> env_ok cooperative env \<Longrightarrow> env_ok (calm_at T) env \<Longrightarrow> cached (cache s) d \<Longrightarrow>
    fst (run_client env now (task_peer t) ((connection client st)\<lparr>dns_cache := d\<rparr>)) = Panicked \<Longrightarrow>
    program_step sem T p (p\<lparr>prog_status := Aborted\<rparr>)"
| service_starts: "prog_status p = Up \<Longrightarrow> prog_stats p = Some h \<Longrightarrow> task_service h = None \<Longrightarrow>
    serve_stats_start sem = Some svc \<Longrightarrow>
    program_step sem T p (p\<lparr>prog_stats := Some (h\<lparr>task_service := Some svc\<rparr>)\<rparr>)"
| service_panics: "prog_status p = Up \<Longrightarrow> prog_stats p = Some h \<Longrightarrow> task_service h = None \<Longrightarrow>
    serve_stats_start sem = None \<Longrightarrow>
    program_step sem T p (p\<lparr>prog_status := Aborted\<rparr>)"
| service_runs: "prog_status p = Up \<Longrightarrow> prog_stats p = Some h \<Longrightarrow> task_service h = Some svc \<Longrightarrow>
    serve_stats_step sem svc svc' \<Longrightarrow>
    program_step sem T p (p\<lparr>prog_stats := Some (h\<lparr>task_service := Some svc'\<rparr>)\<rparr>)"
| stats_client_panics: "prog_status p = Up \<Longrightarrow> prog_stats p = Some h \<Longrightarrow> task_service h = Some svc \<Longrightarrow>
    fst (stats_connection http now d st (task_token h) strm) = Panicked \<Longrightarrow>
    program_step sem T p (p\<lparr>prog_status := Aborted\<rparr>)"
| signalled: "prog_status p = Up \<Longrightarrow> program_step sem T p (p\<lparr>prog_status := Stopped\<rparr>)"

section \<open>What a started server is configured with\<close>

lemma main_setup_Inr:
  assumes "main_setup env now unix opt = Inr (server, addr, tok)"
  shows "act_auth_methods server = select_auth_methods (no_auth opt) (users_path opt)"
    "(case users_path opt of
        Some f \<Rightarrow> load_users (open_file env f) (file_mode env) (csv_records env) (allow_insecure opt)
      | None \<Rightarrow> Inr []) = Inr (act_users server)"
    "act_max_connections server = max (opt_max_connections opt) 1"
    "act_per_ip server =
       (if opt_max_connections_per_ip opt > 0 then Some (limiter_new (opt_max_connections_per_ip opt)) else None)"
    "tok = stats_token opt" "dns_registered (act_stats server) \<longleftrightarrow> act_dns_cache server \<noteq> None"
    "act_dns_cache server =
       (if dns_cache_ttl opt > 0 then Some (dns_new (unat (dns_cache_ttl opt) * 10 ^ 9) (unat (dns_cache_entries opt))) else None)"
  using assms
  by (auto simp: main_setup_def Let_def bindE_Inr_iff map_sum_Inr_iff socks_bind_def socks_set_stats_def
      socks_set_max_connections_def socks_set_max_connections_per_ip_def socks_set_dns_cache_def
      register_dns_def note_listeners_def stats_new_def
      split: if_splits)

lemma main_setup_idle:
  assumes "main_setup env now unix opt = Inr (server, addr, tok)"
  shows "idle_stats (act_stats server)"
proof -
  have listed: "idle_stats (note_listeners as (stats_new now unix))" for as
    by (rule idle_note [where op = "OpListeners as", OF idle_new]) simp
  then have "idle_stats (register_dns (note_listeners as (stats_new now unix)))" for as
    by (rule idle_note [where op = OpRegisterDns]) simp
  with listed assms show ?thesis
    by (auto simp: main_setup_def Let_def bindE_Inr_iff map_sum_Inr_iff socks_set_stats_def
        socks_set_dns_cache_def split: if_splits)
qed

section \<open>The running program\<close>

text \<open>
  What holds of the program at all times: the proxy is the configured actor or a server in a state
  its own steps reach from it, and so is the service.
\<close>

definition proxy_inv :: "'sem semaphore_api \<Rightarrow> socks_server \<Rightarrow> socks_server + server_context \<times> 'sem server \<Rightarrow> bool" where
  "proxy_inv sem server proxy \<longleftrightarrow>
     (case proxy of
        Inl a \<Rightarrow> a = server
      | Inr (ctx, s) \<Rightarrow> ctx = socks_context server \<and>
          (\<exists>server' s0. socks_started sem server = (server', Some s0) \<and>
             (server_step sem ctx actor_spawn)\<^sup>*\<^sup>* s0 s))"

definition service_inv :: "'sem semaphore_api \<Rightarrow> bytes option \<Rightarrow> 'sem stats_task option \<Rightarrow> bool" where
  "service_inv sem token task \<longleftrightarrow>
     (\<forall>h. task = Some h \<longrightarrow> task_token h = token \<and>
        (\<forall>svc. task_service h = Some svc \<longrightarrow>
           (\<exists>svc0. serve_stats_start sem = Some svc0 \<and> (serve_stats_step sem)\<^sup>*\<^sup>* svc0 svc)))"

lemma program_step_inv:
  assumes "program_step sem T p p'" "proxy_inv sem server (prog_proxy p)" "service_inv sem token (prog_stats p)"
  shows "proxy_inv sem server (prog_proxy p') \<and> service_inv sem token (prog_stats p')"
  using assms
  by (induction rule: program_step.induct)
    (auto simp: proxy_inv_def service_inv_def intro: rtranclp.rtrancl_into_rtrancl)

lemma main_start_inv:
  assumes "main_start env now unix opt = Inr (p, ws)"
  shows "\<exists>server addr. main_setup env now unix opt = Inr (server, addr, stats_token opt) \<and>
    prog_status p = Up \<and> proxy_inv sem server (prog_proxy p) \<and> service_inv sem (stats_token opt) (prog_stats p)"
proof -
  from assms obtain server addr tok where m: "main_setup env now unix opt = Inr (server, addr, tok)"
    by (auto simp: main_start_def bindE_Inr_iff)
  with assms main_setup_Inr(5) [OF m] show ?thesis
    by (auto simp: main_start_def bindE_Inr_iff map_sum_Inr_iff Let_def proxy_inv_def service_inv_def
        split: option.splits)
qed

lemma program_reach:
  assumes "main_start env now unix opt = Inr (p0, ws)" "(program_step sem T)\<^sup>*\<^sup>* p0 p"
  shows "\<exists>server addr. main_setup env now unix opt = Inr (server, addr, stats_token opt) \<and>
    proxy_inv sem server (prog_proxy p) \<and> service_inv sem (stats_token opt) (prog_stats p)"
proof -
  from main_start_inv [OF assms(1), of sem] obtain server addr
    where m: "main_setup env now unix opt = Inr (server, addr, stats_token opt)"
      "proxy_inv sem server (prog_proxy p0)" "service_inv sem (stats_token opt) (prog_stats p0)" by blast
  from assms(2) m(2,3) have "proxy_inv sem server (prog_proxy p) \<and> service_inv sem (stats_token opt) (prog_stats p)"
    by (induction rule: rtranclp_induct) (use program_step_inv in blast)+
  with m(1) show ?thesis by blast
qed

text \<open>The server of a running program, in terms of the options it was started with.\<close>

lemma proxy_inv_server:
  assumes "proxy_inv sem server (Inr (ctx, s))" "main_setup env now unix opt = Inr (server, addr, tok)"
  shows "ctx = socks_context server" "clients_ok ctx s"
    "cached (if dns_cache_ttl opt > 0
        then Some (dns_new (unat (dns_cache_ttl opt) * 10 ^ 9) (unat (dns_cache_entries opt))) else None) (cache s)"
    "semaphore_laws sem \<Longrightarrow> \<exists>now' unix'. server_inv sem (unat (max (opt_max_connections opt) 1))
       (if opt_max_connections_per_ip opt > 0 then Some (opt_max_connections_per_ip opt) else None) now' unix' s"
proof -
  note cfg = main_setup_Inr [OF assms(2)]
  from assms(1) obtain server' s0 where s0: "socks_started sem server = (server', Some s0)"
    and steps: "(server_step sem ctx tokio_spawn)\<^sup>*\<^sup>* s0 s" and ctx: "ctx = socks_context server"
    by (auto simp: proxy_inv_def actor_spawn_tokio)
  show "ctx = socks_context server" by (rule ctx)
  from s0 obtain f where f: "sem_new sem (act_max_connections server) = Some f"
    "s0 = \<lparr>free = f, loops = replicate (length (act_listeners server)) Acquiring, tasks = {#},
      limiter = act_per_ip server, cache = act_dns_cache server, sstats = act_stats server\<rparr>"
    by (auto simp: socks_started_def split: option.splits)
  show "clients_ok ctx s"
    by (rule server_steps_clients [OF steps]) (simp add: f(2) clients_ok_def)
  show "cached (if dns_cache_ttl opt > 0
        then Some (dns_new (unat (dns_cache_ttl opt) * 10 ^ 9) (unat (dns_cache_entries opt))) else None) (cache s)"
    using server_steps_cache [OF steps] by (simp add: f(2) cfg(7))
  assume laws: "semaphore_laws sem"
  have lim: "map_option limit (act_per_ip server) =
      (if opt_max_connections_per_ip opt > 0 then Some (opt_max_connections_per_ip opt) else None)"
    by (simp add: cfg(4) limiter_new_limit)
  have "\<exists>now' unix'. server_inv sem (unat (act_max_connections server)) (map_option limit (act_per_ip server))
      now' unix' s0"
    unfolding f(2)
    by (rule started_inv [OF laws f(1) _ main_setup_idle [OF assms(2)]]) (auto simp: cfg(4) split: if_splits)
  then obtain now' unix' where "server_inv sem (unat (max (opt_max_connections opt) 1))
      (if opt_max_connections_per_ip opt > 0 then Some (opt_max_connections_per_ip opt) else None) now' unix' s0"
    unfolding cfg(3) lim by blast
  from server_steps_inv [OF steps laws this]
  show "\<exists>now' unix'. server_inv sem (unat (max (opt_max_connections opt) 1))
       (if opt_max_connections_per_ip opt > 0 then Some (opt_max_connections_per_ip opt) else None) now' unix' s"
    by blast
qed

text \<open>
  The program aborts only where a semaphore cannot be built or the lifetime of cached names is too
  long: otherwise no step of a program that is up aborts it.
\<close>

lemma program_step_calm:
  assumes "program_step sem T p p'" "prog_status p \<noteq> Aborted"
    and inv: "proxy_inv sem server (prog_proxy p)" "main_setup env now unix opt = Inr (server, addr, tok)"
    and sem: "\<And>n. n \<le> M \<Longrightarrow> sem_new sem n \<noteq> None" "max (opt_max_connections opt) MAX_STATS_SOCKETS \<le> M"
    and ttl: "T + unat (dns_cache_ttl opt) * 10 ^ 9 \<le> INSTANT_MAX"
  shows "prog_status p' \<noteq> Aborted"
  using assms(1)
proof cases
  case (actor_panics a a')
  have "(1 :: usize) \<le> MAX_STATS_SOCKETS" by (simp add: MAX_STATS_SOCKETS_def word_le_nat_alt)
  then have "act_max_connections server \<le> M" using main_setup_Inr(3) [OF inv(2)] sem(2) by auto
  with sem(1) actor_panics inv(1) show ?thesis
    by (fastforce simp: proxy_inv_def socks_started_def split: option.splits)
next
  case (client_panics ctx s t client env' d now' st)
  let ?c = "(connection client st)\<lparr>dns_cache := d\<rparr>"
  from proxy_inv_server(3) [OF inv(1) [unfolded client_panics(3)] inv(2)] client_panics(8)
  have "map_option ttl d = (if dns_cache_ttl opt > 0 then Some (unat (dns_cache_ttl opt) * 10 ^ 9) else None)"
    by (auto dest!: cached_trans [THEN cached_ttl] simp: dns_new_def)
  with ttl have "\<forall>dc. dns_cache ?c = Some dc \<longrightarrow> T + ttl dc \<le> INSTANT_MAX" by (auto split: if_splits)
  from run_client_calm [OF client_panics(6,7) this] client_panics(9) show ?thesis by blast
next
  case (service_panics h)
  with sem show ?thesis by (fastforce simp: serve_stats_start_def)
qed (use assms(2) stats_connection_calm in simp_all)

end
