(* ===== verification/Stats_Race.thy ===== *)
theory Stats_Race
  imports Stats
begin

text \<open>
  Registration and release of a connection in the steps the code takes them in
  (\<open>begin_client\<close> and \<open>Drop for ActiveGuard\<close> of \<open>src/stats.rs\<close>): an atomic counter or a table under its
  lock is changed one at a time, and any number of connections are somewhere in between. The theory
  \<open>Stats\<close> has each of the two operations as one step; here their interleavings are shown to keep
  every part of the statistics exact at every moment.
\<close>

section \<open>Definitions\<close>

text \<open>The steps of \<open>begin_client\<close> and of \<open>drop\<close>, in order.\<close>

definition take_id :: "stats \<Rightarrow> u64 \<times> stats" where
  "take_id s = (next_client_id s, s\<lparr>next_client_id := next_client_id s + 1\<rparr>)"

definition insert_row :: "u64 \<Rightarrow> nat \<Rightarrow> socket_addr \<Rightarrow> socket_addr option \<Rightarrow> stats \<Rightarrow> stats" where
  "insert_row i now p l s =
     s\<lparr>client_rows := AList.update i
         \<lparr>peer = p, local_end = l, started_at = now, command = None, bytes_up = 0, bytes_down = 0\<rparr>
         (client_rows s)\<rparr>"

definition count_active :: "stats \<Rightarrow> stats" where
  "count_active s = s\<lparr>active := active s + 1\<rparr>"

definition list_ip :: "ip_addr \<Rightarrow> stats \<Rightarrow> stats" where
  "list_ip ip s = s\<lparr>active_per_ip := bump ip (active_per_ip s)\<rparr>"

definition uncount_active :: "stats \<Rightarrow> stats" where
  "uncount_active s = s\<lparr>active := active s - 1\<rparr>"

definition unlist_ip :: "ip_addr \<Rightarrow> stats \<Rightarrow> stats" where
  "unlist_ip ip s =
     s\<lparr>active_per_ip :=
         (case map_of (active_per_ip s) ip of
            Some c \<Rightarrow>
              if c \<le> 1 then AList.delete ip (active_per_ip s)
              else AList.update ip (c - 1) (active_per_ip s)
          | None \<Rightarrow> active_per_ip s)\<rparr>"

definition remove_row :: "u64 \<Rightarrow> stats \<Rightarrow> stats" where
  "remove_row i s = s\<lparr>client_rows := AList.delete i (client_rows s)\<rparr>"

text \<open>How far a connection is; \<open>Registered\<close> is the whole time it holds its guard.\<close>

datatype phase = HasId | HasRow | Counted | Registered | Uncounted | Unlisted

record registration =
  reg_peer :: socket_addr
  reg_local :: "socket_addr option"
  reg_id :: u64
  reg_phase :: phase

inductive race_step :: "stats \<times> registration multiset \<Rightarrow> stats \<times> registration multiset \<Rightarrow> bool" where
  note_step: "run_op op s = (None, s') \<Longrightarrow> race_step (s, T) (s', T)"
| id_step: "ids_left s \<Longrightarrow> take_id s = (i, s') \<Longrightarrow>
    race_step (s, T) (s', add_mset \<lparr>reg_peer = p, reg_local = l, reg_id = i, reg_phase = HasId\<rparr> T)"
| row_step: "reg_phase r = HasId \<Longrightarrow>
    race_step (s, add_mset r T)
      (insert_row (reg_id r) now (reg_peer r) (reg_local r) s, add_mset (r\<lparr>reg_phase := HasRow\<rparr>) T)"
| count_step: "reg_phase r = HasRow \<Longrightarrow>
    race_step (s, add_mset r T) (count_active s, add_mset (r\<lparr>reg_phase := Counted\<rparr>) T)"
| list_step: "reg_phase r = Counted \<Longrightarrow>
    race_step (s, add_mset r T) (list_ip (sock_ip (reg_peer r)) s, add_mset (r\<lparr>reg_phase := Registered\<rparr>) T)"
| uncount_step: "reg_phase r = Registered \<Longrightarrow>
    race_step (s, add_mset r T) (uncount_active s, add_mset (r\<lparr>reg_phase := Uncounted\<rparr>) T)"
| unlist_step: "reg_phase r = Uncounted \<Longrightarrow>
    race_step (s, add_mset r T) (unlist_ip (sock_ip (reg_peer r)) s, add_mset (r\<lparr>reg_phase := Unlisted\<rparr>) T)"
| remove_step: "reg_phase r = Unlisted \<Longrightarrow>
    race_step (s, add_mset r T) (remove_row (reg_id r) s, T)"

text \<open>Which parts of the statistics know a connection in a phase.\<close>

definition in_registry :: "registration \<Rightarrow> bool" where
  "in_registry r \<longleftrightarrow> reg_phase r \<noteq> HasId"

definition in_count :: "registration \<Rightarrow> bool" where
  "in_count r \<longleftrightarrow> reg_phase r \<in> {Counted, Registered}"

definition in_list :: "ip_addr \<Rightarrow> registration \<Rightarrow> bool" where
  "in_list ip r \<longleftrightarrow> reg_phase r \<in> {Registered, Uncounted} \<and> sock_ip (reg_peer r) = ip"

lemmas part_defs = in_registry_def in_count_def in_list_def

section \<open>One uninterrupted operation\<close>

lemma begin_client_steps:
  assumes "take_id s = (i, s1)"
  shows "begin_client now p l s =
    (\<lparr>guard_ip = sock_ip p, guard_id = i\<rparr>, list_ip (sock_ip p) (count_active (insert_row i now p l s1)))"
  using assms by (auto simp: begin_client_def take_id_def insert_row_def count_active_def list_ip_def Let_def)

lemma drop_guard_steps:
  "drop_guard g s = remove_row (guard_id g) (unlist_ip (guard_ip g) (uncount_active s))"
  by (auto simp: drop_guard_def remove_row_def unlist_ip_def uncount_active_def split: option.split)

section \<open>The invariant of the interleavings\<close>

definition table_of :: "(ip_addr \<Rightarrow> nat) \<Rightarrow> (ip_addr \<times> u64) list \<Rightarrow> bool" where
  "table_of n m \<longleftrightarrow> distinct (map fst m) \<and>
     (\<forall>ip. n ip < 2 ^ 64 \<and> map_of m ip = (if n ip = 0 then None else Some (of_nat (n ip))))"

definition race_inv :: "stats \<Rightarrow> registration multiset \<Rightarrow> bool" where
  "race_inv s T \<longleftrightarrow>
     mset (map fst (client_rows s)) = image_mset reg_id (filter_mset in_registry T) \<and>
     active s = of_nat (size (filter_mset in_count T)) \<and>
     table_of (\<lambda>ip. size (filter_mset (in_list ip) T)) (active_per_ip s) \<and>
     (\<forall>i. count (image_mset reg_id T) i \<le> 1) \<and> (\<forall>r\<in>#T. reg_id r < next_client_id s) \<and>
     size T \<le> unat (next_client_id s)"

lemma unat_lt_2p: "unat (w :: u64) < 2 ^ 64"
  by (rule order.strict_trans2 [OF unsigned_less]) simp

lemma of_nat_le_1: "n < 2 ^ 64 \<Longrightarrow> (of_nat n :: u64) \<le> 1 \<longleftrightarrow> n \<le> 1"
  by (simp add: word_le_nat_alt unat_of_nat take_bit_nat_eq_self_iff)

lemma table_bump:
  assumes "table_of n m" "Suc (n ip) < 2 ^ 64"
  shows "table_of (n(ip := Suc (n ip))) (bump ip m)"
  using assms by (auto simp: table_of_def map_of_bump add.commute split: option.splits if_splits)

lemma table_unlist:
  assumes "table_of (n(ip := Suc k)) m" "n ip = k"
  shows "table_of n (case map_of m ip of
      Some c \<Rightarrow> if c \<le> 1 then AList.delete ip m else AList.update ip (c - 1) m | None \<Rightarrow> m)"
proof -
  from assms have k: "Suc k < 2 ^ 64" "map_of m ip = Some (of_nat (Suc k))" and d: "distinct (map fst m)"
    by (auto simp: table_of_def split: if_splits)
  have le: "(of_nat (Suc k) :: u64) \<le> 1 \<longleftrightarrow> k = 0" using of_nat_le_1 [OF k(1)] by simp
  have eq: "map_of m ip' = (if n ip' = 0 then None else Some (of_nat (n ip')))" "n ip' < 2 ^ 64" if "ip' \<noteq> ip" for ip'
    using assms(1) that by (auto simp: table_of_def dest: spec [of _ ip'])
  show ?thesis
  proof (cases "k = 0")
    case True
    with k d le eq assms(2) show ?thesis by (auto simp: table_of_def delete_conv' distinct_delete)
  next
    case False
    then have "n ip' < 2 ^ 64 \<and> map_of (AList.update ip (of_nat k) m) ip' =
        (if n ip' = 0 then None else Some (of_nat (n ip')))" for ip'
      using k(1) eq assms(2) by (cases "ip' = ip") (simp_all add: update_conv')
    moreover have "(of_nat (Suc k) :: u64) - 1 = of_nat k" by simp
    ultimately show ?thesis using False k d le by (simp add: table_of_def distinct_update)
  qed
qed

lemma race_inv_start: "race_inv (stats_new now unix) {#}"
  by (simp add: race_inv_def stats_new_def table_of_def)

text \<open>Each step keeps the invariant.\<close>

lemma race_inv_size: "race_inv s T \<Longrightarrow> size T < 2 ^ 64"
  using unat_lt_2p [of "next_client_id s"] by (auto simp: race_inv_def)

lemma in_list_add:
  "(\<lambda>ip'. size (filter_mset (in_list ip') (add_mset r T))) =
     (if reg_phase r \<in> {Registered, Uncounted}
      then (\<lambda>ip'. size (filter_mset (in_list ip') T))
        (sock_ip (reg_peer r) := Suc (size (filter_mset (in_list (sock_ip (reg_peer r))) T)))
      else (\<lambda>ip'. size (filter_mset (in_list ip') T)))"
  by (auto simp: fun_eq_iff in_list_def)

lemma race_count_inv:
  assumes inv: "race_inv s (add_mset r T)"
  shows "reg_phase r = HasRow \<Longrightarrow> race_inv (count_active s) (add_mset (r\<lparr>reg_phase := Counted\<rparr>) T)"
    "reg_phase r = Registered \<Longrightarrow> race_inv (uncount_active s) (add_mset (r\<lparr>reg_phase := Uncounted\<rparr>) T)"
  using inv unfolding race_inv_def in_list_add
  by (simp_all add: count_active_def uncount_active_def in_registry_def in_count_def)

lemma race_inv_fresh:
  assumes "race_inv s (add_mset r T)"
  shows "reg_id r \<notin># image_mset reg_id T"
proof -
  from assms have "count (image_mset reg_id (add_mset r T)) (reg_id r) \<le> 1" unfolding race_inv_def by blast
  then have "count (image_mset reg_id T) (reg_id r) = 0" by simp
  then show ?thesis by (simp only: not_in_iff)
qed

lemma race_list_inv:
  assumes inv: "race_inv s (add_mset r T)" and ph: "reg_phase r = Counted"
  shows "race_inv (list_ip (sock_ip (reg_peer r)) s) (add_mset (r\<lparr>reg_phase := Registered\<rparr>) T)"
proof -
  let ?n = "\<lambda>ip'. size (filter_mset (in_list ip') T)" and ?ip = "sock_ip (reg_peer r)"
  have "size (filter_mset (in_list ?ip) T) \<le> size T" by (simp add: size_filter_mset_lesseq)
  then have "Suc (?n ?ip) < 2 ^ 64" using race_inv_size [OF inv] by (simp del: size_filter_mset_lesseq)
  moreover have "table_of ?n (active_per_ip s)" using inv ph unfolding race_inv_def in_list_add by simp
  ultimately have "table_of (?n(?ip := Suc (?n ?ip))) (bump ?ip (active_per_ip s))" by (rule table_bump [rotated])
  then show ?thesis
    using inv ph unfolding race_inv_def in_list_add
    by (simp add: list_ip_def in_registry_def in_count_def)
qed

lemma race_unlist_inv:
  assumes inv: "race_inv s (add_mset r T)" and ph: "reg_phase r = Uncounted"
  shows "race_inv (unlist_ip (sock_ip (reg_peer r)) s) (add_mset (r\<lparr>reg_phase := Unlisted\<rparr>) T)"
proof -
  let ?n = "\<lambda>ip'. size (filter_mset (in_list ip') T)" and ?ip = "sock_ip (reg_peer r)"
  have "table_of (?n(?ip := Suc (?n ?ip))) (active_per_ip s)"
    using inv ph unfolding race_inv_def in_list_add by simp
  from table_unlist [OF this refl] inv ph show ?thesis
    unfolding race_inv_def in_list_add
    by (simp add: unlist_ip_def in_registry_def in_count_def)
qed

lemma race_id_inv:
  assumes inv: "race_inv s T" and room: "ids_left s" and i: "take_id s = (i, s')"
  shows "race_inv s' (add_mset \<lparr>reg_peer = p, reg_local = l, reg_id = i, reg_phase = HasId\<rparr> T)"
proof -
  let ?n = "next_client_id s"
  have s': "s' = s\<lparr>next_client_id := ?n + 1\<rparr>" "i = ?n" using i by (auto simp: take_id_def)
  have Suc: "unat (?n + 1) = Suc (unat ?n)" by (rule ids_left_Suc [OF room])
  have "?n \<notin># image_mset reg_id T" using inv by (auto simp: race_inv_def)
  then have "count (image_mset reg_id T) ?n = 0" by (simp only: not_in_iff)
  moreover have "?n < ?n + 1" "\<And>j. j < ?n \<Longrightarrow> j < ?n + 1" using Suc by (simp_all add: word_less_nat_alt)
  ultimately show ?thesis
    using inv Suc unfolding race_inv_def in_list_add
    by (auto simp: s' in_registry_def in_count_def)
qed

lemma race_row_inv:
  assumes inv: "race_inv s (add_mset r T)" and ph: "reg_phase r = HasId"
  shows "race_inv (insert_row (reg_id r) now (reg_peer r) (reg_local r) s) (add_mset (r\<lparr>reg_phase := HasRow\<rparr>) T)"
proof -
  from race_inv_fresh [OF inv] have "reg_id r \<notin># mset (map fst (client_rows s))"
    using inv ph by (auto simp: race_inv_def in_registry_def)
  then have "map fst (AList.update (reg_id r) x (client_rows s)) = map fst (client_rows s) @ [reg_id r]" for x
    by (simp add: update_keys)
  with inv ph show ?thesis
    unfolding race_inv_def in_list_add
    by (simp add: insert_row_def in_registry_def in_count_def)
qed

lemma race_remove_inv:
  assumes inv: "race_inv s (add_mset r T)" and ph: "reg_phase r = Unlisted"
  shows "race_inv (remove_row (reg_id r) s) T"
proof -
  let ?ids = "image_mset reg_id (filter_mset in_registry T)"
  from race_inv_fresh [OF inv] have "reg_id r \<notin># ?ids" by auto
  moreover have "mset (map fst (client_rows s)) = add_mset (reg_id r) ?ids"
    using inv ph by (simp add: race_inv_def in_registry_def)
  moreover have "mset (map fst (AList.delete k al)) = filter_mset (\<lambda>i. i \<noteq> k) (mset (map fst al))"
    for k :: u64 and al :: "(u64 \<times> client_record) list"
    by (induction al) auto
  moreover have "filter_mset (\<lambda>i. i \<noteq> reg_id r) ?ids = ?ids"
    by (rule trans [OF filter_mset_cong [OF refl] filter_mset_True]) (use race_inv_fresh [OF inv] in \<open>auto simp: image_iff\<close>)
  ultimately have "mset (map fst (AList.delete (reg_id r) (client_rows s))) = ?ids" by simp
  moreover have "count (image_mset reg_id T) i \<le> 1" for i
  proof -
    have "count (image_mset reg_id T) i \<le> count (image_mset reg_id (add_mset r T)) i" by simp
    also have "\<dots> \<le> 1" using inv unfolding race_inv_def by blast
    finally show ?thesis .
  qed
  ultimately show ?thesis
    using inv ph unfolding race_inv_def in_list_add
    by (simp add: remove_row_def in_count_def)
qed

lemma race_note_inv:
  assumes "race_inv s T" "run_op op s = (None, s')"
  shows "race_inv s' T"
  using assms registry_view_eqD [OF note_ops_keep [OF assms(2)]] by (simp add: race_inv_def)

lemma race_step_inv:
  assumes "race_step c c'" "race_inv (fst c) (snd c)"
  shows "race_inv (fst c') (snd c')"
  using assms
  by (cases rule: race_step.cases)
    (auto intro: race_note_inv race_id_inv race_row_inv race_count_inv race_list_inv race_unlist_inv race_remove_inv)

lemma race_reach_inv:
  assumes "race_step\<^sup>*\<^sup>* (stats_new now unix, {#}) (s, T)"
  shows "race_inv s T"
proof -
  have "race_inv (fst c) (snd c)" if "race_step\<^sup>*\<^sup>* (stats_new now unix, {#}) c" for c
    using that by (induction rule: rtranclp_induct) (auto intro: race_inv_start race_step_inv)
  from this [OF assms] show ?thesis by simp
qed

section \<open>Histories of whole operations\<close>

text \<open>
  A history in which registrations and drops are one step each is an interleaving in which nobody
  is interrupted, and its connections are all \<open>Registered\<close>.
\<close>

definition guard_of :: "registration \<Rightarrow> active_guard" where
  "guard_of r = \<lparr>guard_ip = sock_ip (reg_peer r), guard_id = reg_id r\<rparr>"

lemma begin_client_races:
  assumes "begin_client now p l s = (g, s')" "ids_left s"
  shows "\<exists>r. race_step\<^sup>*\<^sup>* (s, T) (s', add_mset r T) \<and> reg_phase r = Registered \<and> guard_of r = g"
proof -
  obtain i s1 where i: "take_id s = (i, s1)" by (cases "take_id s")
  let ?r = "\<lambda>ph. \<lparr>reg_peer = p, reg_local = l, reg_id = i, reg_phase = ph\<rparr>"
  let ?s2 = "insert_row i now p l s1"
  from begin_client_steps [OF i] assms have
    s': "s' = list_ip (sock_ip p) (count_active ?s2)" and g: "g = guard_of (?r Registered)"
    by (simp_all add: guard_of_def)
  have "race_step (s, T) (s1, add_mset (?r HasId) T)" by (rule id_step [OF assms(2) i])
  moreover have "race_step (s1, add_mset (?r HasId) T) (?s2, add_mset (?r HasRow) T)"
    using row_step [of "?r HasId"] by simp
  moreover have "race_step (?s2, add_mset (?r HasRow) T) (count_active ?s2, add_mset (?r Counted) T)"
    using count_step [of "?r HasRow"] by simp
  moreover have "race_step (count_active ?s2, add_mset (?r Counted) T) (s', add_mset (?r Registered) T)"
    using list_step [of "?r Counted"] by (simp add: s')
  ultimately have "race_step\<^sup>*\<^sup>* (s, T) (s', add_mset (?r Registered) T)" by auto
  with g show ?thesis by (intro exI [of _ "?r Registered"]) simp
qed

lemma drop_guard_races:
  assumes "reg_phase r = Registered"
  shows "race_step\<^sup>*\<^sup>* (s, add_mset r T) (drop_guard (guard_of r) s, T)"
proof -
  let ?r = "\<lambda>ph. r\<lparr>reg_phase := ph\<rparr>" and ?ip = "sock_ip (reg_peer r)"
  have "race_step (s, add_mset r T) (uncount_active s, add_mset (?r Uncounted) T)"
    using uncount_step [OF assms] .
  moreover have "race_step (uncount_active s, add_mset (?r Uncounted) T)
      (unlist_ip ?ip (uncount_active s), add_mset (?r Unlisted) T)"
    using unlist_step [of "?r Uncounted"] by simp
  moreover have "race_step (unlist_ip ?ip (uncount_active s), add_mset (?r Unlisted) T)
      (drop_guard (guard_of r) s, T)"
    using remove_step [of "?r Unlisted"] by (simp add: drop_guard_steps guard_of_def)
  ultimately show ?thesis by auto
qed

lemma stats_reach_races:
  assumes "stats_reach now unix s guards"
  shows "\<exists>T. race_step\<^sup>*\<^sup>* (stats_new now unix, {#}) (s, T) \<and> (\<forall>r\<in>#T. reg_phase r = Registered) \<and>
    image_mset guard_of T = guards"
  using assms
proof induction
  case start
  then show ?case by auto
next
  case (granted s live op g s')
  then obtain T where T: "race_step\<^sup>*\<^sup>* (stats_new now unix, {#}) (s, T)" "\<forall>r\<in>#T. reg_phase r = Registered"
    "image_mset guard_of T = live" by auto
  from granted.hyps(3) obtain now' p l where "begin_client now' p l s = (g, s')" by (auto simp: run_op_Some)
  from begin_client_races [OF this granted.hyps(2), of T] obtain r
    where "race_step\<^sup>*\<^sup>* (s, T) (s', add_mset r T)" "reg_phase r = Registered" "guard_of r = g" by blast
  with T show ?case by (intro exI [of _ "add_mset r T"]) auto
next
  case (refused s live op s')
  then obtain T where "race_step\<^sup>*\<^sup>* (stats_new now unix, {#}) (s, T)" "\<forall>r\<in>#T. reg_phase r = Registered"
    "image_mset guard_of T = live" by auto
  with note_step [OF refused.hyps(2), of T] show ?case
    by (intro exI [of _ T]) (auto intro: rtranclp.rtrancl_into_rtrancl)
next
  case (dropped s g live)
  then obtain T where T: "race_step\<^sup>*\<^sup>* (stats_new now unix, {#}) (s, T)" "\<forall>r\<in>#T. reg_phase r = Registered"
    "image_mset guard_of T = add_mset g live" by auto
  from T(3) obtain r T' where r: "T = add_mset r T'" "guard_of r = g" "image_mset guard_of T' = live"
    by (metis msed_map_invR)
  with T(2) have "race_step\<^sup>*\<^sup>* (s, add_mset r T') (drop_guard g s, T')" using drop_guard_races [of r] by simp
  with T r show ?case by (intro exI [of _ T']) auto
qed

section \<open>Properties\<close>

text \<open>
  C27. However the single steps of registrations and drops interleave, and while connection ids last, no
  reader ever sees a wrong figure: at every moment the registry holds exactly the connections between
  the insertion and the removal of their row, the active count is the number of those between the
  increment and the decrement, without wrapping, and the count of a source address the number of
  those between its two steps. When no operation is half done, all three agree.
\<close>

theorem registrations_interleave:
  assumes "race_step\<^sup>*\<^sup>* (stats_new now unix, {#}) (s, T)"
  shows "mset (map fst (client_rows s)) = image_mset reg_id (filter_mset in_registry T) \<and>
    unat (active s) = size (filter_mset in_count T) \<and>
    conns_of_ip s ip = size (filter_mset (in_list ip) T) \<and>
    ((\<forall>r\<in>#T. reg_phase r = Registered) \<longrightarrow>
       unat (active s) = length (client_rows s) \<and>
       conns_of_ip s ip = size (filter_mset (\<lambda>r. sock_ip (reg_peer r) = ip) T))"
proof -
  note inv = race_reach_inv [OF assms]
  have lt: "size (filter_mset P T) < 2 ^ 64" for P
    using race_inv_size [OF inv] size_filter_mset_lesseq [of P T] by linarith
  have rows: "mset (map fst (client_rows s)) = image_mset reg_id (filter_mset in_registry T)"
    using inv by (simp add: race_inv_def)
  have act: "unat (active s) = size (filter_mset in_count T)"
    using inv lt [of in_count] by (simp add: race_inv_def unat_of_nat take_bit_nat_eq_self)
  have conns: "conns_of_ip s ip = size (filter_mset (in_list ip) T)"
    using inv lt [of "in_list ip"]
    by (auto simp: race_inv_def table_of_def conns_of_ip_def unat_of_nat take_bit_nat_eq_self)
  have "unat (active s) = length (client_rows s)"
    "filter_mset (in_list ip) T = filter_mset (\<lambda>r. sock_ip (reg_peer r) = ip) T"
    if "\<forall>r\<in>#T. reg_phase r = Registered"
  proof -
    have "filter_mset in_registry T = T" "filter_mset in_count T = T"
      using that by (auto simp: filter_mset_eq_conv part_defs)
    with rows act show "unat (active s) = length (client_rows s)"
      by (metis length_map size_image_mset size_mset)
    show "filter_mset (in_list ip) T = filter_mset (\<lambda>r. sock_ip (reg_peer r) = ip) T"
      using that by (auto simp: in_list_def intro: filter_mset_cong)
  qed
  with rows act conns show ?thesis by metis
qed

text \<open>The example: one connection has its row while another is already counted.\<close>

theorem registrations_interleave_witness:
  "\<exists>s T. race_step\<^sup>*\<^sup>* (stats_new 0 0, {#}) (s, T) \<and> size T = 2 \<and> length (client_rows s) = 1 \<and> unat (active s) = 0"
proof -
  let ?r = "\<lambda>i ph. \<lparr>reg_peer = SocketAddrV4 7 1000, reg_local = None, reg_id = i, reg_phase = ph\<rparr>"
  let ?s = "stats_new 0 0"
  let ?s1 = "?s\<lparr>next_client_id := 1\<rparr>" and ?s2 = "?s\<lparr>next_client_id := 2\<rparr>"
  have "race_step (?s, {#}) (?s1, {#?r 0 HasId#})"
    by (rule id_step) (simp_all add: ids_left_def take_id_def stats_new_def)
  moreover have "race_step (?s1, {#?r 0 HasId#}) (?s2, {#?r 1 HasId, ?r 0 HasId#})"
    by (rule id_step) (simp_all add: ids_left_def take_id_def stats_new_def)
  moreover have "race_step (?s2, {#?r 1 HasId, ?r 0 HasId#})
      (insert_row 1 5 (SocketAddrV4 7 1000) None ?s2, {#?r 1 HasRow, ?r 0 HasId#})"
    using row_step [of "?r 1 HasId" ?s2 "{#?r 0 HasId#}" 5] by simp
  ultimately have steps: "race_step\<^sup>*\<^sup>* (?s, {#})
      (insert_row 1 5 (SocketAddrV4 7 1000) None ?s2, {#?r 1 HasRow, ?r 0 HasId#})" (is "race_step\<^sup>*\<^sup>* _ (?s3, ?T)")
    by (meson r_into_rtranclp rtranclp.rtrancl_into_rtrancl)
  from registrations_interleave [OF this]
  have "mset (map fst (client_rows ?s3)) = image_mset reg_id (filter_mset in_registry ?T)"
    "unat (active ?s3) = size (filter_mset in_count ?T)" by blast+
  then have "length (client_rows ?s3) = 1" "unat (active ?s3) = 0"
    by (simp_all add: part_defs) (metis length_map size_add_mset size_empty size_mset One_nat_def mset_map)
  with steps show ?thesis by (intro exI [of _ ?s3] exI [of _ ?T]) simp
qed

end
