(* ===== verification/Js_Number.thy ===== *)
theory Js_Number
  imports Complex_Main Text_Render
begin

text \<open>
  The numbers of the script in the dashboard page: IEEE doubles, as the rationals they stand for. An
  operation gives the double nearest to the exact result (\<open>js_round\<close>, ties to even). The values the
  page computes with are far from the smallest and the largest doubles, so that neither underflow
  nor infinity is modelled. What the page relies on is the locale \<open>rounding\<close>: rounding is monotone
  and does not change what is already a double, such as an integer up to \<open>2 ^ 53\<close>.
\<close>

section \<open>Definitions\<close>

text \<open>The integer nearest to a number, the even one if there are two.\<close>

definition nearest_even :: "rat \<Rightarrow> int" where
  "nearest_even x =
     (let f = \<lfloor>x\<rfloor>; d = x - of_int f in if d < 1 / 2 \<or> d = 1 / 2 \<and> even f then f else f + 1)"

text \<open>The exponent of a positive number: \<open>2 powi binade x \<le> x < 2 powi (binade x + 1)\<close>.\<close>

fun log2 :: "nat \<Rightarrow> nat" where
  "log2 n = (if n < 2 then 0 else Suc (log2 (n div 2)))"

declare log2.simps [simp del]

definition binade :: "rat \<Rightarrow> int" where
  "binade x =
     (if 1 \<le> x then int (log2 (nat \<lfloor>x\<rfloor>)) else - int (Suc (log2 (nat (\<lceil>1 / x\<rceil> - 1)))))"

definition round_pos :: "rat \<Rightarrow> rat" where
  "round_pos x = (let u = 2 powi (binade x - 52) in of_int (nearest_even (x / u)) * u)"

definition js_round :: "rat \<Rightarrow> rat" where
  "js_round x = (if x = 0 then 0 else if x < 0 then - round_pos (- x) else round_pos x)"

text \<open>The operators, \<open>Math.round\<close> and \<open>toFixed\<close>, which rounds the exact value half up.\<close>

definition js_add :: "rat \<Rightarrow> rat \<Rightarrow> rat" where
  "js_add a b = js_round (a + b)"

definition js_sub :: "rat \<Rightarrow> rat \<Rightarrow> rat" where
  "js_sub a b = js_round (a - b)"

definition js_mul :: "rat \<Rightarrow> rat \<Rightarrow> rat" where
  "js_mul a b = js_round (a * b)"

definition js_div :: "rat \<Rightarrow> rat \<Rightarrow> rat" where
  "js_div a b = js_round (a / b)"

definition math_round :: "rat \<Rightarrow> int" where
  "math_round x = \<lfloor>x + 1 / 2\<rfloor>"

definition show_int :: "int \<Rightarrow> bytes" where
  "show_int i = (if i < 0 then ascii ''-'' @ decimal (nat (- i)) else decimal (nat i))"

definition to_fixed :: "nat \<Rightarrow> rat \<Rightarrow> bytes" where
  "to_fixed digits x =
     (let k = nat \<lfloor>x * 10 ^ digits + 1 / 2\<rfloor>; frac = decimal (k mod 10 ^ digits) in
      decimal (k div 10 ^ digits) @ ascii ''.'' @ replicate (digits - length frac) 0x30 @ frac)"

section \<open>What rounding promises\<close>

locale rounding =
  fixes rnd :: "rat \<Rightarrow> rat" and exact :: "rat \<Rightarrow> bool"
  assumes rnd_mono: "x \<le> y \<Longrightarrow> rnd x \<le> rnd y"
    and rnd_exact: "exact x \<Longrightarrow> rnd x = x"
begin

lemma rnd_le: "x \<le> b \<Longrightarrow> exact b \<Longrightarrow> rnd x \<le> b"
  using rnd_mono [of x b] rnd_exact by simp

lemma rnd_ge: "a \<le> x \<Longrightarrow> exact a \<Longrightarrow> a \<le> rnd x"
  using rnd_mono [of a x] rnd_exact by simp

end

lemma nearest_even_int [simp]: "nearest_even (of_int i) = i"
  by (simp add: nearest_even_def)

lemma nearest_even_mono:
  assumes "x \<le> y"
  shows "nearest_even x \<le> nearest_even y"
proof (cases "\<lfloor>x\<rfloor> = \<lfloor>y\<rfloor>")
  case True
  with assms show ?thesis by (auto simp: nearest_even_def Let_def)
next
  case False
  with floor_mono [OF assms] have "\<lfloor>x\<rfloor> + 1 \<le> \<lfloor>y\<rfloor>" by simp
  moreover have "nearest_even x \<le> \<lfloor>x\<rfloor> + 1" "\<lfloor>y\<rfloor> \<le> nearest_even y" by (auto simp: nearest_even_def Let_def)
  ultimately show ?thesis by simp
qed

lemma log2_bounds: "0 < n \<Longrightarrow> 2 ^ log2 n \<le> n \<and> n < 2 ^ Suc (log2 n)"
proof (induction n rule: log2.induct)
  case (1 n)
  show ?case
  proof (cases "n < 2")
    case True
    with 1 show ?thesis by (auto simp: log2.simps)
  next
    case False
    with 1 have "2 ^ log2 (n div 2) \<le> n div 2" "n div 2 < 2 ^ Suc (log2 (n div 2))" by auto
    moreover have "log2 n = Suc (log2 (n div 2))" using False by (simp add: log2.simps)
    ultimately show ?thesis by (simp only: power_Suc) auto
  qed
qed

lemma binade_bounds:
  assumes "0 < x"
  shows "2 powi binade x \<le> x \<and> x < 2 powi (binade x + 1)"
proof (cases "1 \<le> x")
  case True
  let ?n = "nat \<lfloor>x\<rfloor>"
  from True have "0 < ?n" by simp
  from log2_bounds [OF this] have n: "2 ^ log2 ?n \<le> ?n" "Suc ?n \<le> 2 ^ Suc (log2 ?n)" by simp_all
  have x: "of_nat ?n \<le> x" "x < of_nat (Suc ?n)" using True by (simp_all add: of_nat_nat) linarith+
  from n have "(2 :: rat) ^ log2 ?n \<le> of_nat ?n" "of_nat (Suc ?n) \<le> (2 :: rat) ^ Suc (log2 ?n)"
    by (metis of_nat_le_iff of_nat_numeral of_nat_power)+
  with x have "2 ^ log2 ?n \<le> x" "x < 2 ^ Suc (log2 ?n)" by linarith+
  moreover have "binade x = int (log2 ?n)" "binade x + 1 = int (Suc (log2 ?n))" using True by (simp_all add: binade_def)
  ultimately show ?thesis by (simp only: power_int_of_nat)
next
  case False
  let ?n = "nat (\<lceil>1 / x\<rceil> - 1)"
  have "1 < 1 / x" using False assms by (simp add: field_simps)
  then have "1 < \<lceil>1 / x\<rceil>" by linarith
  then have "0 < ?n" by simp
  from log2_bounds [OF this] have n: "2 ^ log2 ?n \<le> ?n" "Suc ?n \<le> 2 ^ Suc (log2 ?n)" by simp_all
  have x: "of_nat ?n < 1 / x" "1 / x \<le> of_nat (Suc ?n)" using \<open>1 < \<lceil>1 / x\<rceil>\<close> by (simp_all add: of_nat_nat) linarith+
  from n have "(2 :: rat) ^ log2 ?n \<le> of_nat ?n" "of_nat (Suc ?n) \<le> (2 :: rat) ^ Suc (log2 ?n)"
    by (metis of_nat_le_iff of_nat_numeral of_nat_power)+
  with x have "2 ^ log2 ?n < 1 / x" "1 / x \<le> 2 ^ Suc (log2 ?n)" by linarith+
  then have "x < 1 / 2 ^ log2 ?n" "1 / 2 ^ Suc (log2 ?n) \<le> x" using assms by (simp_all add: field_simps)
  moreover have "binade x = - int (Suc (log2 ?n))" "binade x + 1 = - int (log2 ?n)" using False by (simp_all add: binade_def)
  ultimately show ?thesis by (simp only: power_int_minus power_int_of_nat inverse_eq_divide)
qed

lemma binade_mono:
  assumes "0 < x" "x \<le> y"
  shows "binade x \<le> binade y"
proof (rule ccontr)
  assume "\<not> binade x \<le> binade y"
  then have "(2 :: rat) powi (binade y + 1) \<le> 2 powi binade x" by (intro power_int_increasing) simp_all
  with binade_bounds [of x] binade_bounds [of y] assms show False by simp
qed

lemma round_pos_bounds:
  assumes "0 < x"
  shows "2 powi binade x \<le> round_pos x" "round_pos x \<le> 2 powi (binade x + 1)"
proof -
  let ?u = "(2 :: rat) powi (binade x - 52)"
  have u: "0 < ?u" "2 powi binade x = 2 ^ 52 * ?u" "2 powi (binade x + 1) = 2 ^ 53 * ?u"
    by (simp_all add: power_int_add power_int_diff)
  from binade_bounds [OF assms] u have "of_int (2 ^ 52) \<le> x / ?u" "x / ?u \<le> of_int (2 ^ 53)"
    by (simp_all add: field_simps)
  from this [THEN nearest_even_mono] have "2 ^ 52 \<le> nearest_even (x / ?u)" "nearest_even (x / ?u) \<le> 2 ^ 53"
    by (simp_all only: nearest_even_int)
  then have "(2 :: rat) ^ 52 \<le> of_int (nearest_even (x / ?u))" "of_int (nearest_even (x / ?u)) \<le> (2 :: rat) ^ 53" by simp_all
  with u(1) show "2 powi binade x \<le> round_pos x" "round_pos x \<le> 2 powi (binade x + 1)"
    unfolding round_pos_def Let_def u(2,3) by (intro mult_right_mono, simp_all)+
qed

lemma round_pos_mono:
  assumes "0 < x" "x \<le> y"
  shows "round_pos x \<le> round_pos y"
proof (cases "binade x = binade y")
  case True
  let ?u = "(2 :: rat) powi (binade y - 52)"
  have u: "0 < ?u" by simp
  with assms have "x / ?u \<le> y / ?u" by (simp add: divide_right_mono)
  from nearest_even_mono [OF this] u show ?thesis
    by (simp add: round_pos_def Let_def True)
next
  case False
  with binade_mono [OF assms] have "(2 :: rat) powi (binade x + 1) \<le> 2 powi binade y"
    by (intro power_int_increasing) simp_all
  with round_pos_bounds(2) [of x] round_pos_bounds(1) [of y] assms show ?thesis by simp
qed

text \<open>Integers up to \<open>2 ^ 53\<close> are doubles.\<close>

lemma round_pos_int:
  assumes "0 < i" "i \<le> 2 ^ 53"
  shows "round_pos (of_int i) = of_int i"
proof -
  let ?b = "binade (of_int i)" let ?u = "(2 :: rat) powi (?b - 52)"
  have "\<exists>k. of_int i / ?u = of_int k"
  proof (cases "?b \<le> 52")
    case True
    then have "?u = 1 / 2 ^ nat (52 - ?b)"
      using power_int_of_nat [of "2 :: rat" "nat (52 - ?b)"] power_int_minus [of "2 :: rat" "52 - ?b"]
      by (simp add: inverse_eq_divide)
    then have "of_int i / ?u = of_int (i * 2 ^ nat (52 - ?b))" by simp
    then show ?thesis by blast
  next
    case False
    then have "(2 :: rat) ^ 53 \<le> 2 powi ?b"
      using power_int_increasing [of 53 ?b "2 :: rat"] by simp
    also have "\<dots> \<le> of_int i" using binade_bounds [of "of_int i"] assms by simp
    finally have "(2 :: int) ^ 53 \<le> i" by (metis of_int_le_iff of_int_numeral of_int_power)
    with assms have i: "i = 2 ^ 53" by simp
    then have "?b = 53"
      using binade_bounds [of "of_int i"] False power_int_increasing [of 54 ?b "2 :: rat"] by (cases "?b = 53") auto
    then show ?thesis by (simp add: i)
  qed
  then obtain k where k: "of_int i / ?u = of_int k" by blast
  then have "of_int k * ?u = of_int i" by (simp flip: k)
  with k show ?thesis by (simp add: round_pos_def Let_def)
qed

interpretation js: rounding js_round "\<lambda>x. \<exists>i. x = of_int i \<and> \<bar>i\<bar> \<le> 2 ^ 53"
proof
  fix x y :: rat
  assume le: "x \<le> y"
  have pos: "0 \<le> round_pos z" if "0 < z" for z
    using round_pos_bounds(1) [OF that] by (meson order_trans zero_le_numeral zero_le_power_int)
  show "js_round x \<le> js_round y"
    using le round_pos_mono [of x y] round_pos_mono [of "- y" "- x"] pos [of y] pos [of "- x"]
    by (auto simp: js_round_def)
next
  fix x :: rat
  assume "\<exists>i. x = of_int i \<and> \<bar>i\<bar> \<le> 2 ^ 53"
  then obtain i where x: "x = of_int i" "\<bar>i\<bar> \<le> 2 ^ 53" by blast
  show "js_round x = x"
    using round_pos_int [of i] round_pos_int [of "- i"] x by (auto simp: js_round_def)
qed


lemma js_round_int [simp]: "\<bar>i\<bar> \<le> 2 ^ 53 \<Longrightarrow> js_round (of_int i) = of_int i"
  by (rule js.rnd_exact) blast

lemma js_round_simps [simp]:
  "js_round 0 = 0" "js_round 1 = 1" "numeral n \<le> (2 :: int) ^ 53 \<Longrightarrow> js_round (numeral n) = numeral n"
  using js_round_int [of 0] js_round_int [of 1] js_round_int [of "numeral n"] by auto

lemma js_round_ge_0: "0 \<le> x \<Longrightarrow> 0 \<le> js_round x"
  using js.rnd_mono [of 0 x] by simp

lemma js_round_gt_0: "0 < x \<Longrightarrow> 0 < js_round x"
  using round_pos_bounds(1) [of x] less_le_trans [of "0 :: rat" "2 powi binade x"] by (simp add: js_round_def)

lemma js_round_between:
  assumes "of_int i \<le> x" "x \<le> of_int j" "\<bar>i\<bar> \<le> 2 ^ 53" "\<bar>j\<bar> \<le> 2 ^ 53"
  shows "of_int i \<le> js_round x" "js_round x \<le> of_int j"
  using assms by (blast intro: js.rnd_ge js.rnd_le)+

end
