(* ===== verification/Dashboard.thy ===== *)
theory Dashboard
  imports Js_Number Http
begin

text \<open>
  The script of the dashboard page (\<open>DASHBOARD_HTML\<close> in \<open>src/stats/http.rs\<close>). It polls the statistics
  service once a second and shows what it gets. The page is a record of what the script keeps and
  of the parts of the document it writes, all of them text: the status dot, the status line, the
  lists and tables by their element ids, and the sparkline. A poll is \<open>tick\<close>: \<open>now\<close> is the clock when it
  started, \<open>res\<close> what the two fetches gave, \<open>None\<close> if one of them failed or was not JSON. Polls may
  overlap, so that the clock of one may be behind that of the one before.

  Parameters, in \<open>browser\<close>: whether there is a canvas, and the rendering of a date. Counters and times
  are taken to be below \<open>2 ^ 53\<close>, where the numbers of the script are exact and print as integers.
  Colours and line widths are not modelled.
\<close>

section \<open>Definitions\<close>

definition SPARK_LEN :: nat where
  "SPARK_LEN = 60"

text \<open>The size of the canvas, from its element.\<close>

definition canvas_width :: rat where
  "canvas_width = 600"

definition canvas_height :: rat where
  "canvas_height = 64"

record browser =
  has_canvas :: bool
  iso_date :: "nat \<Rightarrow> bytes"

datatype cell = Cell bytes | EmptyCell nat bytes

record page =
  activeHistory :: "rat list"
  last_up :: rat
  last_down :: rat
  last_t :: rat
  dot_class :: bytes
  meta :: bytes
  kv :: "string \<Rightarrow> (bytes \<times> bytes) list"
  table_rows :: "string \<Rightarrow> cell list list"
  spark :: "(rat \<times> rat) list"
  spark_fill :: "(rat \<times> rat) list"
  spark_min :: bytes
  spark_max :: bytes

definition dash :: bytes where
  "dash = [0xE2, 0x80, 0x94]"


definition unit_names :: "bytes list" where
  "unit_names = [ascii ''B'', ascii ''kB'', ascii ''MB'', ascii ''GB'', ascii ''TB'']"

function scale :: "nat \<Rightarrow> rat \<Rightarrow> nat \<times> rat" where
  "scale i n = (if 1000 \<le> n \<and> i < length unit_names - 1 then scale (Suc i) (js_div n 1000) else (i, n))"
  by auto
termination
  by (relation "measure (\<lambda>(i, n). length unit_names - i)") auto

declare scale.simps [simp del]

definition fmtBytes :: "rat \<Rightarrow> bytes" where
  "fmtBytes n =
     (case scale 0 n of (i, n) \<Rightarrow>
        (if i < 2 then show_int (math_round n)
         else if n < 10 then to_fixed 2 n
         else if n < 100 then to_fixed 1 n
         else show_int (math_round n)) @ ascii '' '' @ unit_names ! i)"

definition fmtRate :: "rat \<Rightarrow> bytes" where
  "fmtRate bps = (if bps < 1 then ascii ''0 B/s'' else fmtBytes bps @ ascii ''/s'')"


definition setKV :: "string \<Rightarrow> (bytes \<times> bytes) list \<Rightarrow> page \<Rightarrow> page" where
  "setKV i pairs p = p\<lparr>kv := (kv p)(i := map (\<lambda>(k, v). (k @ ascii '':'', v)) pairs)\<rparr>"

definition setRows :: "string \<Rightarrow> nat \<Rightarrow> bytes list list \<Rightarrow> page \<Rightarrow> page" where
  "setRows i cols rows p =
     p\<lparr>table_rows := (table_rows p)(i :=
         if rows = [] then [[EmptyCell cols (ascii ''none'')]] else map (map Cell) rows)\<rparr>"

definition drawSpark :: "browser \<Rightarrow> page \<Rightarrow> page" where
  "drawSpark b p =
     (if \<not> has_canvas b then p
      else
        let w = canvas_width; h = canvas_height; hist = activeHistory p;
            lo = foldl (\<lambda>lo v. if v < lo then v else lo) (hd hist) (tl hist);
            hi = foldl (\<lambda>hi v. if v > hi then v else hi) (hd hist) (tl hist);
            pad = js_mul (js_sub hi lo) (js_round (15 / 100));
            ymin = max 0 (js_sub lo pad);
            ymax = js_add hi pad;
            ymax = (if js_sub ymax ymin < js_round (1 / 10000) then js_add ymin 1 else ymax);
            span = js_sub ymax ymin;
            point = (\<lambda>(j, v). (js_mul (js_div (of_nat j) (of_nat (SPARK_LEN - 1))) w,
              js_sub (js_sub h 2) (js_mul (js_div (js_sub v ymin) span) (js_sub h 4))));
            line = map point (enumerate 0 hist)
        in p\<lparr>spark := line, spark_fill := line @ [(w, h), (0, h)],
             spark_min := ascii ''min '' @ show_int \<lfloor>lo\<rfloor>, spark_max := ascii ''max '' @ show_int \<lfloor>hi\<rfloor>\<rparr>)"


text \<open>How the values of the service come out of its JSON: counters as numbers, addresses as strings.\<close>

definition num :: "u64 \<Rightarrow> rat" where
  "num x = js_round (of_nat (unat x))"

abbreviation show_u64 :: "u64 \<Rightarrow> bytes" where
  "show_u64 x \<equiv> decimal (unat x)"

fun show_ip :: "ip_addr \<Rightarrow> bytes" where
  "show_ip (IpV4 a) = display_ipv4 a"
| "show_ip (IpV6 a) = display_ipv6 a"

definition or_dash :: "bytes \<Rightarrow> bytes" where
  "or_dash t = (if t = [] then dash else t)"

definition arrow :: bytes where
  "arrow = [0x20, 0xE2, 0x86, 0x92, 0x20]"



fun join_text :: "bytes \<Rightarrow> bytes list \<Rightarrow> bytes" where
  "join_text sep [] = []"
| "join_text sep [x] = x"
| "join_text sep (x # y # xs) = x @ sep @ join_text sep (y # xs)"

fun replace_first :: "u8 \<Rightarrow> u8 \<Rightarrow> bytes \<Rightarrow> bytes" where
  "replace_first a b [] = []"
| "replace_first a b (x # xs) = (if x = a then b # xs else x # replace_first a b xs)"

definition show_snapshot :: "browser \<Rightarrow> rat \<Rightarrow> rat \<Rightarrow> snapshot \<Rightarrow> page \<Rightarrow> page" where
  "show_snapshot b rateUp rateDown s p =
     (let p = setKV ''server''
            [(ascii ''listeners'', or_dash (join_text (ascii '', '') (sv_listeners (sn_server s)))),
             (ascii ''started'', replace_first 0x54 0x20 (take 19 (iso_date b (sv_started_at_unix (sn_server s)))) @ ascii ''Z'')] p;
          c = sn_connections s;
          p = setKV ''connections''
            [(ascii ''active'', show_u64 (cn_active c)), (ascii ''accepted total'', show_u64 (cn_accepted_total c)),
             (ascii ''refused (per-IP)'', show_u64 (cn_refused_per_ip_total c)),
             (ascii ''handshake timeouts'', show_u64 (cn_handshake_timeouts c)),
             (ascii ''auth failures'', show_u64 (cn_auth_failures c)), (ascii ''disconnects'', show_u64 (cn_disconnects c))] p;
          d = sn_dns s;
          p = setKV ''dns''
            [(ascii ''enabled'', if dns_enabled d then ascii ''true'' else ascii ''false''),
             (ascii ''entries'', decimal (snap_entries d) @ ascii '' / '' @ decimal (snap_max_entries d)),
             (ascii ''ttl'', decimal (ttl_secs d) @ ascii ''s''), (ascii ''hits'', show_u64 (snap_hits d)),
             (ascii ''misses'', show_u64 (snap_misses d)), (ascii ''inserts'', show_u64 (snap_inserts d)),
             (ascii ''evictions'', show_u64 (snap_evictions d)), (ascii ''expired'', show_u64 (snap_expired_dropped d))] p;
          t = sn_traffic s;
          p = setKV ''traffic''
            [(ascii ''client'' @ arrow @ ascii ''target'', fmtBytes (num (tr_client_to_target t))),
             (ascii ''target'' @ arrow @ ascii ''client'', fmtBytes (num (tr_target_to_client t))),
             (ascii ''rate up'', fmtRate rateUp), (ascii ''rate down'', fmtRate rateDown),
             (ascii ''udp datagrams'', show_u64 (tr_udp_datagrams t)), (ascii ''CONNECT'', show_u64 (rq_connect (tr_requests t))),
             (ascii ''BIND'', show_u64 (rq_bind (tr_requests t))),
             (ascii ''UDP ASSOCIATE'', show_u64 (rq_udp_associate (tr_requests t)))] p;
          p = setKV ''errors''
            (if sn_errors s \<noteq> [] then map (\<lambda>e. (es_name e, show_u64 (es_count e))) (sn_errors s)
             else [(ascii ''none'', decimal 0)]) p;
          p = setRows ''per-ip'' 2 (map (\<lambda>(ip, count). [show_ip ip, show_u64 count]) (cn_active_per_ip c)) p
      in setRows ''names'' 2 (map (\<lambda>n. [dn_name n, decimal (expires_in_secs n) @ ascii ''s'']) (snap_names d)) p)"

definition show_clients :: "client_view list \<Rightarrow> page \<Rightarrow> page" where
  "show_clients clients =
     setRows ''clients'' 7
       (map (\<lambda>cl. [show_u64 (cv_id cl), display_socket_addr (cv_peer cl), cv_state cl,
               or_dash (case cv_command cl of Some c \<Rightarrow> c | None \<Rightarrow> []),
               fmtBytes (num (cv_client_to_target cl)), fmtBytes (num (cv_target_to_client cl)),
               decimal (elapsed_secs cl) @ ascii ''s'']) clients)"


section \<open>The sparkline\<close>

lemmas page_updates = setKV_def setRows_def show_snapshot_def show_clients_def Let_def

lemma show_frame [simp]:
  "activeHistory (show_clients cl (show_snapshot b ru rd s p)) = activeHistory p"
  "spark (show_clients cl (show_snapshot b ru rd s p)) = spark p"
  "last_t (show_clients cl (show_snapshot b ru rd s p)) = last_t p"
  by (simp_all add: page_updates)







section \<open>Every history of the page\<close>





lemma drawSpark_frame [simp]: "activeHistory (drawSpark b p) = activeHistory p" "last_t (drawSpark b p) = last_t p"
  by (simp_all add: drawSpark_def Let_def)




section \<open>Polling the service\<close>











section \<open>What the page shows\<close>
















section \<open>Properties\<close>






end
