(* ===== verification/Spec2Isabelle.thy ===== *)
theory Spec2Isabelle
  imports Startup Stats_Race Dashboard
begin

text \<open>
  Verification of merino, a SOCKS5 proxy server in Rust (\<open>src/src\<close>).

  \<^bold>\<open>The program.\<close> \<open>main.rs\<close> reads options, loads the users file and configures a server. Two front ends,
  \<open>Merino\<close> (\<open>lib.rs\<close>, tokio tasks) and \<open>SocksServer\<close> (\<open>actors.rs\<close>, actix actors), bind the listeners and run
  the same accept loop, which takes a permit of the connection semaphore, accepts, asks the
  per-source limiter, and hands the client to \<open>run_client\<close>. A connection registers with the
  statistics (\<open>stats.rs\<close>), negotiates (greeting, method, login, request), executes \<open>CONNECT\<close>, \<open>BIND\<close> or
  \<open>UDP ASSOCIATE\<close>, and is answered with an error reply when something fails. The statistics are served
  over HTTP by \<open>stats/http.rs\<close>.

  \<^bold>\<open>The theories\<close>, in the order they build on each other:
  \<^item> \<open>Prelude\<close>: machine integers, bytes, big-endian conversions, \<open>Result\<close> as a sum with \<open>bindE\<close> for \<open>?\<close>,
    lemmas on lists and association lists.
  \<^item> \<open>Wire\<close>: the data types, parsers and encoders of the protocol (\<open>parse_greeting\<close>, \<open>parse_userpass\<close>,
    \<open>parse_request\<close>, \<open>parse_udp_header\<close>, \<open>encode_udp_header\<close>, \<open>SocksReply\<close>) and the error codes. The locale
    \<open>frame_codec\<close> states what a frame parser promises; it is interpreted for all four. The lemmas
    show that the parsers accept exactly the frames of the layouts of RFC 1928 and 1929; they hand the
    version octet back unchecked, and the negotiation demands its value.
  \<^item> \<open>Credentials\<close>: \<open>ct_eq\<close>, \<open>authed\<close>, \<open>load_users\<close>, \<open>select_auth_methods\<close>; the constant-time check decides
    membership in the list of accounts (locale \<open>login_check\<close>).
  \<^item> \<open>Async_IO\<close>: asynchronous computations (return, error, pending for ever, panic) and streams described
    by what the peer delivers and how each write fares; \<open>calm\<close> computations do not panic.
  \<^item> \<open>Slots\<close>: the contract of a counter of owned slots (locale \<open>slot_counter\<close>): counts are those of the
    multiset of live slots. Interpreted for the limiter and, twice, for the statistics.
  \<^item> \<open>Limiter\<close>: \<open>PerIpLimiter\<close> and \<open>IpSlot\<close>. \<open>Text_Render\<close>: log rendering, UTF-8, number and address formatting,
    cache keys. \<open>Dns_Cache\<close>: \<open>DnsCache\<close> and \<open>addr_to_socket\<close>; \<open>cache_step\<close> is any history of the cache, under
    any iteration order of the hash map, \<open>apply_ops\<close> the same with the operations and their times as a
    list, and the locale \<open>positive_cache\<close> what resolution relies on. A
    resolution comes with what other connections do to the cache while it waits (\<open>resolution\<close>).
  \<^item> \<open>Stats\<close>: counters (64-bit, wrapping), registry, guards, snapshots; every interleaving of operations
    keeps the registry equal to the live guards while connection ids last. \<open>Stats_Race\<close>: registration and
    release in their single steps (\<open>race_step\<close>), each part exact at every moment of any interleaving.
  \<^item> \<open>Connect\<close>: \<open>connect_any\<close>, staggered attempts as timed outcomes. \<open>Relay\<close>:
    \<open>copy_bidirectional_counted\<close>, driven by a schedule of its \<open>select!\<close>.
  \<^item> \<open>Handshake\<close>: \<open>SOCKClient\<close>, \<open>auth\<close>, \<open>from_stream\<close>, \<open>negotiate\<close>, with an exact characterisation of the sessions
    that succeed. \<open>Udp\<close>: the association loop. \<open>Commands\<close>: \<open>handle_request\<close>, \<open>handle_bind\<close>, \<open>init\<close>, \<open>run_client\<close>.
    \<open>Footprint\<close>: the predicate \<open>keeps\<close>, with one rule per combinator, says that a connection does not read
    the shared statistics and writes to them in single notes, makes cache steps on the shared cache if
    the others do, and does not panic. \<open>Client\<close>: what a connection does on the wire.
  \<^item> \<open>Server\<close>: \<open>bind_all\<close>, both front ends and their setters, accept loops and connection tasks as the step
    relation \<open>server_step\<close>. Its invariant \<open>server_inv\<close> says that permits are conserved and that the limiter
    and the statistics are in states of their own histories, with the slots and guards the
    connections own; the limits follow from the facts of \<open>Limiter\<close> and \<open>Stats\<close>. Besides, the cache changes
    by cache steps only and every connection starts with the accounts of the server. A task knows
    whose statistics it was handed; both front ends hand it those of the server.
  \<^item> \<open>Http\<close>: reading and parsing a request head, token check, routes, responses, connection budget.
    \<open>Dashboard\<close>: the script of the dashboard page as a state machine of polls, over the doubles of
    \<open>Js_Number\<close>, whose rounding satisfies the locale \<open>rounding\<close>; the sparkline stays in its canvas, and
    \<open>page_shows\<close> says what a successful poll puts on the page in terms of the server's state.
  \<^item> \<open>Startup\<close>: \<open>main\<close> from the options to the started program (\<open>main_start\<close>), and the running program
    (\<open>program_step\<close>): the server actor, the statistics task, signals, and the abort that a panic is in the
    released build. This theory holds what spans all components, from the command line on.

  \<^bold>\<open>What is shown.\<close> Security: no client gets past the negotiation without an account when none is
  meant to (from the users file on), the limits of the command line hold in every reachable state of
  the program, nothing makes it abort while its options are in range, an association serves
  one client, \<open>BIND\<close> relays for the named peer only, the statistics need their token, the
  rendering of a requested address for the log is printable. Function: parsers and encoders agree with
  the frame layouts and with each other, a relay and a whole proxied connection are transparent, the
  cache serves an answer for its lifetime while there is room and stays bounded, errors give the documented reply codes once. Progress: relays between peers that close
  finish, a reachable address is reached in time, accept loops do not lock up. Some theorems describe
  behaviour that is not as intended: a relay error writes a SOCKS reply into the relayed
  stream, a stalled direction stops the other, idle listeners keep permits from others, an
  error is counted for a reply that was not sent, an excessive cache lifetime panics, and the
  dashboard cannot get past the token of its own service.

  \<^bold>\<open>Modelling choices.\<close> Rust's \<open>usize\<close> and \<open>u64\<close> are 64-bit words; durations and instants are natural
  numbers (milliseconds for connections, nanoseconds for the cache). Code outside the
  repository is a parameter: the resolver, the network and the operating system (\<open>net_env\<close>, \<open>socket_api\<close>),
  the tokio semaphore (\<open>semaphore_api\<close> with \<open>semaphore_laws\<close>), the CSV reader and the file system, the JSON
  serializer, the unspecified hash of the standard library. Loops that wait for the outside world
  are driven by the list of what happens: a relay or an association whose list is used up is still
  running (\<open>Pending\<close>), and \<open>relay_finishes\<close> says how long a list is enough. All other recursions are
  total; there is no fuel. Connections are modelled twice: one at a time with all their effects
  (\<open>Commands\<close>), and interleaved with what they do to the shared state (\<open>server_step\<close>). That the first
  refines the second is \<open>run_client_simulated\<close>, with other users of the cache at every wait, and
  \<open>run_client_interleaves\<close>, with any steps of the server between the notes of the connection.

  \<^bold>\<open>Not modelled.\<close> Log output but for the warnings of \<open>main\<close>, the command line parser (derived by a
  library), the markup and style of the dashboard page, the browser it runs in, the internals of the
  actor system, poisoned locks (a thread that panics ends the released program), tests, fuzz targets
  and benchmarks. In \<open>server_step\<close> registering and dropping a guard are one step each; that their
  interleavings show no wrong figure either is \<open>Stats_Race\<close>.
\<close>

section \<open>From the command line to a served client\<close>

lemma accepted_client_fields:
  "stream (accepted_client ctx d s l) = s" "stream (connection (accepted_client ctx d s l) st) = s"
  "auth_methods (connection (accepted_client ctx d s l) st) = ctx_auth_methods ctx"
  "authed_users (connection (accepted_client ctx d s l) st) = ctx_users ctx"
  "cred_width (connection (accepted_client ctx d s l) st) = credential_width (ctx_users ctx)"
  by (simp_all add: accepted_client_def connection_def set_stats_def set_local_addr_def set_dns_cache_def
      with_credential_width_def sock_client.defs Let_def split: option.splits)

text \<open>The example: one account, everything else as the defaults have it.\<close>

definition demo_startup :: "(unit, unit, unit) startup_env" where
  "demo_startup =
     \<lparr>open_file = Inr, file_mode = (\<lambda>_. Inr 0x180), csv_records = (\<lambda>_. [Inr (user_new (ascii ''alice'') (ascii ''secret''))]),
      host_addrs = (\<lambda>_ p. Inr [SocketAddrV4 0x7F000001 p]), to_socket_addrs = (\<lambda>_. Inr []), sockets = demo_sockets,
      tokio_bind = (\<lambda>a. Inr \<lparr>listener_addr = Inr a\<rparr>), rust_log = None\<rparr>"

definition demo_options :: "unit opt" where
  "demo_options = default_opt\<lparr>users_path := Some ()\<rparr>"

definition demo_started :: "nat server" where
  "demo_started =
     \<lparr>free = 1024, loops = [Acquiring], tasks = {#}, limiter = None, cache = None,
      sstats = note_listeners [SocketAddrV4 0x7F000001 1080] (stats_new 0 0)\<rparr>"

definition demo_users_context :: server_context where
  "demo_users_context =
     \<lparr>ctx_users = [user_new (ascii ''alice'') (ascii ''secret'')], ctx_auth_methods = [2], ctx_timeout = None\<rparr>"

lemma demo_main_start:
  "\<exists>server server'. main_start demo_startup 0 0 demo_options =
      Inr (\<lparr>prog_status = Up, prog_proxy = Inl server, prog_stats = None\<rparr> :: nat program, []) \<and>
    socks_started counting_semaphore server = (server', Some demo_started) \<and> socks_context server = demo_users_context"
  by (simp add: main_start_def main_setup_def demo_startup_def demo_options_def default_opt_def load_users_def socks_bind_def bind_all_def
      bind_listeners_def bind_listener_def demo_sockets_def Let_def setup_warnings_def socks_started_def
      counting_semaphore_def demo_started_def demo_users_context_def socks_context_def socks_set_stats_def
      socks_set_max_connections_def socks_set_max_connections_per_ip_def DEFAULT_MAX_CONNECTIONS_def
      socks_local_addrs_def select_auth_methods_def)

text \<open>The example program after its first client, with the session \<open>strm\<close>, has been accepted.\<close>

definition demo_program :: "stream \<Rightarrow> nat program" where
  "demo_program strm =
     \<lparr>prog_status = Up, prog_proxy = Inr (demo_users_context,
        on_accept counting_semaphore demo_users_context actor_spawn (Accepted strm (SocketAddrV4 9 4000) None)
          (demo_started\<lparr>free := 1023\<rparr>)), prog_stats = None\<rparr>"

lemma demo_program_reached:
  "\<exists>p. main_start demo_startup 0 0 demo_options = Inr (p, []) \<and>
     (program_step counting_semaphore 0)\<^sup>*\<^sup>* p (demo_program strm)"
proof -
  let ?P = "\<lambda>x. \<lparr>prog_status = Up, prog_proxy = x, prog_stats = None\<rparr> :: nat program"
  obtain server server' where m: "main_start demo_startup 0 0 demo_options = Inr (?P (Inl server), [])"
    "socks_started counting_semaphore server = (server', Some demo_started)" "socks_context server = demo_users_context"
    using demo_main_start by blast
  let ?s1 = "demo_started\<lparr>free := 1023, loops := [Accepting]\<rparr>"
  let ?s2 = "on_accept counting_semaphore demo_users_context actor_spawn (Accepted strm (SocketAddrV4 9 4000) None)
      (?s1\<lparr>loops := (loops ?s1)[0 := Acquiring]\<rparr>)"
  have first: "program_step counting_semaphore 0 (?P (Inl server)) (?P (Inr (demo_users_context, demo_started)))"
    using program_step.actor_starts [of "?P (Inl server)" server counting_semaphore server' demo_started 0] m by simp
  have "server_step counting_semaphore demo_users_context actor_spawn demo_started ?s1"
    using server_step.acquire [of 0 demo_started counting_semaphore 1023 demo_users_context actor_spawn]
    by (simp add: demo_started_def counting_semaphore_def)
  then have second: "program_step counting_semaphore 0 (?P (Inr (demo_users_context, demo_started))) (?P (Inr (demo_users_context, ?s1)))"
    using program_step.proxy_runs [of "?P (Inr (demo_users_context, demo_started))"] by simp
  have "server_step counting_semaphore demo_users_context actor_spawn ?s1 ?s2"
    by (rule server_step.accept) simp_all
  then have third: "program_step counting_semaphore 0 (?P (Inr (demo_users_context, ?s1))) (?P (Inr (demo_users_context, ?s2)))"
    using program_step.proxy_runs [of "?P (Inr (demo_users_context, ?s1))"] by simp
  have "(program_step counting_semaphore 0)\<^sup>*\<^sup>* (?P (Inl server)) (?P (Inr (demo_users_context, ?s2)))"
    by (rule rtranclp.rtrancl_into_rtrancl, rule rtranclp.rtrancl_into_rtrancl, rule r_into_rtranclp)
      (fact first second third)+
  moreover have "?P (Inr (demo_users_context, ?s2)) = demo_program strm"
    by (simp add: demo_program_def demo_started_def)
  ultimately show ?thesis using m(1) by metis
qed

lemma demo_program_task:
  "\<exists>s t. prog_proxy (demo_program strm) = Inr (demo_users_context, s) \<and> t \<in># tasks s \<and> cache s = None \<and>
    task_phase t = Spawned (accepted_client demo_users_context None strm None)"
  by (simp add: demo_program_def demo_started_def actor_spawn_tokio)

section \<open>Properties\<close>

text \<open>
  C2. A program started with \<open>--users FILE\<close> and without \<open>--no-auth\<close> is a closed proxy: whatever the other
  options, in every state it reaches, every client it has accepted whose negotiation succeeds has
  sent the name and the password of one record of that file, before its request; and the file was
  readable by its owner only, or the operator said \<open>--allow-insecure\<close>.
\<close>

theorem users_file_guards_proxy:
  assumes "main_start env now unix opt = Inr (p0, ws)" "users_path opt = Some file" "\<not> no_auth opt"
    and "(program_step sem T)\<^sup>*\<^sup>* p0 p" "prog_proxy p = Inr (ctx, s)"
    and "t \<in># tasks s" "task_phase t = Spawned client"
    and "negotiate (connection client st) = (Done req, c')"
  shows "\<exists>f m users ms u rsv rest. open_file env file = Inr f \<and> file_mode env f = Inr m \<and>
    (m AND 63 = 0 \<or> allow_insecure opt) \<and> csv_records env f = map Inr users \<and>
    rx (stream client) = greeting_frame SOCKS_VERSION ms @ userpass_frame u @ request_frame rsv req @ rest \<and>
    (up_username u, up_password u) \<in> user_accounts users"
proof -
  from program_reach [OF assms(1,4)] assms(5) obtain server addr where
    m: "main_setup env now unix opt = Inr (server, addr, stats_token opt)" and inv: "proxy_inv sem server (Inr (ctx, s))"
    by auto
  note cfg = main_setup_Inr [OF m] and srv = proxy_inv_server [OF inv m]
  have ctx: "ctx_users ctx = act_users server" "ctx_auth_methods ctx = act_auth_methods server"
    by (simp_all add: srv(1) socks_context_def)
  from srv(2) assms(6,7) obtain d strm l where client: "client = accepted_client ctx d strm l"
    unfolding clients_ok_def by blast
  from cfg(2) assms(2) obtain f m where f: "open_file env file = Inr f" "file_mode env f = Inr m"
    "m AND 63 = 0 \<or> allow_insecure opt" "csv_records env f = map Inr (act_users server)"
    by (auto simp: load_users_Inr)
  have "auth_byte NoAuth \<notin> set (auth_methods (connection client st))"
    using assms(2,3) cfg(1)
    by (simp add: client accepted_client_fields ctx select_auth_methods_cases del: auth_byte.simps)
  moreover have "credential_width (authed_users (connection client st)) \<le> cred_width (connection client st)"
    by (simp add: client accepted_client_fields)
  ultimately obtain ms u rsv rest where
    "rx (stream client) = greeting_frame SOCKS_VERSION ms @ userpass_frame u @ request_frame rsv req @ rest"
    "(up_username u, up_password u) \<in> user_accounts (act_users server)"
    using negotiate_needs_login [OF assms(8)] by (auto simp: client accepted_client_fields ctx)
  with f show ?thesis by blast
qed

lemma demo_client_negotiates:
  "\<exists>c'. negotiate (connection (accepted_client demo_users_context None (stream (demo_conn (ascii ''secret''))) None) st) =
     (Done demo_request, c')"
proof -
  let ?u = "demo_login (ascii ''secret'')" and ?s = "stream (demo_conn (ascii ''secret''))"
  define c where "c = connection (accepted_client demo_users_context None ?s None) st"
  have fields: "auth_methods c = [2]" "stream c = ?s" "authed_users c = authed_users (demo_conn [])"
    "cred_width c = cred_width (demo_conn [])"
    unfolding c_def by (simp_all add: accepted_client_fields demo_users_context_def)
  then have "client_authed c (ascii ''alice'') (ascii ''secret'')"
    using demo_authed [of "ascii ''secret''"] by (simp add: client_authed_def)
  then have "login_ok c [0, 2] (userpass_frame ?u) [Sent [SOCKS_VERSION, 2], Sent [1, 0]]"
    by (auto simp: login_ok_def demo_login_def ascii_def wf_userpass_def fields intro!: exI [of _ ?u])
  then have "\<exists>c'. negotiate c = (Done demo_request, c')"
    unfolding negotiate_Done_iff
    by (intro exI [of _ "greeted SOCKS_VERSION 2 (after [] [Sent [SOCKS_VERSION, 2], Sent [1, 0]] c)"]
        exI [of _ "[0, 2]"] exI [of _ "userpass_frame ?u"] exI [of _ 0] exI [of _ "[]"]
        exI [of _ "[Sent [SOCKS_VERSION, 2], Sent [1, 0]]"])
      (simp add: fields tx_ok_def SOCKS_VERSION_def demo_request_def wf_request_def)
  then show ?thesis unfolding c_def .
qed

theorem users_file_guards_proxy_witness:
  "\<exists>p0. main_start demo_startup 0 0 demo_options = Inr (p0, []) \<and>
    (program_step counting_semaphore 0)\<^sup>*\<^sup>* p0 (demo_program (stream (demo_conn (ascii ''secret'')))) \<and>
    (\<exists>ms u rsv rest. rx (stream (demo_conn (ascii ''secret''))) =
      greeting_frame SOCKS_VERSION ms @ userpass_frame u @ request_frame rsv demo_request @ rest \<and>
      (up_username u, up_password u) \<in> user_accounts [user_new (ascii ''alice'') (ascii ''secret'')])"
proof -
  let ?s = "stream (demo_conn (ascii ''secret''))"
  obtain p0 where p0: "main_start demo_startup 0 0 demo_options = Inr (p0, [])"
    "(program_step counting_semaphore 0)\<^sup>*\<^sup>* p0 (demo_program ?s)" using demo_program_reached by blast
  obtain s t where s: "prog_proxy (demo_program ?s) = Inr (demo_users_context, s)" "t \<in># tasks s"
    "task_phase t = Spawned (accepted_client demo_users_context None ?s None)"
    using demo_program_task by blast
  obtain c' where neg: "negotiate (connection (accepted_client demo_users_context None ?s None) (stats_new 0 0)) =
      (Done demo_request, c')" using demo_client_negotiates by blast
  have "users_path demo_options = Some ()" "\<not> no_auth demo_options" by (simp_all add: demo_options_def default_opt_def)
  from users_file_guards_proxy [OF p0(1) this p0(2) s neg] obtain users ms u rsv rest
    where "csv_records demo_startup () = map Inr users"
      "rx ?s = greeting_frame SOCKS_VERSION ms @ userpass_frame u @ request_frame rsv demo_request @ rest"
      "(up_username u, up_password u) \<in> user_accounts users"
    by (auto simp: accepted_client_fields)
  moreover from this(1) have "users = [user_new (ascii ''alice'') (ascii ''secret'')]"
    by (auto simp: demo_startup_def)
  ultimately show ?thesis using p0 by blast
qed

text \<open>
  C3. The released program is built to abort on a panic, which ends all connections at once. With
  options in range, it never does: if the semaphore of the runtime takes as many permits as are asked
  for, and the lifetime of cached names, added to any time of the machine's clock up to \<open>T\<close>, is a
  representable instant, then nothing clients, resolvers, targets and signals do in any order makes
  the program abort.
\<close>

theorem program_never_aborts:
  assumes "main_start env now unix opt = Inr (p0, ws)" "(program_step sem T)\<^sup>*\<^sup>* p0 p"
    and "\<forall>n\<le>M. sem_new sem n \<noteq> None" "opt_max_connections opt \<le> M" "MAX_STATS_SOCKETS \<le> M"
    and "T + unat (dns_cache_ttl opt) * 10 ^ 9 \<le> INSTANT_MAX"
  shows "prog_status p \<noteq> Aborted"
  using assms(2)
proof (induction rule: rtranclp_induct)
  case base
  from main_start_inv [OF assms(1)] show ?case by auto
next
  case (step q r)
  from program_reach [OF assms(1) step.hyps(1)] obtain server addr where
    "proxy_inv sem server (prog_proxy q)" "main_setup env now unix opt = Inr (server, addr, stats_token opt)" by blast
  from program_step_calm [OF step.hyps(2) step.IH this, of M] assms(3-6) show ?case by simp
qed

theorem program_never_aborts_witness:
  "\<exists>p0. main_start demo_startup 0 0 demo_options = Inr (p0, []) \<and>
    (program_step counting_semaphore 0)\<^sup>*\<^sup>* p0 (demo_program (stream (demo_conn (ascii ''secret'')))) \<and>
    prog_status (demo_program (stream (demo_conn (ascii ''secret'')))) \<noteq> Aborted"
proof -
  let ?p = "demo_program (stream (demo_conn (ascii ''secret'')))"
  obtain p0 where p0: "main_start demo_startup 0 0 demo_options = Inr (p0, [])"
    "(program_step counting_semaphore 0)\<^sup>*\<^sup>* p0 ?p" using demo_program_reached by blast
  from program_never_aborts [OF p0, of "0x1FFFFFFFFFFFFFFF"] have "prog_status ?p \<noteq> Aborted"
    by (simp add: counting_semaphore_def demo_options_def default_opt_def DEFAULT_MAX_CONNECTIONS_def MAX_STATS_SOCKETS_def
        word_le_nat_alt INSTANT_MAX_def)
  with p0 show ?thesis by blast
qed

text \<open>
  C4. The limits of the command line hold in every state the program reaches: open connections, together
  with the accept loops that wait for one, stay within \<open>--max-connections\<close> (at least one), those of a
  source within \<open>--max-connections-per-ip\<close> if that is given, the DNS cache within
  \<open>--dns-cache-entries\<close> (and there is none without \<open>--dns-cache-ttl\<close>), the connections of the statistics
  service within its own budget; and that service asks for the token of the command line.
\<close>

theorem program_limits:
  assumes "semaphore_laws sem" "main_start env now unix opt = Inr (p0, ws)" "(program_step sem T)\<^sup>*\<^sup>* p0 p"
  shows "(\<forall>ctx s. prog_proxy p = Inr (ctx, s) \<longrightarrow>
      size (filter_mset live_task (tasks s)) + count_list (loops s) Accepting \<le> unat (max (opt_max_connections opt) 1) \<and>
      (0 < opt_max_connections_per_ip opt \<longrightarrow>
         size (filter_mset (\<lambda>t. live_task t \<and> sock_ip (task_peer t) = ip) (tasks s))
           \<le> unat (opt_max_connections_per_ip opt)) \<and>
      (\<forall>d. cache s = Some d \<longrightarrow>
         0 < dns_cache_ttl opt \<and> length (entries d) \<le> max (unat (dns_cache_entries opt)) 1)) \<and>
    (\<forall>h. prog_stats p = Some h \<longrightarrow> task_token h = stats_token opt \<and>
      (\<forall>svc. task_service h = Some svc \<longrightarrow> svc_open svc \<le> unat MAX_STATS_SOCKETS))"
proof -
  from program_reach [OF assms(2,3)] obtain server addr where
    m: "main_setup env now unix opt = Inr (server, addr, stats_token opt)"
    and inv: "proxy_inv sem server (prog_proxy p)" "service_inv sem (stats_token opt) (prog_stats p)" by blast
  have "size (filter_mset live_task (tasks s)) + count_list (loops s) Accepting \<le> unat (max (opt_max_connections opt) 1) \<and>
      (0 < opt_max_connections_per_ip opt \<longrightarrow>
         size (filter_mset (\<lambda>t. live_task t \<and> sock_ip (task_peer t) = ip) (tasks s))
           \<le> unat (opt_max_connections_per_ip opt)) \<and>
      (\<forall>d. cache s = Some d \<longrightarrow>
         0 < dns_cache_ttl opt \<and> length (entries d) \<le> max (unat (dns_cache_entries opt)) 1)"
    if "prog_proxy p = Inr (ctx, s)" for ctx s
  proof -
    note srv = proxy_inv_server [OF inv(1) [unfolded that] m]
    from srv(4) [OF assms(1)] obtain now' unix' where si: "server_inv sem (unat (max (opt_max_connections opt) 1))
       (if opt_max_connections_per_ip opt > 0 then Some (opt_max_connections_per_ip opt) else None) now' unix' s" by blast
    have "0 < opt_max_connections_per_ip opt \<Longrightarrow> max (opt_max_connections_per_ip opt) 1 = opt_max_connections_per_ip opt"
      using inc_le [of 0 "opt_max_connections_per_ip opt"] by (simp add: max_absorb1)
    with server_inv_caps(1,2) [OF si] have "size (filter_mset live_task (tasks s)) + count_list (loops s) Accepting
        \<le> unat (max (opt_max_connections opt) 1)"
      "0 < opt_max_connections_per_ip opt \<Longrightarrow>
         size (filter_mset (\<lambda>t. live_task t \<and> sock_ip (task_peer t) = ip) (tasks s)) \<le> unat (opt_max_connections_per_ip opt)"
      by fastforce+
    moreover have "0 < dns_cache_ttl opt \<and> length (entries d) \<le> max (unat (dns_cache_entries opt)) 1" if "cache s = Some d" for d
      using srv(3) that cache_reach_inv cache_reach_config
      by (fastforce simp: cached_def cache_inv_def split: if_splits)
    ultimately show ?thesis by blast
  qed
  moreover have "svc_open svc \<le> unat MAX_STATS_SOCKETS"
    if "prog_stats p = Some h" "task_service h = Some svc" for h svc
    using inv(2) that serve_stats_budget [OF _ _ assms(1)] by (fastforce simp: service_inv_def)
  ultimately show ?thesis using inv(2) by (auto simp: service_inv_def)
qed

theorem program_limits_witness:
  "\<exists>p0 s. main_start demo_startup 0 0 demo_options = Inr (p0, []) \<and>
    (program_step counting_semaphore 0)\<^sup>*\<^sup>* p0 (demo_program (stream (demo_conn (ascii ''secret'')))) \<and>
    prog_proxy (demo_program (stream (demo_conn (ascii ''secret'')))) = Inr (demo_users_context, s) \<and>
    size (filter_mset live_task (tasks s)) + count_list (loops s) Accepting \<le> 1024"
proof -
  let ?s = "stream (demo_conn (ascii ''secret''))"
  obtain p0 where p0: "main_start demo_startup 0 0 demo_options = Inr (p0, [])"
    "(program_step counting_semaphore 0)\<^sup>*\<^sup>* p0 (demo_program ?s)" using demo_program_reached by blast
  obtain s where s: "prog_proxy (demo_program ?s) = Inr (demo_users_context, s)" using demo_program_task by blast
  have "unat (max (opt_max_connections demo_options) 1) = 1024"
    by (simp add: demo_options_def default_opt_def DEFAULT_MAX_CONNECTIONS_def max_def word_le_nat_alt)
  with program_limits [OF counting_laws p0] s
  have "size (filter_mset live_task (tasks s)) + count_list (loops s) Accepting \<le> 1024" by metis
  with p0 s show ?thesis by blast
qed

end
